(* ===== verification/Prelude.thy ===== *)
theory Prelude
  imports Main "HOL-Library.Word" "HOL-Library.Multiset"
    "HOL-Library.List_Lexorder" "HOL-Library.Product_Lexorder"
begin

text \<open>
  What every component theory shares: the result type in which a Python exception is a value
  (\<open>Inl\<close>) and a normal return another (\<open>Inr\<close>), sequencing and traversal in it, the type of
  bytes, and generic facts on lists, permutations and words.

  An exception is a value of \<open>py_error\<close>: the Python class and a tag naming the raise statement
  (a shortened form of its message; the interpolated diagnostics are not modelled).
\<close>

named_theorems result_simps \<open>unfolding of the result-type combinators\<close>

subsection \<open>Exceptions as values\<close>

datatype py_error =
    TypeError string
  | ValueError string
  | KeyError string
  | IndexError string
  | OverflowError string
  | ZeroDivisionError string
  | RuntimeError string
  | NotImplementedError string

type_synonym 'a result = "py_error + 'a"

definition bindE :: "'e + 'a \<Rightarrow> ('a \<Rightarrow> 'e + 'b) \<Rightarrow> 'e + 'b" where
  "bindE m f = (case m of Inl e \<Rightarrow> Inl e | Inr x \<Rightarrow> f x)"

text \<open>\<open>raise_if b e\<close> is the statement \<^verbatim>\<open>if b: raise e\<close>.\<close>

definition raise_if :: "bool \<Rightarrow> 'e \<Rightarrow> 'e + unit" where
  "raise_if b e = (if b then Inl e else Inr ())"

text \<open>A loop whose body may raise, collecting the results: it stops at the first exception.\<close>

fun mapE :: "('a \<Rightarrow> 'e + 'b) \<Rightarrow> 'a list \<Rightarrow> 'e + 'b list" where
  "mapE f [] = Inr []"
| "mapE f (x # xs) =
     (case f x of Inl e \<Rightarrow> Inl e
      | Inr y \<Rightarrow> (case mapE f xs of Inl e \<Rightarrow> Inl e | Inr ys \<Rightarrow> Inr (y # ys)))"

text \<open>A loop threading a state through a body that may raise.\<close>

fun foldE :: "('s \<Rightarrow> 'a \<Rightarrow> 'e + 's) \<Rightarrow> 'a list \<Rightarrow> 's \<Rightarrow> 'e + 's" where
  "foldE f [] s = Inr s"
| "foldE f (x # xs) s = bindE (f s x) (foldE f xs)"

definition is_ok :: "'e + 'a \<Rightarrow> bool" where
  "is_ok r = (case r of Inl _ \<Rightarrow> False | Inr _ \<Rightarrow> True)"

lemma bindE_simps [simp, result_simps]:
  "bindE (Inl e) f = Inl e" "bindE (Inr x) f = f x"
  by (simp_all add: bindE_def)

lemma raise_if_simps [simp, result_simps]:
  "raise_if True e = Inl e" "raise_if False e = Inr ()"
  by (simp_all add: raise_if_def)

lemma is_ok_simps [simp, result_simps]:
  "is_ok (Inl e) = False" "is_ok (Inr x) = True"
  by (simp_all add: is_ok_def)

lemma bindE_eq_Inr [simp]: "bindE m f = Inr y \<longleftrightarrow> (\<exists>x. m = Inr x \<and> f x = Inr y)"
  by (cases m) auto

lemma bindE_eq_Inl: "bindE m f = Inl e \<longleftrightarrow> m = Inl e \<or> (\<exists>x. m = Inr x \<and> f x = Inl e)"
  by (cases m) auto

lemma raise_if_eq_Inr [simp]: "raise_if b e = Inr u \<longleftrightarrow> \<not> b"
  by (simp add: raise_if_def)

lemma raise_if_eq_Inl [simp]: "raise_if b e = Inl e' \<longleftrightarrow> b \<and> e' = e"
  by (auto simp: raise_if_def)

lemma is_ok_iff: "is_ok r \<longleftrightarrow> (\<exists>x. r = Inr x)"
  by (cases r) auto

lemma bindE_cong [fundef_cong]:
  "m = m' \<Longrightarrow> (\<And>x. m' = Inr x \<Longrightarrow> f x = g x) \<Longrightarrow> bindE m f = bindE m' g"
  by (cases m') auto

lemma mapE_cong [fundef_cong]:
  "xs = ys \<Longrightarrow> (\<And>x. x \<in> set ys \<Longrightarrow> f x = g x) \<Longrightarrow> mapE f xs = mapE g ys"
  by (induction ys arbitrary: xs) (auto split: sum.splits)

lemma mapE_eq_Inr: "mapE f xs = Inr ys \<longleftrightarrow> list_all2 (\<lambda>x y. f x = Inr y) xs ys"
proof (induction xs arbitrary: ys)
  case Nil
  then show ?case by auto
next
  case (Cons x xs)
  then show ?case by (cases ys) (auto simp: Cons.IH [symmetric] split: sum.splits)
qed

lemma mapE_all: "(\<And>x. x \<in> set xs \<Longrightarrow> f x = Inr (g x)) \<Longrightarrow> mapE f xs = Inr (map g xs)"
  by (induction xs) auto

lemma foldE_stays: "(\<And>x. x \<in> set xs \<Longrightarrow> f s x = Inr s) \<Longrightarrow> foldE f xs s = Inr s"
  by (induction xs) auto

lemma mapE_is_ok: "is_ok (mapE f xs) \<longleftrightarrow> (\<forall>x\<in>set xs. is_ok (f x))"
  by (induction xs) (auto split: sum.splits simp: is_ok_def)

lemma mapE_Inr_length: "mapE f xs = Inr ys \<Longrightarrow> length ys = length xs"
  by (simp add: mapE_eq_Inr list_all2_lengthD)

subsection \<open>Lists and permutations\<close>

type_synonym byte = "8 word"

text \<open>Two lists with the same multiset of images are related by a matching of their elements.\<close>

lemma mset_map_eq_matching:
  assumes "mset (map f xs) = mset (map g ys)"
  shows "\<exists>zs. mset zs = mset ys \<and> list_all2 (\<lambda>x z. f x = g z) xs zs"
  using assms
proof (induction xs arbitrary: ys)
  case Nil
  then show ?case by auto
next
  case (Cons x xs)
  have "f x \<in> set (map g ys)"
    using Cons.prems by (metis list.set_intros(1) list.simps(9) mset_eq_setD)
  then obtain y where y: "y \<in> set ys" "f x = g y" by auto
  then obtain us vs where ys: "ys = us @ y # vs" by (meson split_list)
  have "mset (map f xs) = mset (map g (us @ vs))"
    using Cons.prems y(2) by (simp add: ys)
  then obtain zs where "mset zs = mset (us @ vs)" "list_all2 (\<lambda>x z. f x = g z) xs zs"
    using Cons.IH by blast
  with y(2) show ?case by (intro exI [of _ "y # zs"]) (simp add: ys)
qed

lemma list_all2_in_right: "list_all2 P xs ys \<Longrightarrow> y \<in> set ys \<Longrightarrow> \<exists>x\<in>set xs. P x y"
  by (induction rule: list_all2_induct) auto

lemma list_all2_in_left: "list_all2 P xs ys \<Longrightarrow> x \<in> set xs \<Longrightarrow> \<exists>y \<in> set ys. P x y"
  by (induction rule: list_all2_induct) auto

lemma foldE_append: "foldE f (xs @ ys) s = bindE (foldE f xs s) (foldE f ys)"
  by (induction xs arbitrary: s) (auto split: sum.split simp: bindE_def)

lemma foldE_invariant:
  assumes "foldE f xs s = Inr s'" "P s" "\<And>x s s'. x \<in> set xs \<Longrightarrow> P s \<Longrightarrow> f s x = Inr s' \<Longrightarrow> P s'"
  shows "P s'"
  using assms by (induction xs arbitrary: s) auto

lemma find_rev_Some:
  "find P (rev xs) = Some x \<longleftrightarrow>
     (\<exists>i < length xs. xs ! i = x \<and> P x \<and> (\<forall>k. i < k \<longrightarrow> k < length xs \<longrightarrow> \<not> P (xs ! k)))"
proof (induction xs rule: rev_induct)
  case (snoc y ys)
  let ?r = "\<lambda>xs i. i < length xs \<and> xs ! i = x \<and> P x \<and> (\<forall>k. i < k \<longrightarrow> k < length xs \<longrightarrow> \<not> P (xs ! k))"
  show ?case
  proof (cases "P y")
    case True
    have "\<not> ?r (ys @ [y]) i" if "i \<noteq> length ys" for i
    proof
      assume h: "?r (ys @ [y]) i"
      then have "i < length ys" using that by simp
      moreover have all: "\<forall>k. i < k \<longrightarrow> k < length (ys @ [y]) \<longrightarrow> \<not> P ((ys @ [y]) ! k)" using h by blast
      ultimately have "\<not> P ((ys @ [y]) ! length ys)" using all [rule_format, of "length ys"] by simp
      then show False using True by simp
    qed
    then have key: "?r (ys @ [y]) i \<longleftrightarrow> i = length ys \<and> y = x" for i
      using True by (cases "i = length ys") auto
    have "(\<exists>i. ?r (ys @ [y]) i) \<longleftrightarrow> y = x" by (simp only: key) simp
    then show ?thesis using True by simp
  next
    case False
    have "?r (ys @ [y]) i \<longleftrightarrow> ?r ys i" for i
    proof (cases "i < length ys")
      case True
      then show ?thesis using False by (simp add: nth_append) (metis less_Suc_eq)
    next
      case F: False
      then show ?thesis using False by (cases "i = length ys") auto
    qed
    then show ?thesis using False snoc by simp
  qed
qed simp

lemma foldE_step_ok:
  assumes "foldE f xs s = Inr r" "x \<in> set xs"
  shows "\<exists>s' r'. f s' x = Inr r'"
  using assms by (induction xs arbitrary: s) auto

text \<open>Prefix-free pieces can be cut out of a concatenation in one way only.\<close>

lemma concat_prefix_free:
  assumes "length xs = length ys"
    and "\<And>x y r r'. x \<in> set xs \<Longrightarrow> y \<in> set ys \<Longrightarrow> x @ r = y @ r' \<Longrightarrow> x = y"
    and "concat xs @ r = concat ys @ r'"
  shows "xs = ys \<and> r = r'"
  using assms
proof (induction xs ys arbitrary: r r' rule: list_induct2)
  case Nil
  then show ?case by simp
next
  case (Cons x xs y ys)
  have "x = y"
    using Cons.prems(1) [of x y "concat xs @ r" "concat ys @ r'"] Cons.prems(2) by simp
  moreover from this have "xs = ys \<and> r = r'"
    using Cons.prems by (intro Cons.IH) auto
  ultimately show ?case by simp
qed

lemma sort_key_perm_eq:
  assumes "mset xs = mset ys" and "inj_on f (set xs)"
  shows "sort_key f xs = sort_key f ys"
  using assms by (intro sort_key_inj_key_eq) simp_all

lemma distinct_map_sort_key [simp]: "distinct (map f (sort_key g xs)) \<longleftrightarrow> distinct (map f xs)"
proof -
  have "mset (map f (sort_key g xs)) = mset (map f xs)" by simp
  then show ?thesis by (rule mset_eq_imp_distinct_iff)
qed

subsection \<open>Words\<close>

lemma word_of_nat_byte_eq:
  "a < 256 \<Longrightarrow> b < 256 \<Longrightarrow> (word_of_nat a :: byte) = word_of_nat b \<longleftrightarrow> a = b"
  by (simp add: word_of_nat_eq_iff take_bit_nat_eq_self_iff take_bit_nat_eq_self)

lemma unat_word_of_nat_byte [simp]: "a < 256 \<Longrightarrow> unat (word_of_nat a :: byte) = a"
  by (simp add: unat_of_nat)

subsection \<open>Text as code points\<close>

text \<open>A Python string is its list of code points; \<open>ascii\<close> turns a literal into one.\<close>

definition ascii :: "string \<Rightarrow> nat list" where
  "ascii s = map of_char s"

definition is_digit :: "nat \<Rightarrow> bool" where "is_digit c \<longleftrightarrow> 48 \<le> c \<and> c \<le> 57"

text \<open>\<^verbatim>\<open>%d\<close> of a non-negative integer, and \<^verbatim>\<open>int\<close> of a string of digits.\<close>

fun decimal :: "nat \<Rightarrow> nat list" where
  "decimal n = (if n < 10 then [48 + n] else decimal (n div 10) @ [48 + n mod 10])"

declare decimal.simps [simp del]

definition parse_decimal :: "nat list \<Rightarrow> nat" where
  "parse_decimal cs = foldl (\<lambda>a c. 10 * a + (c - 48)) 0 cs"

lemma decimal_nonempty: "decimal n \<noteq> []"
  by (subst decimal.simps) simp

lemma decimal_digits: "list_all is_digit (decimal n)"
proof (induction n rule: decimal.induct)
  case (1 n)
  have "is_digit (48 + n mod 10)" "n < 10 \<Longrightarrow> is_digit (48 + n)" by (auto simp: is_digit_def)
  with 1 show ?case by (subst decimal.simps) auto
qed

lemma decimal_first: "0 < n \<Longrightarrow> 49 \<le> hd (decimal n) \<and> hd (decimal n) \<le> 57"
proof (induction n rule: decimal.induct)
  case (1 n)
  then show ?case by (subst (1 2) decimal.simps) (auto simp: decimal_nonempty)
qed

lemma parse_decimal_snoc: "parse_decimal (cs @ [c]) = 10 * parse_decimal cs + (c - 48)"
  by (simp add: parse_decimal_def)

lemma parse_decimal_decimal: "parse_decimal (decimal n) = n"
proof (induction n rule: decimal.induct)
  case (1 n)
  then show ?case
    by (subst decimal.simps) (auto simp: parse_decimal_snoc parse_decimal_def [of "[_]"])
qed

end
