(* ===== verification/Canonical_Bytes.thy ===== *)
theory Canonical_Bytes
  imports Prelude
begin

unbundle bit_operations_syntax

text \<open>
  The deterministic CBOR encoder behind every identity of the program
  (\<^verbatim>\<open>python/pops/identity/encoding.py\<close>).

  A Python value is a scalar or a reference to a container object of a store, so that sharing and
  reference cycles are part of the model: \<open>encode\<close> carries the set of addresses on the current
  path exactly as \<^verbatim>\<open>_encode\<close> carries \<^verbatim>\<open>active\<close>. A string is a list of code points, lone
  surrogates included. The list of a set's members or of a dictionary's entries is one iteration
  order of the object; the laws below show that the result does not depend on it.
\<close>

subsection \<open>Python values and the object store\<close>

datatype py_value =
    PNone
  | PBool bool
  | PInt int
  | PStr "nat list"
  | PBytes "byte list"
  | PFloat
  | POpaque
  | PRef nat

datatype py_object =
    PList "py_value list"
  | PTuple "py_value list"
  | PDict "(py_value \<times> py_value) list"
  | PSet "py_value list"
  | PFrozenSet "py_value list"

type_synonym store = "py_object list"

datatype path_step = AtIndex nat | AtKey "nat list" | KeyOf | SetItem

type_synonym path = "path_step list"

datatype cbor_error =
    IntegerOutsideInt64 path
  | InvalidUnicode path
  | ReferenceCycle path
  | KeyNotString path
  | DuplicateSetMember path
  | FloatRefused path
  | OpaqueValue path
  | ArgumentExceedsUint64

subsection \<open>Byte-level primitives\<close>

definition int64_min :: int where "int64_min = - (2 ^ 63)"
definition int64_max :: int where "int64_max = 2 ^ 63 - 1"

text \<open>\<^verbatim>\<open>n.to_bytes(k, "big")\<close> for a value that fits.\<close>

fun to_bytes_big :: "nat \<Rightarrow> nat \<Rightarrow> byte list" where
  "to_bytes_big 0 n = []"
| "to_bytes_big (Suc k) n = to_bytes_big k (n div 256) @ [word_of_nat (n mod 256)]"

text \<open>The initial byte: three bits of major type, five bits of short argument.\<close>

definition initial_byte :: "nat \<Rightarrow> nat \<Rightarrow> byte" where
  "initial_byte major info = push_bit 5 (word_of_nat major) OR word_of_nat info"

definition head :: "nat \<Rightarrow> nat \<Rightarrow> cbor_error + byte list" where
  "head major argument =
     (if argument < 24 then Inr [initial_byte major argument]
      else if argument \<le> 0xFF then Inr [initial_byte major 24, word_of_nat argument]
      else if argument \<le> 0xFFFF then Inr (initial_byte major 25 # to_bytes_big 2 argument)
      else if argument \<le> 0xFFFFFFFF then Inr (initial_byte major 26 # to_bytes_big 4 argument)
      else if argument \<le> 0xFFFFFFFFFFFFFFFF then
        Inr (initial_byte major 27 # to_bytes_big 8 argument)
      else Inl ArgumentExceedsUint64)"

text \<open>\<^verbatim>\<open>str.encode("utf-8")\<close>: \<open>None\<close> for a code point that UTF-8 cannot carry.\<close>

definition utf8_char :: "nat \<Rightarrow> byte list option" where
  "utf8_char c =
     (if c < 0x80 then Some [word_of_nat c]
      else if c < 0x800 then
        Some [word_of_nat (0xC0 + c div 64), word_of_nat (0x80 + c mod 64)]
      else if 0xD800 \<le> c \<and> c \<le> 0xDFFF then None
      else if c < 0x10000 then
        Some [word_of_nat (0xE0 + c div 4096), word_of_nat (0x80 + c div 64 mod 64),
              word_of_nat (0x80 + c mod 64)]
      else if c < 0x110000 then
        Some [word_of_nat (0xF0 + c div 262144), word_of_nat (0x80 + c div 4096 mod 64),
              word_of_nat (0x80 + c div 64 mod 64), word_of_nat (0x80 + c mod 64)]
      else None)"

fun utf8 :: "nat list \<Rightarrow> byte list option" where
  "utf8 [] = Some []"
| "utf8 (c # cs) =
     (case utf8_char c of None \<Rightarrow> None
      | Some b \<Rightarrow> (case utf8 cs of None \<Rightarrow> None | Some bs \<Rightarrow> Some (b @ bs)))"

definition set_tag :: "byte list" where "set_tag = [0xd9, 0x01, 0x02]"

subsection \<open>The encoder\<close>

text \<open>The order of map keys and set members: encoded length first, then the bytes.\<close>

definition canonical_key :: "byte list \<Rightarrow> nat \<times> byte list" where
  "canonical_key b = (length b, b)"

definition encode_str :: "path \<Rightarrow> nat list \<Rightarrow> cbor_error + byte list" where
  "encode_str p s =
     (case utf8 s of None \<Rightarrow> Inl (InvalidUnicode p)
      | Some b \<Rightarrow> bindE (head 3 (length b)) (\<lambda>hd. Inr (hd @ b)))"

definition encode_int :: "path \<Rightarrow> int \<Rightarrow> cbor_error + byte list" where
  "encode_int p i =
     (if i < int64_min \<or> i > int64_max then Inl (IntegerOutsideInt64 p)
      else if i \<ge> 0 then head 0 (nat i)
      else head 1 (nat (- 1 - i)))"

definition encode_seq_parts :: "byte list list \<Rightarrow> cbor_error + byte list" where
  "encode_seq_parts parts = bindE (head 4 (length parts)) (\<lambda>hd. Inr (hd @ concat parts))"

definition encode_dict_parts :: "(byte list \<times> byte list) list \<Rightarrow> cbor_error + byte list" where
  "encode_dict_parts entries =
     (let ordered = sort_key (canonical_key \<circ> fst) entries
      in bindE (head 5 (length ordered))
           (\<lambda>hd. Inr (hd @ concat (map (\<lambda>(k, i). k @ i) ordered))))"

fun adjacent_equal :: "'a list \<Rightarrow> bool" where
  "adjacent_equal (x # y # zs) = (x = y \<or> adjacent_equal (y # zs))"
| "adjacent_equal _ = False"

definition encode_set_parts :: "path \<Rightarrow> byte list list \<Rightarrow> cbor_error + byte list" where
  "encode_set_parts p items =
     (let ordered = sort_key canonical_key items
      in if adjacent_equal ordered then Inl (DuplicateSetMember p)
         else bindE (head 4 (length ordered)) (\<lambda>hd. Inr (set_tag @ hd @ concat ordered)))"

text \<open>The containers not yet on the current path: what shrinks along a recursive call.\<close>

definition remaining :: "store \<Rightarrow> nat list \<Rightarrow> nat" where
  "remaining h active = card ({..<length h} - set active)"

lemma remaining_Cons_less:
  "a \<notin> set active \<Longrightarrow> a < length h \<Longrightarrow> remaining h (a # active) < remaining h active"
  unfolding remaining_def by (rule psubset_card_mono) auto

function encode :: "store \<Rightarrow> nat list \<Rightarrow> path \<Rightarrow> py_value \<Rightarrow> cbor_error + byte list" where
  "encode h active p PNone = Inr [0xf6]"
| "encode h active p (PBool b) = Inr [if b then 0xf5 else 0xf4]"
| "encode h active p (PInt i) = encode_int p i"
| "encode h active p (PStr s) = encode_str p s"
| "encode h active p (PBytes b) = bindE (head 2 (length b)) (\<lambda>hd. Inr (hd @ b))"
| "encode h active p PFloat = Inl (FloatRefused p)"
| "encode h active p POpaque = Inl (OpaqueValue p)"
| "encode h active p (PRef a) =
     (if a \<in> set active then Inl (ReferenceCycle p)
      else if \<not> a < length h then Inl (OpaqueValue p)
      else (case h ! a of
          PList vs \<Rightarrow>
            bindE (mapE (\<lambda>(i, v). encode h (a # active) (p @ [AtIndex i]) v) (enumerate 0 vs))
              encode_seq_parts
        | PTuple vs \<Rightarrow>
            bindE (mapE (\<lambda>(i, v). encode h (a # active) (p @ [AtIndex i]) v) (enumerate 0 vs))
              encode_seq_parts
        | PDict es \<Rightarrow>
            bindE (mapE (\<lambda>(k, v). case k of
                PStr s \<Rightarrow> bindE (encode_str (p @ [KeyOf]) s) (\<lambda>kb.
                  bindE (encode h (a # active) (p @ [AtKey s]) v) (\<lambda>ib. Inr (kb, ib)))
              | _ \<Rightarrow> Inl (KeyNotString p)) es)
              encode_dict_parts
        | PSet vs \<Rightarrow>
            bindE (mapE (\<lambda>v. encode h (a # active) (p @ [SetItem]) v) vs) (encode_set_parts p)
        | PFrozenSet vs \<Rightarrow>
            bindE (mapE (\<lambda>v. encode h (a # active) (p @ [SetItem]) v) vs) (encode_set_parts p)))"
  by pat_completeness auto
termination
  by (relation "measure (\<lambda>(h, active, p, v). remaining h active)")
    (auto simp: remaining_Cons_less)

definition canonical_bytes :: "store \<Rightarrow> py_value \<Rightarrow> cbor_error + byte list" where
  "canonical_bytes h v = encode h [] [] v"

subsection \<open>Heads and strings are self-delimiting\<close>

lemma initial_byte_eq:
  assumes "info < 32"
  shows "initial_byte major info = word_of_nat (32 * major + info)"
proof -
  have "take_bit 5 info = info"
    using assms by (simp add: take_bit_nat_eq_self_iff)
  moreover have "push_bit 5 major AND take_bit 5 info = 0"
    by (rule bit_eqI) (simp add: bit_simps)
  ultimately have "push_bit 5 major OR info = push_bit 5 major + info"
    using disjunctive_add_eq_or [of "push_bit 5 major" info] by simp
  moreover have "initial_byte major info = word_of_nat (push_bit 5 major OR info)"
    by (simp add: initial_byte_def of_nat_or_eq push_bit_of_nat)
  ultimately show ?thesis
    by (simp add: push_bit_eq_mult mult.commute)
qed

lemma unat_initial_byte:
  "major < 8 \<Longrightarrow> info < 32 \<Longrightarrow> unat (initial_byte major info) = 32 * major + info"
  by (subst initial_byte_eq, assumption, rule unat_word_of_nat_byte) simp

lemma initial_byte_eq_iff:
  assumes "major < 8" "major' < 8" "info < 32" "info' < 32"
  shows "initial_byte major info = initial_byte major' info' \<longleftrightarrow> major = major' \<and> info = info'"
proof
  assume "initial_byte major info = initial_byte major' info'"
  then have eq: "32 * major + info = 32 * major' + info'"
    using assms by (metis unat_initial_byte)
  have "(32 * major + info) div 32 = (32 * major' + info') div 32"
    "(32 * major + info) mod 32 = (32 * major' + info') mod 32"
    using eq by simp_all
  with assms show "major = major' \<and> info = info'" by simp
qed simp

lemma length_to_bytes_big [simp]: "length (to_bytes_big k n) = k"
  by (induction k arbitrary: n) auto

lemma to_bytes_big_inj:
  "n < 256 ^ k \<Longrightarrow> n' < 256 ^ k \<Longrightarrow> to_bytes_big k n = to_bytes_big k n' \<Longrightarrow> n = n'"
proof (induction k arbitrary: n n')
  case 0
  then show ?case by simp
next
  case (Suc k)
  have "n mod 256 = n' mod 256"
    using Suc.prems(3) by (simp add: word_of_nat_byte_eq)
  moreover have "n div 256 = n' div 256"
    using Suc.prems by (intro Suc.IH) (auto simp: less_mult_imp_div_less)
  ultimately show ?case by (metis mult_div_mod_eq)
qed

lemma append_eq_same_length: "length a = length b \<Longrightarrow> a @ r = b @ r' \<longleftrightarrow> a = b \<and> r = r'"
  by (rule append_eq_append_conv) simp

lemma to_bytes_big_inj_le:
  "n \<le> m \<Longrightarrow> n' \<le> m \<Longrightarrow> m < 256 ^ k \<Longrightarrow> to_bytes_big k n = to_bytes_big k n' \<Longrightarrow> n = n'"
  by (rule to_bytes_big_inj) auto

text \<open>Two heads at the start of the same bytes are the same head.\<close>

lemma head_self_delimiting:
  assumes "head m a = Inr bs" "head m' a' = Inr bs'" "m < 8" "m' < 8" "bs @ r = bs' @ r'"
  shows "m = m' \<and> a = a' \<and> r = r'"
  using assms
  by (auto simp: head_def initial_byte_eq_iff append_eq_same_length word_of_nat_byte_eq
      split: if_splits
      elim: to_bytes_big_inj_le [of a 65535 a' 2] to_bytes_big_inj_le [of a 4294967295 a' 4]
        to_bytes_big_inj_le [of a 18446744073709551615 a' 8])

definition major_type :: "byte list \<Rightarrow> nat" where
  "major_type bs = unat (hd bs) div 32"

lemma head_major: "head m a = Inr bs \<Longrightarrow> m < 8 \<Longrightarrow> bs \<noteq> [] \<and> major_type (bs @ r) = m"
  by (auto simp: head_def major_type_def unat_initial_byte split: if_splits)

text \<open>The first byte of an encoded code point tells how many bytes it has.\<close>

definition utf8_width :: "byte \<Rightarrow> nat" where
  "utf8_width b = (if unat b < 0x80 then 1 else if unat b < 0xE0 then 2
     else if unat b < 0xF0 then 3 else 4)"

lemma utf8_div_bounds:
  "c < 0x800 \<Longrightarrow> c div 64 < 32"
  "c < 0x10000 \<Longrightarrow> c div 4096 < (16::nat)"
  "c < 0x110000 \<Longrightarrow> c div 262144 < (5::nat)"
  by (simp_all add: less_mult_imp_div_less)

lemma utf8_char_width:
  assumes "utf8_char c = Some b"
  shows "b \<noteq> [] \<and> length b = utf8_width (hd b)"
  using assms utf8_div_bounds [of c]
  by (auto simp: utf8_char_def utf8_width_def unat_word_of_nat_byte simp del: of_nat_add
      split: if_splits)

lemma utf8_char_range:
  assumes "utf8_char c = Some b"
  shows "length b = 1 \<Longrightarrow> c < 0x80" "length b = 2 \<Longrightarrow> \<not> c < 0x80 \<and> c < 0x800"
    "length b = 3 \<Longrightarrow> \<not> c < 0x800 \<and> c < 0x10000 \<and> \<not> (0xD800 \<le> c \<and> c \<le> 0xDFFF)"
    "length b = 4 \<Longrightarrow> \<not> c < 0x10000 \<and> c < 0x110000"
    "length b = 1 \<or> length b = 2 \<or> length b = 3 \<or> length b = 4"
  using assms by (auto simp: utf8_char_def split: if_splits)

lemma utf8_char_inj:
  assumes c: "utf8_char c = Some b" and d: "utf8_char d = Some b"
  shows "c = d"
proof -
  have two: "c = d" if "c div 64 = d div 64" "c mod 64 = d mod 64"
    using that by (metis div_mult_mod_eq)
  have three: "c = d" if "c div 4096 = d div 4096" "c div 64 mod 64 = d div 64 mod 64"
    "c mod 64 = d mod 64"
  proof (rule two)
    have "c div 64 div 64 = d div 64 div 64" using that(1) by (simp flip: div_mult2_eq)
    then show "c div 64 = d div 64" using that(2) by (metis div_mult_mod_eq)
  qed fact
  have four: "c = d" if "c div 262144 = d div 262144" "c div 4096 mod 64 = d div 4096 mod 64"
    "c div 64 mod 64 = d div 64 mod 64" "c mod 64 = d mod 64"
  proof (rule three)
    have "c div 4096 div 64 = d div 4096 div 64" using that(1) by (simp flip: div_mult2_eq)
    then show "c div 4096 = d div 4096" using that(2) by (metis div_mult_mod_eq)
  qed fact+
  have low: "128 + x mod 64 < 256" for x :: nat
    by (rule less_trans [of _ "128 + 64"]) simp_all
  note rc = utf8_char_range [OF c] and rd = utf8_char_range [OF d]
  note bounds = utf8_div_bounds [of c] utf8_div_bounds [of d]
  have eq: "utf8_char c = utf8_char d" using c d by simp
  from rc(5) show ?thesis
  proof (elim disjE)
    assume "length b = 1"
    with rc(1) rd(1) eq show ?thesis by (simp add: utf8_char_def word_of_nat_byte_eq)
  next
    assume "length b = 2"
    with rc(2) rd(2) have "\<not> c < 0x80" "c < 0x800" "\<not> d < 0x80" "d < 0x800" by simp_all
    with bounds(1,4) eq show ?thesis
      by (intro two) (simp_all add: utf8_char_def word_of_nat_byte_eq low del: of_nat_add)
  next
    assume "length b = 3"
    with rc(3) rd(3) have "\<not> c < 0x800" "c < 0x10000" "\<not> (0xD800 \<le> c \<and> c \<le> 0xDFFF)"
      "\<not> d < 0x800" "d < 0x10000" "\<not> (0xD800 \<le> d \<and> d \<le> 0xDFFF)" by simp_all
    with bounds(2,5) eq show ?thesis
      by (intro three) (simp_all add: utf8_char_def word_of_nat_byte_eq low del: of_nat_add)
  next
    assume "length b = 4"
    with rc(4) rd(4) have "\<not> c < 0x10000" "c < 0x110000" "\<not> d < 0x10000" "d < 0x110000"
      by simp_all
    with bounds(3,6) eq show ?thesis
      by (intro four) (simp_all add: utf8_char_def word_of_nat_byte_eq low del: of_nat_add)
  qed
qed

lemma utf8_char_self_delimiting:
  assumes "utf8_char c = Some b" "utf8_char d = Some b'" "b @ r = b' @ r'"
  shows "c = d \<and> r = r'"
proof -
  from utf8_char_width [OF assms(1)] utf8_char_width [OF assms(2)] assms(3)
  have "length b = length b'" by (cases b; cases b') auto
  with assms(3) have "b = b'" "r = r'" by auto
  with assms utf8_char_inj show ?thesis by blast
qed

lemma utf8_inj: "utf8 s = Some b \<Longrightarrow> utf8 t = Some b \<Longrightarrow> s = t"
proof (induction s arbitrary: t b)
  case Nil
  then show ?case
    by (cases t) (auto simp: utf8_char_def split: option.splits if_splits)
next
  case (Cons c s)
  then obtain u v where uv: "utf8_char c = Some u" "utf8 s = Some v" "b = u @ v"
    by (auto split: option.splits)
  show ?case
  proof (cases t)
    case Nil
    with Cons.prems uv show ?thesis by (auto simp: utf8_char_def split: if_splits)
  next
    case (Cons d t')
    with Cons.prems obtain u' v' where uv': "utf8_char d = Some u'" "utf8 t' = Some v'" "b = u' @ v'"
      by (auto split: option.splits)
    with uv have "c = d \<and> v = v'" by (intro utf8_char_self_delimiting) auto
    with uv uv' Cons.IH Cons show ?thesis by auto
  qed
qed

subsection \<open>When two values are the same\<close>

fun seq_items :: "py_object \<Rightarrow> py_value list option" where
  "seq_items (PList vs) = Some vs"
| "seq_items (PTuple vs) = Some vs"
| "seq_items _ = None"

fun set_items :: "py_object \<Rightarrow> py_value list option" where
  "set_items (PSet vs) = Some vs"
| "set_items (PFrozenSet vs) = Some vs"
| "set_items _ = None"

text \<open>
  Equality of two values in two stores up to what an identity must not see: the address of an
  object, whether a sequence is a list or a tuple, the iteration order of a dictionary or a set.
\<close>

inductive same_value :: "store \<Rightarrow> store \<Rightarrow> py_value \<Rightarrow> py_value \<Rightarrow> bool" for h h' where
  same_none: "same_value h h' PNone PNone"
| same_bool: "same_value h h' (PBool b) (PBool b)"
| same_int: "same_value h h' (PInt i) (PInt i)"
| same_str: "same_value h h' (PStr s) (PStr s)"
| same_bytes: "same_value h h' (PBytes b) (PBytes b)"
| same_seq: "a < length h \<Longrightarrow> b < length h' \<Longrightarrow>
    seq_items (h ! a) = Some vs \<Longrightarrow> seq_items (h' ! b) = Some ws \<Longrightarrow>
    list_all2 (same_value h h') vs ws \<Longrightarrow> same_value h h' (PRef a) (PRef b)"
| same_dict: "a < length h \<Longrightarrow> b < length h' \<Longrightarrow> h ! a = PDict es \<Longrightarrow> h' ! b = PDict fs \<Longrightarrow>
    mset fs' = mset fs \<Longrightarrow>
    list_all2 (\<lambda>e f. fst e = fst f \<and> same_value h h' (snd e) (snd f)) es fs' \<Longrightarrow>
    same_value h h' (PRef a) (PRef b)"
| same_set: "a < length h \<Longrightarrow> b < length h' \<Longrightarrow>
    set_items (h ! a) = Some vs \<Longrightarrow> set_items (h' ! b) = Some ws \<Longrightarrow> mset ws' = mset ws \<Longrightarrow>
    list_all2 (same_value h h') vs ws' \<Longrightarrow> same_value h h' (PRef a) (PRef b)"

text \<open>The keys of a Python dictionary are distinct.\<close>

definition dict_keys_distinct :: "store \<Rightarrow> bool" where
  "dict_keys_distinct h \<longleftrightarrow>
     (\<forall>x\<in>set h. case x of PDict es \<Rightarrow> distinct (map fst es) | _ \<Rightarrow> True)"

subsection \<open>The encoder, container by container\<close>

definition encode_entry ::
  "store \<Rightarrow> nat list \<Rightarrow> path \<Rightarrow> py_value \<times> py_value \<Rightarrow> cbor_error + byte list \<times> byte list" where
  "encode_entry h active p e = (case fst e of
      PStr s \<Rightarrow> bindE (encode_str (p @ [KeyOf]) s) (\<lambda>kb.
        bindE (encode h active (p @ [AtKey s]) (snd e)) (\<lambda>ib. Inr (kb, ib)))
    | _ \<Rightarrow> Inl (KeyNotString p))"

lemma encode_dict:
  assumes "a < length h" "h ! a = PDict es"
  shows "encode h active p (PRef a) = Inr bs \<longleftrightarrow> a \<notin> set active \<and>
    (\<exists>parts. list_all2 (\<lambda>e x. encode_entry h (a # active) p e = Inr x) es parts \<and>
       encode_dict_parts parts = Inr bs)"
  using assms by (auto simp: mapE_eq_Inr encode_entry_def case_prod_beta)

lemma encode_seq:
  assumes "a < length h" "seq_items (h ! a) = Some vs"
  shows "encode h active p (PRef a) = Inr bs \<longleftrightarrow> a \<notin> set active \<and>
    (\<exists>parts. list_all2 (\<lambda>iv x. encode h (a # active) (p @ [AtIndex (fst iv)]) (snd iv) = Inr x)
        (enumerate 0 vs) parts \<and> encode_seq_parts parts = Inr bs)"
  using assms by (cases "h ! a") (auto simp: mapE_eq_Inr case_prod_beta)

lemma encode_set:
  assumes "a < length h" "set_items (h ! a) = Some vs"
  shows "encode h active p (PRef a) = Inr bs \<longleftrightarrow> a \<notin> set active \<and>
    (\<exists>parts. list_all2 (\<lambda>v x. encode h (a # active) (p @ [SetItem]) v = Inr x) vs parts \<and>
       encode_set_parts p parts = Inr bs)"
  using assms by (cases "h ! a") (auto simp: mapE_eq_Inr)

fun value_major :: "store \<Rightarrow> py_value \<Rightarrow> nat" where
  "value_major h (PInt i) = (if i \<ge> 0 then 0 else 1)"
| "value_major h (PBytes b) = 2"
| "value_major h (PStr s) = 3"
| "value_major h (PRef a) = (case h ! a of PDict es \<Rightarrow> 5 | PList vs \<Rightarrow> 4 | PTuple vs \<Rightarrow> 4 | _ \<Rightarrow> 6)"
| "value_major h _ = 7"

lemmas part_defs = encode_int_def encode_str_def encode_seq_parts_def encode_dict_parts_def
  encode_set_parts_def

lemma part_majors:
  "encode_int p i = Inr bs \<Longrightarrow> major_type (bs @ r) = (if i \<ge> 0 then 0 else 1)"
  "encode_str p s = Inr bs \<Longrightarrow> major_type (bs @ r) = 3"
  "encode_seq_parts parts = Inr bs \<Longrightarrow> major_type (bs @ r) = 4"
  "encode_dict_parts entries = Inr bs \<Longrightarrow> major_type (bs @ r) = 5"
  "encode_set_parts p parts = Inr bs \<Longrightarrow> major_type (bs @ r) = 6"
  by (auto simp: part_defs Let_def set_tag_def head_major split: if_splits option.splits)
    (simp add: major_type_def)

lemma encode_major:
  assumes "encode h active p v = Inr bs"
  shows "major_type (bs @ r) = value_major h v"
proof (cases v)
  case (PRef a)
  with assms show ?thesis
    by (auto simp: part_majors split: if_splits py_object.splits)
qed (use assms in \<open>auto simp: part_majors head_major, auto simp: major_type_def\<close>)

subsection \<open>Canonical bytes determine the value\<close>

lemma encode_str_self_delimiting:
  assumes "encode_str p s = Inr b" "encode_str p' s' = Inr b'" "b @ r = b' @ r'"
  shows "s = s' \<and> b = b' \<and> r = r'"
proof -
  obtain u hd where u: "utf8 s = Some u" "head 3 (length u) = Inr hd" "b = hd @ u"
    using assms(1) by (auto simp: encode_str_def split: option.splits)
  obtain u' hd' where u': "utf8 s' = Some u'" "head 3 (length u') = Inr hd'" "b' = hd' @ u'"
    using assms(2) by (auto simp: encode_str_def split: option.splits)
  have "length u = length u' \<and> u @ r = u' @ r'"
    using head_self_delimiting [OF u(2) u'(2), of "u @ r" "u' @ r'"] assms(3) u(3) u'(3) by simp
  then have "u = u' \<and> r = r'" by auto
  with u u' utf8_inj show ?thesis by auto
qed

lemma encode_int_self_delimiting:
  assumes "encode_int p i = Inr b" "encode_int p' i' = Inr b'" "b @ r = b' @ r'"
  shows "i = i' \<and> r = r'"
proof -
  define m n where "m j = (if j \<ge> 0 then 0 else 1 :: nat)"
    and "n j = (if j \<ge> 0 then nat j else nat (- 1 - j))" for j :: int
  have "head (m i) (n i) = Inr b" "head (m i') (n i') = Inr b'"
    using assms(1,2) by (auto simp: encode_int_def m_def n_def split: if_splits)
  moreover have "m i < 8" "m i' < 8" by (simp_all add: m_def)
  ultimately have "m i = m i' \<and> n i = n i' \<and> r = r'"
    using assms(3) by (rule head_self_delimiting)
  then show ?thesis by (auto simp: m_def n_def split: if_splits)
qed

text \<open>
  What a container's parts determine, given that they are self-delimiting: in order for a sequence,
  up to a matching once they have been sorted.
\<close>

lemma parts_in_order:
  assumes "list_all2 (\<lambda>x b. f x = Inr b) xs parts" "list_all2 (\<lambda>y b. g y = Inr b) ys parts'"
    and delim: "\<And>x y b b' r r'. x \<in> set xs \<Longrightarrow> y \<in> set ys \<Longrightarrow> f x = Inr b \<Longrightarrow> g y = Inr b' \<Longrightarrow>
      b @ r = b' @ r' \<Longrightarrow> b = b' \<and> Q x y"
    and "length parts = length parts'" "concat parts @ r = concat parts' @ r'"
  shows "parts = parts' \<and> r = r' \<and> list_all2 Q xs ys"
proof -
  have parts: "b \<in> set parts \<Longrightarrow> \<exists>x\<in>set xs. f x = Inr b"
    and parts': "b' \<in> set parts' \<Longrightarrow> \<exists>y\<in>set ys. g y = Inr b'" for b b'
    using assms(1,2) by (auto dest: list_all2_in_right)
  have "parts = parts' \<and> r = r'"
    using assms(4) _ assms(5)
  proof (rule concat_prefix_free)
    fix x y s s' assume "x \<in> set parts" "y \<in> set parts'" "x @ s = y @ s'"
    with parts [of x] parts' [of y] show "x = y" using delim by metis
  qed
  moreover from this have "list_all2 Q xs ys"
    using assms(1,2) delim [where r = "[]" and r' = "[]"]
    by (auto simp: list_all2_conv_all_nth)
  ultimately show ?thesis by simp
qed

lemma parts_up_to_order:
  fixes f :: "'a \<Rightarrow> 'e + 'c" and g :: "'b \<Rightarrow> 'e + 'c"
  assumes "list_all2 (\<lambda>x b. f x = Inr b) xs parts" "list_all2 (\<lambda>y b. g y = Inr b) ys parts'"
    and inj: "\<And>x y b. x \<in> set xs \<Longrightarrow> y \<in> set ys \<Longrightarrow> f x = Inr b \<Longrightarrow> g y = Inr b \<Longrightarrow> Q x y"
    and "mset parts = mset parts'"
  shows "\<exists>zs. mset zs = mset ys \<and> list_all2 Q xs zs"
proof -
  have "mset (map f xs) = mset (map g ys)"
  proof -
    have "map f xs = map Inr parts" "map g ys = map Inr parts'"
      using assms(1,2) by (auto simp: list_all2_conv_all_nth intro: nth_equalityI)
    then show ?thesis using assms(4) by simp
  qed
  then obtain zs where zs: "mset zs = mset ys" "list_all2 (\<lambda>x z. f x = g z) xs zs"
    using mset_map_eq_matching by blast
  have "list_all2 Q xs zs"
    using zs(2)
  proof (rule list_all2_all_nthI [OF list_all2_lengthD])
    fix n assume n: "n < length xs"
    then obtain b where "f (xs ! n) = Inr b"
      using assms(1) by (auto simp: list_all2_conv_all_nth)
    moreover have "f (xs ! n) = g (zs ! n)" using zs(2) n by (rule list_all2_nthD)
    moreover have "zs ! n \<in> set ys"
      using zs n by (metis list_all2_lengthD mset_eq_setD nth_mem)
    ultimately show "Q (xs ! n) (zs ! n)" using inj n by auto
  qed
  with zs(1) show ?thesis by blast
qed

lemma encode_PRef_ok: "encode h act p (PRef a) = Inr bs \<Longrightarrow> a < length h \<and> a \<notin> set act"
  by (auto split: if_splits)

lemma value_major_PRef:
  "value_major h (PRef a) = 4 \<longleftrightarrow> (\<exists>vs. seq_items (h ! a) = Some vs)"
  "value_major h (PRef a) = 5 \<longleftrightarrow> (\<exists>es. h ! a = PDict es)"
  "value_major h (PRef a) = 6 \<longleftrightarrow> (\<exists>vs. set_items (h ! a) = Some vs)"
  "value_major h (PRef a) = 4 \<or> value_major h (PRef a) = 5 \<or> value_major h (PRef a) = 6"
  by (cases "h ! a"; simp)+

lemma value_major_container:
  "value_major h v \<in> {4, 5, 6} \<Longrightarrow> \<exists>a. v = PRef a"
  by (cases v) (auto split: if_splits)

text \<open>The statement for one nesting depth, to be proved from the smaller depths.\<close>

definition delimits :: "store \<Rightarrow> store \<Rightarrow> nat list \<Rightarrow> nat list \<Rightarrow> bool" where
  "delimits h h' act act' \<longleftrightarrow> (\<forall>p p' v v' bs bs' r r'.
     encode h act p v = Inr bs \<longrightarrow> encode h' act' p' v' = Inr bs' \<longrightarrow> bs @ r = bs' @ r' \<longrightarrow>
     bs = bs' \<and> r = r' \<and> same_value h h' v v')"

lemma delimitsD:
  "delimits h h' act act' \<Longrightarrow> encode h act p v = Inr bs \<Longrightarrow> encode h' act' p' v' = Inr bs' \<Longrightarrow>
     bs @ r = bs' @ r' \<Longrightarrow> bs = bs' \<and> r = r' \<and> same_value h h' v v'"
  unfolding delimits_def by blast

lemma seq_delimits:
  assumes D: "delimits h h' (a # act) (b # act')"
    and a: "a < length h" "seq_items (h ! a) = Some vs"
    and b: "b < length h'" "seq_items (h' ! b) = Some ws"
    and e: "encode h act p (PRef a) = Inr bs" "encode h' act' p' (PRef b) = Inr bs'"
    and eq: "bs @ r = bs' @ r'"
  shows "bs = bs' \<and> r = r' \<and> same_value h h' (PRef a) (PRef b)"
proof -
  obtain parts hd where parts: "head 4 (length parts) = Inr hd" "bs = hd @ concat parts"
    "list_all2 (\<lambda>iv x. encode h (a # act) (p @ [AtIndex (fst iv)]) (snd iv) = Inr x)
       (enumerate 0 vs) parts"
    using e(1) unfolding encode_seq [OF a] by (auto simp: encode_seq_parts_def)
  obtain parts' hd' where parts': "head 4 (length parts') = Inr hd'" "bs' = hd' @ concat parts'"
    "list_all2 (\<lambda>iv x. encode h' (b # act') (p' @ [AtIndex (fst iv)]) (snd iv) = Inr x)
       (enumerate 0 ws) parts'"
    using e(2) unfolding encode_seq [OF b] by (auto simp: encode_seq_parts_def)
  have len: "length parts = length parts'" and cat: "concat parts @ r = concat parts' @ r'"
    using head_self_delimiting [OF parts(1) parts'(1), of "concat parts @ r" "concat parts' @ r'"]
      eq parts(2) parts'(2) by simp_all
  have "parts = parts' \<and> r = r' \<and>
      list_all2 (\<lambda>iv jw. same_value h h' (snd iv) (snd jw)) (enumerate 0 vs) (enumerate 0 ws)"
    using parts(3) parts'(3) _ len cat
    by (rule parts_in_order) (blast dest: delimitsD [OF D])
  then have "parts = parts'" "r = r'" "list_all2 (same_value h h') vs ws"
    by (auto simp: list_all2_conv_all_nth nth_enumerate_eq)
  with parts(1,2) parts'(1,2) a b show ?thesis by (auto intro: same_seq)
qed

lemma encode_entry_Inr:
  "encode_entry h act p e = Inr x \<longleftrightarrow> (\<exists>s kb ib. fst e = PStr s \<and> x = (kb, ib) \<and>
     encode_str (p @ [KeyOf]) s = Inr kb \<and> encode h act (p @ [AtKey s]) (snd e) = Inr ib)"
  by (cases "fst e") (auto simp: encode_entry_def)

lemma entry_delimits:
  assumes "delimits h h' act act'" "encode_entry h act p e = Inr x" "encode_entry h' act' p' e' = Inr x'"
    and "(fst x @ snd x) @ r = (fst x' @ snd x') @ r'"
  shows "x = x' \<and> fst e = fst e' \<and> same_value h h' (snd e) (snd e')"
proof -
  obtain s kb ib where x: "fst e = PStr s" "x = (kb, ib)" "encode_str (p @ [KeyOf]) s = Inr kb"
    "encode h act (p @ [AtKey s]) (snd e) = Inr ib" using assms(2) by (auto simp: encode_entry_Inr)
  obtain s' kb' ib' where x': "fst e' = PStr s'" "x' = (kb', ib')"
    "encode_str (p' @ [KeyOf]) s' = Inr kb'" "encode h' act' (p' @ [AtKey s']) (snd e') = Inr ib'"
    using assms(3) by (auto simp: encode_entry_Inr)
  have "s = s' \<and> kb = kb' \<and> ib @ r = ib' @ r'"
    using encode_str_self_delimiting [OF x(3) x'(3), of "ib @ r" "ib' @ r'"] assms(4) x(2) x'(2)
    by simp
  with delimitsD [OF assms(1) x(4) x'(4)] x x' show ?thesis by auto
qed

lemma dict_delimits:
  assumes D: "delimits h h' (a # act) (b # act')"
    and a: "a < length h" "h ! a = PDict es" and b: "b < length h'" "h' ! b = PDict fs"
    and e: "encode h act p (PRef a) = Inr bs" "encode h' act' p' (PRef b) = Inr bs'"
    and eq: "bs @ r = bs' @ r'"
  shows "bs = bs' \<and> r = r' \<and> same_value h h' (PRef a) (PRef b)"
proof -
  let ?cat = "\<lambda>x :: byte list \<times> byte list. fst x @ snd x"
  let ?ord = "sort_key (canonical_key \<circ> fst)"
  obtain parts hd where parts: "head 5 (length parts) = Inr hd"
    "bs = hd @ concat (map ?cat (?ord parts))"
    "list_all2 (\<lambda>e x. encode_entry h (a # act) p e = Inr x) es parts"
    using e(1) unfolding encode_dict [OF a]
    by (auto simp: encode_dict_parts_def Let_def case_prod_unfold)
  obtain parts' hd' where parts': "head 5 (length parts') = Inr hd'"
    "bs' = hd' @ concat (map ?cat (?ord parts'))"
    "list_all2 (\<lambda>e x. encode_entry h' (b # act') p' e = Inr x) fs parts'"
    using e(2) unfolding encode_dict [OF b]
    by (auto simp: encode_dict_parts_def Let_def case_prod_unfold)
  have len: "length (?ord parts) = length (?ord parts')"
    and cat: "concat (map ?cat (?ord parts)) @ r = concat (map ?cat (?ord parts')) @ r'"
    using head_self_delimiting [OF parts(1) parts'(1),
        of "concat (map ?cat (?ord parts)) @ r" "concat (map ?cat (?ord parts')) @ r'"]
      eq parts(2) parts'(2) by simp_all
  have one: "x = x'" if "x \<in> set parts" "x' \<in> set parts'" "?cat x @ s = ?cat x' @ s'" for x x' s s'
    using that parts(3) parts'(3) by (auto dest!: list_all2_in_right dest: entry_delimits [OF D])
  have "map ?cat (?ord parts) = map ?cat (?ord parts') \<and> r = r'"
    using len _ cat by (intro concat_prefix_free) (auto dest: one)
  then have maps: "map ?cat (?ord parts) = map ?cat (?ord parts')" and r: "r = r'" by simp_all
  have same: "?ord parts = ?ord parts'"
  proof (rule nth_equalityI [OF len])
    fix i assume i: "i < length (?ord parts)"
    then have "?ord parts ! i \<in> set parts" "?ord parts' ! i \<in> set parts'"
      using nth_mem [OF i] nth_mem [of i "?ord parts'"] len by simp_all
    moreover have "?cat (?ord parts ! i) = ?cat (?ord parts' ! i)"
      using arg_cong [OF maps, of "\<lambda>xs. xs ! i"] i len by simp
    ultimately show "?ord parts ! i = ?ord parts' ! i"
      using one [of "?ord parts ! i" "?ord parts' ! i" "[]" "[]"] by simp
  qed
  then have "mset parts = mset parts'" by (metis mset_sort)
  with parts(3) parts'(3) _ have "\<exists>zs. mset zs = mset fs \<and>
      list_all2 (\<lambda>e f. fst e = fst f \<and> same_value h h' (snd e) (snd f)) es zs"
    by (rule parts_up_to_order) (blast dest: entry_delimits [OF D])
  then obtain zs where "mset zs = mset fs"
    "list_all2 (\<lambda>e f. fst e = fst f \<and> same_value h h' (snd e) (snd f)) es zs" by blast
  with a b have "same_value h h' (PRef a) (PRef b)" by (intro same_dict)
  moreover have "hd = hd'" using parts(1) parts'(1) len by simp
  then have "bs = bs'" using parts(2) parts'(2) same by simp
  ultimately show ?thesis using r by simp
qed

lemma set_delimits:
  assumes D: "delimits h h' (a # act) (b # act')"
    and a: "a < length h" "set_items (h ! a) = Some vs"
    and b: "b < length h'" "set_items (h' ! b) = Some ws"
    and e: "encode h act p (PRef a) = Inr bs" "encode h' act' p' (PRef b) = Inr bs'"
    and eq: "bs @ r = bs' @ r'"
  shows "bs = bs' \<and> r = r' \<and> same_value h h' (PRef a) (PRef b)"
proof -
  let ?ord = "sort_key canonical_key"
  obtain parts hd where parts: "head 4 (length parts) = Inr hd"
    "bs = set_tag @ hd @ concat (?ord parts)"
    "list_all2 (\<lambda>v x. encode h (a # act) (p @ [SetItem]) v = Inr x) vs parts"
    using e(1) unfolding encode_set [OF a]
    by (auto simp: encode_set_parts_def Let_def split: if_splits)
  obtain parts' hd' where parts': "head 4 (length parts') = Inr hd'"
    "bs' = set_tag @ hd' @ concat (?ord parts')"
    "list_all2 (\<lambda>v x. encode h' (b # act') (p' @ [SetItem]) v = Inr x) ws parts'"
    using e(2) unfolding encode_set [OF b]
    by (auto simp: encode_set_parts_def Let_def split: if_splits)
  have len: "length (?ord parts) = length (?ord parts')"
    and cat: "concat (?ord parts) @ r = concat (?ord parts') @ r'"
    using head_self_delimiting [OF parts(1) parts'(1),
        of "concat (?ord parts) @ r" "concat (?ord parts') @ r'"]
      eq parts(2) parts'(2) by simp_all
  have "?ord parts = ?ord parts' \<and> r = r'"
    using len _ cat
  proof (rule concat_prefix_free)
    fix x x' s s' assume "x \<in> set (?ord parts)" "x' \<in> set (?ord parts')" "x @ s = x' @ s'"
    then show "x = x'"
      using parts(3) parts'(3) by (auto dest!: list_all2_in_right dest: delimitsD [OF D])
  qed
  then have same: "?ord parts = ?ord parts'" and r: "r = r'" by simp_all
  then have "mset parts = mset parts'" by (metis mset_sort)
  with parts(3) parts'(3) _ have "\<exists>zs. mset zs = mset ws \<and> list_all2 (same_value h h') vs zs"
    by (rule parts_up_to_order) (blast dest: delimitsD [OF D, where r = "[]" and r' = "[]"])
  then obtain zs where "mset zs = mset ws" "list_all2 (same_value h h') vs zs" by blast
  with a b have "same_value h h' (PRef a) (PRef b)" by (intro same_set)
  moreover have "hd = hd'" using parts(1) parts'(1) len by simp
  then have "bs = bs'" using parts(2) parts'(2) same by simp
  ultimately show ?thesis using r by simp
qed

lemma scalar_delimits:
  assumes "encode h act p v = Inr bs" "encode h' act' p' v' = Inr bs'" "bs @ r = bs' @ r'"
    and "value_major h v \<notin> {4, 5, 6}"
  shows "bs = bs' \<and> r = r' \<and> same_value h h' v v'"
proof -
  have major: "value_major h v = value_major h' v'"
    using assms(1-3) by (metis encode_major)
  then have nr: "v' \<noteq> PRef a" for a
    using assms(4) value_major_PRef(4) [of h' a] by auto
  show ?thesis
  proof (cases v)
    case (PInt i)
    with major nr obtain j where "v' = PInt j"
      by (cases v') (auto split: if_splits)
    with PInt assms(1-3) show ?thesis
      by (auto dest: encode_int_self_delimiting intro: same_int)
  next
    case (PStr s)
    with major nr obtain t where "v' = PStr t"
      by (cases v') (auto split: if_splits)
    with PStr assms(1-3) show ?thesis
      by (auto dest: encode_str_self_delimiting intro: same_str)
  next
    case (PBytes b)
    with major nr obtain c where c: "v' = PBytes c"
      by (cases v') (auto split: if_splits)
    obtain hd hd' where hds: "head 2 (length b) = Inr hd" "bs = hd @ b"
      "head 2 (length c) = Inr hd'" "bs' = hd' @ c"
      using PBytes c assms(1,2) by auto
    have "length b = length c \<and> b @ r = c @ r'"
      using head_self_delimiting [OF hds(1,3), of "b @ r" "c @ r'"] assms(3) hds(2,4) by simp
    with hds PBytes c show ?thesis by (auto intro: same_bytes)
  next
    case (PRef a)
    with assms(4) value_major_PRef(4) [of h a] show ?thesis by auto
  qed (use assms major nr in
      \<open>cases v'; auto split: if_splits intro: same_none same_bool\<close>)+
qed

lemma container_delimits:
  assumes D: "delimits h h' (a # act) (b # act')"
    and e: "encode h act p (PRef a) = Inr bs" "encode h' act' p' (PRef b) = Inr bs'"
    and eq: "bs @ r = bs' @ r'"
  shows "bs = bs' \<and> r = r' \<and> same_value h h' (PRef a) (PRef b)"
proof -
  have a: "a < length h" and b: "b < length h'"
    using e encode_PRef_ok by blast+
  have major: "value_major h (PRef a) = value_major h' (PRef b)" using e eq by (metis encode_major)
  from value_major_PRef(4) [of h a] show ?thesis
  proof (elim disjE)
    assume "value_major h (PRef a) = 4"
    with major obtain vs ws where "seq_items (h ! a) = Some vs" "seq_items (h' ! b) = Some ws"
      by (metis value_major_PRef(1))
    then show ?thesis by (rule seq_delimits [OF D a _ b _ e eq])
  next
    assume "value_major h (PRef a) = 5"
    with major obtain es fs where "h ! a = PDict es" "h' ! b = PDict fs"
      by (metis value_major_PRef(2))
    then show ?thesis by (rule dict_delimits [OF D a _ b _ e eq])
  next
    assume "value_major h (PRef a) = 6"
    with major obtain vs ws where "set_items (h ! a) = Some vs" "set_items (h' ! b) = Some ws"
      by (metis value_major_PRef(3))
    then show ?thesis by (rule set_delimits [OF D a _ b _ e eq])
  qed
qed

lemma encode_delimits: "delimits h h' act act'"
proof (induction "remaining h act" arbitrary: act act' rule: less_induct)
  case (less act act')
  have "bs = bs' \<and> r = r' \<and> same_value h h' v v'"
    if e: "encode h act p v = Inr bs" "encode h' act' p' v' = Inr bs'" "bs @ r = bs' @ r'"
    for p p' v v' bs bs' r r'
  proof (cases "value_major h v \<in> {4, 5, 6}")
    case False
    show ?thesis using e False by (rule scalar_delimits)
  next
    case True
    have "value_major h v = value_major h' v'" using e by (metis encode_major)
    with True obtain a b where v: "v = PRef a" "v' = PRef b"
      using value_major_container by metis
    then have "a < length h" "a \<notin> set act" using e encode_PRef_ok by blast+
    then have "delimits h h' (a # act) (b # act')"
      by (intro less) (rule remaining_Cons_less)
    then show ?thesis using e unfolding v by (rule container_delimits)
  qed
  then show ?case unfolding delimits_def by blast
qed

subsection \<open>The value determines the canonical bytes\<close>

text \<open>Encodings of two matched lists: equal in order, and equal as multisets after a permutation.\<close>

lemma matched_parts:
  assumes "list_all2 Q xs ys" "list_all2 (\<lambda>x b. f x = Inr b) xs parts"
    "list_all2 (\<lambda>y b. g y = Inr b) ys parts'"
    and "\<And>x y b b'. x \<in> set xs \<Longrightarrow> y \<in> set ys \<Longrightarrow> Q x y \<Longrightarrow> f x = Inr b \<Longrightarrow> g y = Inr b' \<Longrightarrow> b = b'"
  shows "parts = parts'"
proof (rule nth_equalityI)
  show len: "length parts = length parts'" using assms(1-3) by (auto dest!: list_all2_lengthD)
  fix i assume "i < length parts"
  then show "parts ! i = parts' ! i"
    using assms(1-3) len
    by (intro assms(4) [of "xs ! i" "ys ! i"]) (auto simp: list_all2_conv_all_nth)
qed

lemma permuted_parts:
  assumes "mset zs = mset ys" "list_all2 (\<lambda>y b. g y = Inr b) ys parts'"
  shows "\<exists>parts''. mset parts'' = mset parts' \<and> list_all2 (\<lambda>y b. g y = Inr b) zs parts''"
proof -
  have ok: "g y = Inr (projr (g y))" if "y \<in> set zs" for y
  proof -
    have "y \<in> set ys" using that assms(1) by (metis mset_eq_setD)
    with assms(2) obtain b where "g y = Inr b"
      by (auto simp: in_set_conv_nth list_all2_conv_all_nth)
    then show ?thesis by simp
  qed
  have "parts' = map (projr \<circ> g) ys"
    using assms(2) by (auto simp: list_all2_conv_all_nth intro!: nth_equalityI)
  then have "mset (map (projr \<circ> g) zs) = mset parts'"
    using assms(1) by (metis mset_map)
  moreover have "list_all2 (\<lambda>y b. g y = Inr b) zs (map (projr \<circ> g) zs)"
    using ok by (auto simp: list_all2_conv_all_nth)
  ultimately show ?thesis by blast
qed

lemma entry_parts_keys_inj:
  assumes "list_all2 (\<lambda>e x. encode_entry h act p e = Inr x) es parts" "distinct (map fst es)"
  shows "inj_on (canonical_key \<circ> fst) (set parts)"
proof (rule inj_onI)
  fix x y assume xy: "x \<in> set parts" "y \<in> set parts"
    "(canonical_key \<circ> fst) x = (canonical_key \<circ> fst) y"
  then obtain e f where e: "e \<in> set es" "encode_entry h act p e = Inr x"
    and f: "f \<in> set es" "encode_entry h act p f = Inr y"
    using assms(1) by (meson list_all2_in_right)
  have "fst x = fst y" using xy(3) by (simp add: canonical_key_def)
  with e(2) f(2) have "fst e = fst f"
    by (auto simp: encode_entry_Inr dest: encode_str_self_delimiting [where r = "[]" and r' = "[]"])
  with assms(2) e(1) f(1) have "e = f" by (metis eq_key_imp_eq_value prod.collapse)
  with e(2) f(2) show "x = y" by simp
qed

definition agree :: "store \<Rightarrow> store \<Rightarrow> py_value \<Rightarrow> py_value \<Rightarrow> bool" where
  "agree h h' v v' \<longleftrightarrow> (\<forall>act p act' p' bs bs'.
     encode h act p v = Inr bs \<longrightarrow> encode h' act' p' v' = Inr bs' \<longrightarrow> bs = bs')"

lemma agreeD:
  "agree h h' v v' \<Longrightarrow> encode h act p v = Inr bs \<Longrightarrow> encode h' act' p' v' = Inr bs' \<Longrightarrow> bs = bs'"
  unfolding agree_def by blast

lemma agree_seq:
  assumes a: "a < length h" "seq_items (h ! a) = Some vs"
    and b: "b < length h'" "seq_items (h' ! b) = Some ws" and items: "list_all2 (agree h h') vs ws"
  shows "agree h h' (PRef a) (PRef b)"
  unfolding agree_def
proof (intro allI impI)
  fix act p act' p' bs bs'
  assume e: "encode h act p (PRef a) = Inr bs" "encode h' act' p' (PRef b) = Inr bs'"
  obtain parts where parts: "encode_seq_parts parts = Inr bs"
    "list_all2 (\<lambda>iv x. encode h (a # act) (p @ [AtIndex (fst iv)]) (snd iv) = Inr x)
       (enumerate 0 vs) parts"
    using e(1) unfolding encode_seq [OF a] by blast
  obtain parts' where parts': "encode_seq_parts parts' = Inr bs'"
    "list_all2 (\<lambda>iv x. encode h' (b # act') (p' @ [AtIndex (fst iv)]) (snd iv) = Inr x)
       (enumerate 0 ws) parts'"
    using e(2) unfolding encode_seq [OF b] by blast
  have "list_all2 (\<lambda>iv jw. agree h h' (snd iv) (snd jw)) (enumerate 0 vs) (enumerate 0 ws)"
    using items by (auto simp: list_all2_conv_all_nth nth_enumerate_eq)
  then have "parts = parts'" using parts(2) parts'(2)
    by (rule matched_parts) (rule agreeD)
  with parts(1) parts'(1) show "bs = bs'" by simp
qed

lemma agree_entry:
  assumes "fst e = fst f \<and> agree h h' (snd e) (snd f)"
    and "encode_entry h act p e = Inr x" "encode_entry h' act' p' f = Inr x'"
  shows "x = x'"
proof -
  have "encode_str q s = Inr b \<Longrightarrow> encode_str q' s = Inr b' \<Longrightarrow> b = b'" for q q' s b b'
    by (auto simp: encode_str_def split: option.splits)
  with assms agreeD show ?thesis by (auto simp: encode_entry_Inr)
qed

lemma agree_dict:
  assumes a: "a < length h" "h ! a = PDict es" and b: "b < length h'" "h' ! b = PDict fs"
    and perm: "mset fs' = mset fs" and distinct: "distinct (map fst es)"
    and items: "list_all2 (\<lambda>e f. fst e = fst f \<and> agree h h' (snd e) (snd f)) es fs'"
  shows "agree h h' (PRef a) (PRef b)"
  unfolding agree_def
proof (intro allI impI)
  fix act p act' p' bs bs'
  assume e: "encode h act p (PRef a) = Inr bs" "encode h' act' p' (PRef b) = Inr bs'"
  obtain parts where parts: "encode_dict_parts parts = Inr bs"
    "list_all2 (\<lambda>e x. encode_entry h (a # act) p e = Inr x) es parts"
    using e(1) unfolding encode_dict [OF a] by blast
  obtain parts' where parts': "encode_dict_parts parts' = Inr bs'"
    "list_all2 (\<lambda>e x. encode_entry h' (b # act') p' e = Inr x) fs parts'"
    using e(2) unfolding encode_dict [OF b] by blast
  obtain parts'' where parts'': "mset parts'' = mset parts'"
    "list_all2 (\<lambda>e x. encode_entry h' (b # act') p' e = Inr x) fs' parts''"
    using permuted_parts [OF perm parts'(2)] by blast
  have "parts = parts''"
    using items parts(2) parts''(2) by (rule matched_parts) (rule agree_entry)
  then have "sort_key (canonical_key \<circ> fst) parts = sort_key (canonical_key \<circ> fst) parts'"
    using parts''(1) entry_parts_keys_inj [OF parts(2) distinct] by (intro sort_key_perm_eq) auto
  with parts(1) parts'(1) show "bs = bs'" by (auto simp: encode_dict_parts_def Let_def)
qed

lemma agree_set:
  assumes a: "a < length h" "set_items (h ! a) = Some vs"
    and b: "b < length h'" "set_items (h' ! b) = Some ws"
    and perm: "mset ws' = mset ws" and items: "list_all2 (agree h h') vs ws'"
  shows "agree h h' (PRef a) (PRef b)"
  unfolding agree_def
proof (intro allI impI)
  fix act p act' p' bs bs'
  assume e: "encode h act p (PRef a) = Inr bs" "encode h' act' p' (PRef b) = Inr bs'"
  obtain parts where parts: "encode_set_parts p parts = Inr bs"
    "list_all2 (\<lambda>v x. encode h (a # act) (p @ [SetItem]) v = Inr x) vs parts"
    using e(1) unfolding encode_set [OF a] by blast
  obtain parts' where parts': "encode_set_parts p' parts' = Inr bs'"
    "list_all2 (\<lambda>v x. encode h' (b # act') (p' @ [SetItem]) v = Inr x) ws parts'"
    using e(2) unfolding encode_set [OF b] by blast
  obtain parts'' where parts'': "mset parts'' = mset parts'"
    "list_all2 (\<lambda>v x. encode h' (b # act') (p' @ [SetItem]) v = Inr x) ws' parts''"
    using permuted_parts [OF perm parts'(2)] by blast
  have "parts = parts''"
    using items parts(2) parts''(2) by (rule matched_parts) (rule agreeD)
  moreover have "inj_on canonical_key (set parts)"
    by (auto simp: inj_on_def canonical_key_def)
  ultimately have "sort_key canonical_key parts = sort_key canonical_key parts'"
    using parts''(1) by (intro sort_key_perm_eq) auto
  with parts(1) parts'(1) show "bs = bs'"
    by (auto simp: encode_set_parts_def Let_def split: if_splits)
qed

lemma same_value_agree:
  assumes "same_value h h' v v'" "dict_keys_distinct h"
  shows "agree h h' v v'"
  using assms(1)
proof induction
  case (same_seq a b vs ws)
  then show ?case by (intro agree_seq) (auto elim: list_all2_mono)
next
  case (same_dict a b es fs fs')
  moreover have "distinct (map fst es)"
    using assms(2) same_dict.hyps(1,3) by (force simp: dict_keys_distinct_def all_set_conv_all_nth)
  ultimately show ?case by (intro agree_dict [where fs' = fs']) (auto elim: list_all2_mono)
next
  case (same_set a b vs ws ws')
  then show ?case by (intro agree_set [where ws' = ws']) (auto elim: list_all2_mono)
qed (auto simp: agree_def encode_int_def encode_str_def split: if_splits option.splits)

subsection \<open>Which values are accepted\<close>

declare encode.simps(8) [simp del]

abbreviation fits_uint64 :: "nat \<Rightarrow> bool" where
  "fits_uint64 n \<equiv> n \<le> 0xFFFFFFFFFFFFFFFF"

text \<open>
  The accepted values, as a least fixed point: a value with a reference cycle has no derivation.
  Two members of one set must not have the same value.
\<close>

inductive encodable :: "store \<Rightarrow> py_value \<Rightarrow> bool" for h where
  enc_none: "encodable h PNone"
| enc_bool: "encodable h (PBool b)"
| enc_int: "int64_min \<le> i \<Longrightarrow> i \<le> int64_max \<Longrightarrow> encodable h (PInt i)"
| enc_str: "utf8 s = Some b \<Longrightarrow> fits_uint64 (length b) \<Longrightarrow> encodable h (PStr s)"
| enc_bytes: "fits_uint64 (length b) \<Longrightarrow> encodable h (PBytes b)"
| enc_seq: "a < length h \<Longrightarrow> seq_items (h ! a) = Some vs \<Longrightarrow> fits_uint64 (length vs) \<Longrightarrow>
    (\<And>v. v \<in> set vs \<Longrightarrow> encodable h v) \<Longrightarrow> encodable h (PRef a)"
| enc_dict: "a < length h \<Longrightarrow> h ! a = PDict es \<Longrightarrow> fits_uint64 (length es) \<Longrightarrow>
    (\<And>e. e \<in> set es \<Longrightarrow> \<exists>s. fst e = PStr s \<and> is_ok (encode_str [] s)) \<Longrightarrow>
    (\<And>e. e \<in> set es \<Longrightarrow> encodable h (snd e)) \<Longrightarrow> encodable h (PRef a)"
| enc_set: "a < length h \<Longrightarrow> set_items (h ! a) = Some vs \<Longrightarrow> fits_uint64 (length vs) \<Longrightarrow>
    (\<And>v. v \<in> set vs \<Longrightarrow> encodable h v) \<Longrightarrow>
    (\<And>i j. i < length vs \<Longrightarrow> j < length vs \<Longrightarrow> same_value h h (vs ! i) (vs ! j) \<Longrightarrow> i = j) \<Longrightarrow>
    encodable h (PRef a)"

fun children :: "py_object \<Rightarrow> py_value list" where
  "children (PList vs) = vs"
| "children (PTuple vs) = vs"
| "children (PDict es) = map snd es"
| "children (PSet vs) = vs"
| "children (PFrozenSet vs) = vs"

definition child :: "store \<Rightarrow> py_value \<Rightarrow> py_value \<Rightarrow> bool" where
  "child h w v \<longleftrightarrow> (\<exists>a. v = PRef a \<and> a < length h \<and> w \<in> set (children (h ! a)))"

lemma seq_set_children:
  "seq_items x = Some vs \<Longrightarrow> children x = vs" "set_items x = Some vs \<Longrightarrow> children x = vs"
  by (cases x; auto)+

lemma encodable_accp: "encodable h v \<Longrightarrow> Wellfounded.accp (child h) v"
  by (induction rule: encodable.induct)
    (rule accpI, auto simp: child_def seq_set_children)+

lemma accp_no_cycle: "Wellfounded.accp r x \<Longrightarrow> \<not> r\<^sup>+\<^sup>+ x x"
proof (erule accp_induct)
  fix x assume IH: "\<forall>y. r y x \<longrightarrow> \<not> r\<^sup>+\<^sup>+ y y"
  show "\<not> r\<^sup>+\<^sup>+ x x"
  proof
    assume "r\<^sup>+\<^sup>+ x x"
    then obtain y where "r\<^sup>*\<^sup>* x y" "r y x" by (metis tranclpD rtranclp.cases tranclp.cases
          tranclp_into_rtranclp rtranclp.rtrancl_refl)
    then have "r\<^sup>+\<^sup>+ y y" by (meson rtranclp_into_tranclp2)
    with IH \<open>r y x\<close> show False by blast
  qed
qed

lemma head_is_ok: "is_ok (head m n) \<longleftrightarrow> fits_uint64 n"
  by (auto simp: head_def)

lemma adjacent_equal_distinct:
  "sorted_wrt (\<lambda>x y. (f x :: 'b :: linorder) \<le> f y) xs \<Longrightarrow> inj f \<Longrightarrow> adjacent_equal xs \<longleftrightarrow> \<not> distinct xs"
proof (induction xs rule: adjacent_equal.induct)
  case (1 x y zs)
  have "x \<in> set zs \<Longrightarrow> x = y"
    using 1(2,3) by (auto dest: injD [of f] intro: antisym)
  with 1 show ?case by auto
qed auto

lemma set_parts_is_ok:
  "is_ok (encode_set_parts p parts) \<longleftrightarrow> distinct parts \<and> fits_uint64 (length parts)"
proof -
  have "adjacent_equal (sort_key canonical_key parts) \<longleftrightarrow> \<not> distinct (sort_key canonical_key parts)"
  proof (rule adjacent_equal_distinct [where f = canonical_key])
    show "sorted_wrt (\<lambda>x y. canonical_key x \<le> canonical_key y) (sort_key canonical_key parts)"
      using sorted_sort_key [of canonical_key parts] by (simp add: sorted_map)
    show "inj canonical_key" by (simp add: inj_on_def canonical_key_def)
  qed
  then show ?thesis
    by (auto simp: encode_set_parts_def Let_def is_ok_iff
        simp flip: head_is_ok [of 4] split: if_splits)
qed

text \<open>Acceptance, one container at a time.\<close>

lemma str_is_ok: "is_ok (encode_str p s) \<longleftrightarrow> (\<exists>b. utf8 s = Some b \<and> fits_uint64 (length b))"
  by (auto simp: encode_str_def is_ok_iff simp flip: head_is_ok [of 3] split: option.splits)

lemma list_all2_Inr_iff: "(\<exists>ys. list_all2 (\<lambda>x y. f x = Inr y) xs ys) \<longleftrightarrow> (\<forall>x\<in>set xs. is_ok (f x))"
  using mapE_is_ok [of f xs] by (simp add: is_ok_iff mapE_eq_Inr)

lemma parts_is_ok:
  assumes "\<And>parts. length parts = length xs \<Longrightarrow> is_ok (k parts) \<longleftrightarrow> C"
  shows "(\<exists>bs parts. list_all2 (\<lambda>x y. f x = Inr y) xs parts \<and> k parts = Inr bs) \<longleftrightarrow>
    C \<and> (\<forall>x\<in>set xs. is_ok (f x))"
proof -
  have "(\<exists>bs. list_all2 (\<lambda>x y. f x = Inr y) xs parts \<and> k parts = Inr bs) \<longleftrightarrow>
      C \<and> list_all2 (\<lambda>x y. f x = Inr y) xs parts" for parts
    using assms [of parts] by (auto simp: is_ok_iff dest: list_all2_lengthD)
  then have "(\<exists>parts bs. list_all2 (\<lambda>x y. f x = Inr y) xs parts \<and> k parts = Inr bs) \<longleftrightarrow>
      C \<and> (\<exists>parts. list_all2 (\<lambda>x y. f x = Inr y) xs parts)"
    by auto
  then show ?thesis by (subst ex_comm) (simp add: list_all2_Inr_iff)
qed

lemma seq_is_ok:
  assumes "a < length h" "seq_items (h ! a) = Some vs"
  shows "is_ok (encode h act p (PRef a)) \<longleftrightarrow> a \<notin> set act \<and> fits_uint64 (length vs) \<and>
    (\<forall>i<length vs. is_ok (encode h (a # act) (p @ [AtIndex i]) (vs ! i)))"
proof -
  have parts: "length parts = length (enumerate 0 vs) \<Longrightarrow>
      is_ok (encode_seq_parts parts) \<longleftrightarrow> fits_uint64 (length vs)" for parts
    by (auto simp: encode_seq_parts_def is_ok_iff simp flip: head_is_ok [of 4])
  show ?thesis
    unfolding is_ok_iff [of "encode h act p (PRef a)"] encode_seq [OF assms]
    using parts_is_ok [where xs = "enumerate 0 vs" and k = encode_seq_parts, OF parts,
        where f = "\<lambda>iv. encode h (a # act) (p @ [AtIndex (fst iv)]) (snd iv)"]
    by (auto simp: all_set_conv_all_nth nth_enumerate_eq)
qed

lemma dict_is_ok:
  assumes "a < length h" "h ! a = PDict es"
  shows "is_ok (encode h act p (PRef a)) \<longleftrightarrow> a \<notin> set act \<and> fits_uint64 (length es) \<and>
    (\<forall>e\<in>set es. \<exists>s. fst e = PStr s \<and> is_ok (encode_str [] s) \<and>
       is_ok (encode h (a # act) (p @ [AtKey s]) (snd e)))"
proof -
  have entry: "is_ok (encode_entry h (a # act) p e) \<longleftrightarrow> (\<exists>s. fst e = PStr s \<and>
      is_ok (encode_str [] s) \<and> is_ok (encode h (a # act) (p @ [AtKey s]) (snd e)))" for e
    unfolding str_is_ok [of "[]"] str_is_ok [of "p @ [KeyOf]", symmetric]
    by (auto simp: is_ok_iff encode_entry_Inr)
  have parts: "length parts = length es \<Longrightarrow>
      is_ok (encode_dict_parts parts) \<longleftrightarrow> fits_uint64 (length es)" for parts
    by (auto simp: encode_dict_parts_def Let_def is_ok_iff simp flip: head_is_ok [of 5])
  show ?thesis
    unfolding is_ok_iff [of "encode h act p (PRef a)"] encode_dict [OF assms]
    using parts_is_ok [where xs = es and k = encode_dict_parts, OF parts,
        where f = "encode_entry h (a # act) p"]
    by (auto simp: entry)
qed

lemma set_is_ok:
  assumes "a < length h" "set_items (h ! a) = Some vs" "dict_keys_distinct h"
  shows "is_ok (encode h act p (PRef a)) \<longleftrightarrow> a \<notin> set act \<and> fits_uint64 (length vs) \<and>
    (\<forall>v\<in>set vs. is_ok (encode h (a # act) (p @ [SetItem]) v)) \<and>
    (\<forall>i<length vs. \<forall>j<length vs. same_value h h (vs ! i) (vs ! j) \<longrightarrow> i = j)"
proof (cases "\<forall>v\<in>set vs. is_ok (encode h (a # act) (p @ [SetItem]) v)")
  case False
  then have "\<not> (\<exists>parts. list_all2 (\<lambda>v x. encode h (a # act) (p @ [SetItem]) v = Inr x) vs parts)"
    by (simp only: list_all2_Inr_iff not_False_eq_True)
  with False show ?thesis
    unfolding is_ok_iff [of "encode h act p (PRef a)"] encode_set [OF assms(1,2)] by auto
next
  case True
  let ?e = "\<lambda>v. encode h (a # act) (p @ [SetItem]) v"
  obtain parts where parts: "list_all2 (\<lambda>v x. ?e v = Inr x) vs parts"
    using True by (auto simp flip: list_all2_Inr_iff)
  have "parts ! i = parts ! j \<longleftrightarrow> same_value h h (vs ! i) (vs ! j)"
    if "i < length vs" "j < length vs" for i j
    using that list_all2_nthD [OF parts] delimitsD [OF encode_delimits, where r = "[]" and r' = "[]"]
      agreeD [OF same_value_agree [OF _ assms(3)]] by (metis append_Nil2)
  then have "distinct parts \<longleftrightarrow>
      (\<forall>i<length vs. \<forall>j<length vs. same_value h h (vs ! i) (vs ! j) \<longrightarrow> i = j)"
    using list_all2_lengthD [OF parts] by (auto simp: distinct_conv_nth)
  moreover have "is_ok (encode h act p (PRef a)) \<longleftrightarrow>
      a \<notin> set act \<and> is_ok (encode_set_parts p parts)"
    using parts unfolding is_ok_iff encode_set [OF assms(1,2)] by (metis mapE_eq_Inr sum.inject(2))
  ultimately show ?thesis
    using True list_all2_lengthD [OF parts] by (auto simp: set_parts_is_ok)
qed

lemma encode_imp_encodable:
  assumes "dict_keys_distinct h"
  shows "is_ok (encode h act p v) \<Longrightarrow> encodable h v"
proof (induction "remaining h act" arbitrary: act p v rule: less_induct)
  case (less act p v)
  show ?case
  proof (cases v)
    case (PRef a)
    then have a: "a < length h" "a \<notin> set act"
      using less.prems encode_PRef_ok by (auto simp: is_ok_iff)
    then have IH: "is_ok (encode h (a # act) q w) \<Longrightarrow> encodable h w" for q w
      by (intro less) (rule remaining_Cons_less)
    show ?thesis
      using value_major_PRef(4) [of h a] less.prems unfolding PRef value_major_PRef(1-3)
    proof (elim disjE exE)
      fix vs assume vs: "seq_items (h ! a) = Some vs" "is_ok (encode h act p (PRef a))"
      then have ok: "\<forall>i<length vs. is_ok (encode h (a # act) (p @ [AtIndex i]) (vs ! i))"
        "fits_uint64 (length vs)"
        by (simp_all add: seq_is_ok [OF a(1) vs(1)])
      then have "\<forall>v\<in>set vs. encodable h v" using IH by (metis in_set_conv_nth)
      with ok(2) a(1) vs(1) show "encodable h (PRef a)" by (blast intro: enc_seq)
    next
      fix es assume es: "h ! a = PDict es" "is_ok (encode h act p (PRef a))"
      with a(1) IH show "encodable h (PRef a)"
        by (intro enc_dict [OF a(1) es(1)]) (auto simp: dict_is_ok [OF a(1) es(1)])
    next
      fix vs assume vs: "set_items (h ! a) = Some vs" "is_ok (encode h act p (PRef a))"
      with a(1) IH show "encodable h (PRef a)"
        by (intro enc_set [OF a(1) vs(1)]) (auto simp: set_is_ok [OF a(1) vs(1) assms])
    qed
  qed (use less.prems in \<open>auto simp: str_is_ok encode_int_def is_ok_iff [of "bindE _ _"]
      is_ok_iff [of "head 2 _", symmetric] head_is_ok intro: encodable.intros split: if_splits\<close>)
qed

text \<open>A container that is not on the path to itself keeps every object of the path out of its parts.\<close>

lemma path_stays_clear:
  assumes "encodable h (PRef a)" "\<forall>x\<in>set act. \<not> (child h)\<^sup>*\<^sup>* (PRef x) (PRef a)"
  shows "a \<notin> set act"
    and "child h w (PRef a) \<Longrightarrow> \<forall>x\<in>set (a # act). \<not> (child h)\<^sup>*\<^sup>* (PRef x) w"
proof -
  show "a \<notin> set act" using assms(2) by blast
  assume w: "child h w (PRef a)"
  show "\<forall>x\<in>set (a # act). \<not> (child h)\<^sup>*\<^sup>* (PRef x) w"
  proof (rule ballI, rule notI)
    fix x assume x: "x \<in> set (a # act)" and desc: "(child h)\<^sup>*\<^sup>* (PRef x) w"
    with w have "(child h)\<^sup>+\<^sup>+ (PRef x) (PRef a)" by simp
    with x assms accp_no_cycle [OF encodable_accp [OF assms(1)]] show False
      by (auto dest: tranclp_into_rtranclp)
  qed
qed

lemma encodable_imp_encode:
  assumes "dict_keys_distinct h"
  shows "encodable h v \<Longrightarrow> \<forall>a\<in>set act. \<not> (child h)\<^sup>*\<^sup>* (PRef a) v \<Longrightarrow> is_ok (encode h act p v)"
proof (induction arbitrary: act p rule: encodable.induct)
  case (enc_int i)
  then have "nat i \<le> 0xFFFFFFFFFFFFFFFF" "nat (- 1 - i) \<le> 0xFFFFFFFFFFFFFFFF"
    by (simp_all add: int64_min_def int64_max_def)
  with enc_int show ?case by (auto simp: encode_int_def head_is_ok)
next
  case (enc_str s b)
  then show ?case by (simp add: str_is_ok)
next
  case (enc_bytes b)
  then have "is_ok (head 2 (length b))" by (simp add: head_is_ok)
  then show ?case by (auto simp: is_ok_iff)
next
  case (enc_seq a vs)
  have enc: "encodable h (PRef a)" using enc_seq.hyps by (rule encodable.enc_seq)
  note clear = path_stays_clear [OF enc enc_seq.prems]
  have ok: "is_ok (encode h (a # act) q v)" if v: "v \<in> set vs" for v q
  proof (rule enc_seq.IH [OF v])
    have "child h v (PRef a)"
      using v enc_seq.hyps(1,2) by (simp add: child_def seq_set_children)
    then show "\<forall>x\<in>set (a # act). \<not> (child h)\<^sup>*\<^sup>* (PRef x) v" by (rule clear(2))
  qed
  show ?case
    unfolding seq_is_ok [OF enc_seq.hyps(1,2)] using clear(1) enc_seq.hyps(3) ok by simp
next
  case (enc_dict a es)
  have enc: "encodable h (PRef a)" using enc_dict.hyps by (rule encodable.enc_dict)
  note clear = path_stays_clear [OF enc enc_dict.prems]
  have ok: "is_ok (encode h (a # act) q (snd e))" if e: "e \<in> set es" for e q
  proof (rule enc_dict.IH [OF e])
    have "child h (snd e) (PRef a)" using e enc_dict.hyps(1,2) by (simp add: child_def)
    then show "\<forall>x\<in>set (a # act). \<not> (child h)\<^sup>*\<^sup>* (PRef x) (snd e)" by (rule clear(2))
  qed
  show ?case
    unfolding dict_is_ok [OF enc_dict.hyps(1,2)] using clear(1) enc_dict.hyps(3,4) ok by blast
next
  case (enc_set a vs)
  have enc: "encodable h (PRef a)" using enc_set.hyps by (rule encodable.enc_set)
  note clear = path_stays_clear [OF enc enc_set.prems]
  have ok: "is_ok (encode h (a # act) q v)" if v: "v \<in> set vs" for v q
  proof (rule enc_set.IH [OF v])
    have "child h v (PRef a)"
      using v enc_set.hyps(1,2) by (simp add: child_def seq_set_children)
    then show "\<forall>x\<in>set (a # act). \<not> (child h)\<^sup>*\<^sup>* (PRef x) v" by (rule clear(2))
  qed
  show ?case
    unfolding set_is_ok [OF enc_set.hyps(1,2) assms]
    using clear(1) enc_set.hyps(3,5) ok by blast
qed simp_all

subsection \<open>Properties\<close>

text \<open>
  C1. Canonical bytes are an exact identity of the value: whenever two values encode, their bytes
  are equal precisely when the values are the same up to object addresses, the difference between
  list and tuple, and the iteration order of dictionaries and sets.
\<close>

theorem canonical_bytes_eq_iff_same_value:
  assumes "dict_keys_distinct h" "canonical_bytes h v = Inr bs" "canonical_bytes h' v' = Inr bs'"
  shows "bs = bs' \<longleftrightarrow> same_value h h' v v'"
  using assms delimitsD [OF encode_delimits, where r = "[]" and r' = "[]"]
    agreeD [OF same_value_agree]
  unfolding canonical_bytes_def by (metis append_Nil2)

definition sample_store :: store where
  "sample_store =
     [PDict [(PStr [98], PInt (- 1)), (PStr [97, 233], PRef 1)], PList [PBool True, PNone]]"

definition sample_store_reordered :: store where
  "sample_store_reordered =
     [PTuple [PBool True, PNone], PDict [(PStr [97, 233], PRef 0), (PStr [98], PInt (- 1))]]"

definition sample_bytes :: "byte list" where
  "sample_bytes = [0xA2, 0x61, 0x62, 0x20, 0x63, 0x61, 0xC3, 0xA9, 0x82, 0xF5, 0xF6]"

lemma sample_store_bytes: "canonical_bytes sample_store (PRef 0) = Inr sample_bytes"
  by code_simp

lemma sample_store_reordered_bytes:
  "canonical_bytes sample_store_reordered (PRef 1) = Inr sample_bytes"
  by code_simp

theorem canonical_bytes_eq_iff_same_value_witness:
  "dict_keys_distinct sample_store \<and> canonical_bytes sample_store (PRef 0) = Inr sample_bytes \<and>
   canonical_bytes sample_store_reordered (PRef 1) = Inr sample_bytes \<and>
   same_value sample_store sample_store_reordered (PRef 0) (PRef 1)"
proof -
  have "dict_keys_distinct sample_store" by (simp add: dict_keys_distinct_def sample_store_def)
  with canonical_bytes_eq_iff_same_value [OF this sample_store_bytes sample_store_reordered_bytes]
  show ?thesis using sample_store_bytes sample_store_reordered_bytes by blast
qed

text \<open>
  The encoding is self-delimiting: no canonical byte string is a proper prefix of another, so
  concatenated encodings can be cut apart in one way only.
\<close>

theorem canonical_bytes_prefix_free:
  assumes "canonical_bytes h v = Inr bs" "canonical_bytes h' v' = Inr bs'" "bs @ r = bs' @ r'"
  shows "bs = bs' \<and> r = r' \<and> same_value h h' v v'"
  using assms delimitsD [OF encode_delimits] unfolding canonical_bytes_def by blast

theorem canonical_bytes_prefix_free_witness:
  "canonical_bytes sample_store (PRef 0) = Inr sample_bytes \<and>
   canonical_bytes sample_store_reordered (PRef 1) = Inr sample_bytes \<and>
   same_value sample_store sample_store_reordered (PRef 0) (PRef 1)"
  using canonical_bytes_prefix_free [OF sample_store_bytes sample_store_reordered_bytes refl]
    sample_store_bytes sample_store_reordered_bytes by blast

text \<open>
  C3. The encoder returns on every object graph, and it raises precisely on the values outside the
  identity language: a reference cycle, an integer outside int64, an invalid string, a non-string
  key, a float or opaque value, two set members with the same value, a length beyond uint64.
\<close>

theorem canonical_bytes_accepts_iff_encodable:
  assumes "dict_keys_distinct h"
  shows "is_ok (canonical_bytes h v) \<longleftrightarrow> encodable h v"
  using assms encode_imp_encodable encodable_imp_encode [where act = "[]"]
  unfolding canonical_bytes_def by auto

definition cyclic_store :: store where
  "cyclic_store = [PList [PRef 1], PTuple [PNone, PRef 0]]"

theorem canonical_bytes_accepts_iff_encodable_witness:
  "dict_keys_distinct cyclic_store \<and> \<not> encodable cyclic_store (PRef 0) \<and>
   canonical_bytes cyclic_store (PRef 0) = Inl (ReferenceCycle [AtIndex 0, AtIndex 1])"
proof -
  have "dict_keys_distinct cyclic_store" by (simp add: dict_keys_distinct_def cyclic_store_def)
  moreover have "canonical_bytes cyclic_store (PRef 0) = Inl (ReferenceCycle [AtIndex 0, AtIndex 1])"
    by code_simp
  ultimately show ?thesis
    using canonical_bytes_accepts_iff_encodable [of cyclic_store "PRef 0"] by simp
qed

subsection \<open>What identities rely on\<close>

text \<open>
  The contract between the encoder and the layers that hash its output: exactness on valid
  inputs and prefix-freeness. \<open>digest_exact\<close> is what they use.
\<close>

locale identity_code =
  fixes code :: "'v \<Rightarrow> 'e + byte list" and valid :: "'v \<Rightarrow> bool" and equiv :: "'v \<Rightarrow> 'v \<Rightarrow> bool"
  assumes code_exact: "valid v \<Longrightarrow> code v = Inr b \<Longrightarrow> code w = Inr c \<Longrightarrow> b = c \<longleftrightarrow> equiv v w"
    and code_delimited: "code v = Inr b \<Longrightarrow> code w = Inr c \<Longrightarrow> b @ r = c @ r' \<Longrightarrow> b = c \<and> r = r'"
begin

text \<open>Hashing the code is as exact as the hash is free of a collision on the two codes at hand.\<close>

lemma digest_exact:
  assumes "valid v" "code v = Inr b" "code w = Inr c" "H b = H c \<Longrightarrow> b = c"
  shows "H b = H c \<longleftrightarrow> equiv v w"
  using assms code_exact by metis

lemma equiv_reflexive: "valid v \<Longrightarrow> code v = Inr b \<Longrightarrow> equiv v v"
  using code_exact by blast

lemma equiv_transitive:
  assumes "valid v" "valid w" "code v = Inr b" "code w = Inr c" "code x = Inr d"
    and "equiv v w" "equiv w x"
  shows "equiv v x"
  using assms code_exact by metis

end

interpretation cbor: identity_code
  "\<lambda>hv. canonical_bytes (fst hv) (snd hv)"
  "\<lambda>hv. dict_keys_distinct (fst hv)"
  "\<lambda>hv kw. same_value (fst hv) (fst kw) (snd hv) (snd kw)"
proof unfold_locales
  fix v w :: "store \<times> py_value" and b c r r' :: "byte list"
  assume e: "canonical_bytes (fst v) (snd v) = Inr b" "canonical_bytes (fst w) (snd w) = Inr c"
  show "b = c \<and> r = r'" if "b @ r = c @ r'"
    using e that delimitsD [OF encode_delimits] unfolding canonical_bytes_def by blast
  show "b = c \<longleftrightarrow> same_value (fst v) (fst w) (snd v) (snd w)" if "dict_keys_distinct (fst v)"
    using e that delimitsD [OF encode_delimits, where r = "[]" and r' = "[]"]
      agreeD [OF same_value_agree]
    unfolding canonical_bytes_def by (metis append_Nil2)
qed

end
