(* ===== verification/Typed_Identity.thy ===== *)
theory Typed_Identity
  imports Canonical_Bytes
begin

text \<open>
  Typed, domain-separated identities over canonical bytes
  (\<^verbatim>\<open>python/pops/identity/digest.py\<close>): the validated \<^verbatim>\<open>Identity\<close> value, its printable
  token and the strict parser of tokens, and \<^verbatim>\<open>make_identity\<close>, which hashes the versioned
  envelope of a payload. SHA-256 is a parameter \<open>H\<close> of the model.
  Text is a list of code points, as in \<open>py_value\<close>; \<open>ascii\<close> turns a literal into one.
\<close>

subsection \<open>Field checks\<close>

definition is_lower :: "nat \<Rightarrow> bool" where "is_lower c \<longleftrightarrow> 97 \<le> c \<and> c \<le> 122"
definition is_hex :: "nat \<Rightarrow> bool" where "is_hex c \<longleftrightarrow> is_digit c \<or> 97 \<le> c \<and> c \<le> 102"

text \<open>The class \<^verbatim>\<open>[a-z0-9_.-]\<close>.\<close>

definition is_domain_char :: "nat \<Rightarrow> bool" where
  "is_domain_char c \<longleftrightarrow> is_lower c \<or> is_digit c \<or> c = 95 \<or> c = 46 \<or> c = 45"

definition domain_re :: "nat list \<Rightarrow> bool" where
  "domain_re s = (case s of [] \<Rightarrow> False | c # cs \<Rightarrow> is_lower c \<and> list_all is_domain_char cs)"

definition check_domain :: "py_value \<Rightarrow> nat list result" where
  "check_domain v = (case v of
      PStr s \<Rightarrow> if domain_re s then Inr s else Inl (ValueError ''domain'')
    | _ \<Rightarrow> Inl (ValueError ''domain''))"

definition check_schema_version :: "py_value \<Rightarrow> int result" where
  "check_schema_version v = (case v of
      PInt n \<Rightarrow> if n < 1 then Inl (ValueError ''schema_version'')
               else if n > 2 ^ 63 - 1 then Inl (OverflowError ''schema_version'')
               else Inr n
    | _ \<Rightarrow> Inl (ValueError ''schema_version''))"

subsection \<open>The identity value\<close>

record identity =
  id_domain :: "nat list"
  id_schema_version :: int
  id_algorithm :: "nat list"
  id_digest :: "byte list"

definition algorithm_name :: "nat list" where "algorithm_name = ascii ''sha256''"
definition protocol_name :: "nat list" where "protocol_name = ascii ''pops.identity''"

text \<open>The constructor: \<^verbatim>\<open>Identity.__post_init__\<close> on the four arguments.\<close>

definition mk_identity :: "py_value \<Rightarrow> py_value \<Rightarrow> py_value \<Rightarrow> py_value \<Rightarrow> identity result" where
  "mk_identity dname ver alg dig =
     bindE (check_domain dname) (\<lambda>d.
     bindE (check_schema_version ver) (\<lambda>n.
     bindE (raise_if (alg \<noteq> PStr algorithm_name) (ValueError ''algorithm'')) (\<lambda>_.
     (case dig of
        PBytes b \<Rightarrow> if length b \<noteq> 32 then Inl (ValueError ''digest'')
                   else Inr \<lparr>id_domain = d, id_schema_version = n,
                             id_algorithm = algorithm_name, id_digest = b\<rparr>
      | _ \<Rightarrow> Inl (ValueError ''digest'')))))"

definition identity_ok :: "identity \<Rightarrow> bool" where
  "identity_ok i \<longleftrightarrow> domain_re (id_domain i) \<and> 1 \<le> id_schema_version i \<and>
     id_schema_version i \<le> 2 ^ 63 - 1 \<and> id_algorithm i = algorithm_name \<and> length (id_digest i) = 32"

text \<open>
  \<^verbatim>\<open>to_data\<close> and the strict \<^verbatim>\<open>from_data\<close>: a mapping with the four required keys and no other.
\<close>

definition identity_keys :: "py_value list" where
  "identity_keys = map (PStr \<circ> ascii) [''domain'', ''schema_version'', ''algorithm'', ''digest'']"

definition identity_to_data :: "identity \<Rightarrow> py_object" where
  "identity_to_data i = PDict (zip identity_keys
     [PStr (id_domain i), PInt (id_schema_version i), PStr (id_algorithm i), PBytes (id_digest i)])"

definition identity_from_data :: "store \<Rightarrow> py_value \<Rightarrow> identity result" where
  "identity_from_data h v = (case v of
      PRef a \<Rightarrow> (if a < length h then (case h ! a of
          PDict es \<Rightarrow>
            if fst ` set es \<noteq> set identity_keys then Inl (TypeError ''Identity data'')
            else mk_identity (the (map_of es (identity_keys ! 0))) (the (map_of es (identity_keys ! 1)))
              (the (map_of es (identity_keys ! 2))) (the (map_of es (identity_keys ! 3)))
        | _ \<Rightarrow> Inl (TypeError ''Identity data'')) else Inl (TypeError ''Identity data''))
    | _ \<Rightarrow> Inl (TypeError ''Identity data''))"

subsection \<open>Tokens\<close>

definition hex_digit :: "nat \<Rightarrow> nat" where
  "hex_digit n = (if n < 10 then 48 + n else 87 + n)"

definition hex_value :: "nat \<Rightarrow> nat" where
  "hex_value c = (if c \<le> 57 then c - 48 else c - 87)"

text \<open>\<^verbatim>\<open>bytes.hex\<close> and \<^verbatim>\<open>bytes.fromhex\<close> on lower-case digits.\<close>

definition hexdigest :: "byte list \<Rightarrow> nat list" where
  "hexdigest bs = concat (map (\<lambda>b. [hex_digit (unat b div 16), hex_digit (unat b mod 16)]) bs)"

fun fromhex :: "nat list \<Rightarrow> byte list" where
  "fromhex (x # y # cs) = word_of_nat (16 * hex_value x + hex_value y) # fromhex cs"
| "fromhex _ = []"

definition token :: "identity \<Rightarrow> nat list" where
  "token i = ascii ''pops.'' @ id_domain i @ ascii ''.v'' @ decimal (nat (id_schema_version i)) @
     [58] @ id_algorithm i @ [58] @ hexdigest (id_digest i)"

text \<open>
  Matching \<^verbatim>\<open>pops.([a-z][a-z0-9_.-]*).v([1-9][0-9]*):sha256:([0-9a-f]{64})\<close>. The groups
  are found without backtracking: no group contains a colon, and the version has no dot, so the
  domain ends at the last dot before the first colon.
\<close>

definition strip_prefix :: "nat list \<Rightarrow> nat list \<Rightarrow> nat list option" where
  "strip_prefix p s = (if take (length p) s = p then Some (drop (length p) s) else None)"

definition version_re :: "nat list \<Rightarrow> bool" where
  "version_re s = (case s of [] \<Rightarrow> False | c # cs \<Rightarrow> 49 \<le> c \<and> c \<le> 57 \<and> list_all is_digit cs)"

definition match_token :: "nat list \<Rightarrow> (nat list \<times> nat list \<times> nat list) option" where
  "match_token t =
     (let front = takeWhile (\<lambda>c. c \<noteq> 58) t;
          rest = dropWhile (\<lambda>c. c \<noteq> 58) t;
          ver = rev (takeWhile (\<lambda>c. c \<noteq> 46) (rev front));
          dname = rev (drop 1 (dropWhile (\<lambda>c. c \<noteq> 46) (rev front)))
      in if front = dname @ [46] @ ver then
           (case strip_prefix (ascii ''pops.'') dname of None \<Rightarrow> None
            | Some d \<Rightarrow> (case strip_prefix [118] ver of None \<Rightarrow> None
              | Some n \<Rightarrow> (case strip_prefix ([58] @ algorithm_name @ [58]) rest of None \<Rightarrow> None
                | Some x \<Rightarrow>
                    if domain_re d \<and> version_re n \<and> length x = 64 \<and> list_all is_hex x
                    then Some (d, n, x) else None)))
         else None)"

definition from_token :: "py_value \<Rightarrow> identity result" where
  "from_token v = (case v of
      PStr t \<Rightarrow> (case match_token t of
          None \<Rightarrow> Inl (ValueError ''token'')
        | Some (d, n, x) \<Rightarrow> mk_identity (PStr d) (PInt (int (parse_decimal n)))
            (PStr algorithm_name) (PBytes (fromhex x)))
    | _ \<Rightarrow> Inl (TypeError ''token''))"

subsection \<open>Making an identity\<close>

text \<open>The Python class of each encoder exception.\<close>

fun cbor_exception :: "cbor_error \<Rightarrow> py_error" where
  "cbor_exception (IntegerOutsideInt64 p) = OverflowError ''canonical CBOR integer''"
| "cbor_exception (InvalidUnicode p) = ValueError ''canonical CBOR string''"
| "cbor_exception (ReferenceCycle p) = ValueError ''canonical CBOR reference cycle''"
| "cbor_exception (KeyNotString p) = TypeError ''canonical CBOR map key''"
| "cbor_exception (DuplicateSetMember p) = ValueError ''canonical CBOR set''"
| "cbor_exception (FloatRefused p) = TypeError ''canonical CBOR float''"
| "cbor_exception (OpaqueValue p) = TypeError ''canonical CBOR opaque''"
| "cbor_exception ArgumentExceedsUint64 = OverflowError ''canonical CBOR length''"

text \<open>The envelope dictionary, allocated after the objects of the payload's store.\<close>

definition envelope :: "nat list \<Rightarrow> int \<Rightarrow> py_value \<Rightarrow> py_object" where
  "envelope d n payload = PDict
     [(PStr (ascii ''protocol''), PStr protocol_name),
      (PStr (ascii ''domain''), PStr d),
      (PStr (ascii ''schema_version''), PInt n),
      (PStr (ascii ''payload''), payload)]"

definition envelope_bytes :: "store \<Rightarrow> nat list \<Rightarrow> int \<Rightarrow> py_value \<Rightarrow> cbor_error + byte list" where
  "envelope_bytes h d n payload =
     canonical_bytes (h @ [envelope d n payload]) (PRef (length h))"

definition make_identity ::
  "(byte list \<Rightarrow> byte list) \<Rightarrow> store \<Rightarrow> py_value \<Rightarrow> py_value \<Rightarrow> py_value \<Rightarrow> identity result" where
  "make_identity H h dname payload ver =
     bindE (check_domain dname) (\<lambda>d.
     bindE (check_schema_version ver) (\<lambda>n.
     (case envelope_bytes h d n payload of
        Inl e \<Rightarrow> Inl (cbor_exception e)
      | Inr bs \<Rightarrow> mk_identity (PStr d) (PInt n) (PStr algorithm_name) (PBytes (H bs)))))"

subsection \<open>The constructor\<close>

lemma mk_identity_Inr:
  "mk_identity dname ver alg dig = Inr i \<longleftrightarrow> identity_ok i \<and> dname = PStr (id_domain i) \<and>
     ver = PInt (id_schema_version i) \<and> alg = PStr (id_algorithm i) \<and> dig = PBytes (id_digest i)"
  by (cases dname; cases ver; cases dig)
    (auto simp: mk_identity_def check_domain_def check_schema_version_def identity_ok_def)

lemma mk_identity_of_fields:
  "identity_ok i \<Longrightarrow> mk_identity (PStr (id_domain i)) (PInt (id_schema_version i))
     (PStr (id_algorithm i)) (PBytes (id_digest i)) = Inr i"
  by (simp add: mk_identity_Inr)

subsection \<open>Printing and parsing\<close>

lemma version_re_decimal: "0 < n \<Longrightarrow> version_re (decimal n)"
  using decimal_nonempty [of n] decimal_digits [of n] decimal_first [of n]
  by (cases "decimal n") (auto simp: version_re_def)

lemma decimal_parse_decimal: "version_re cs \<Longrightarrow> decimal (parse_decimal cs) = cs \<and> 0 < parse_decimal cs"
proof (induction cs rule: rev_induct)
  case Nil
  then show ?case by (simp add: version_re_def)
next
  case (snoc c cs)
  show ?case
  proof (cases cs)
    case Nil
    with snoc.prems show ?thesis
      by (subst decimal.simps) (auto simp: version_re_def parse_decimal_def)
  next
    case (Cons d ds)
    with snoc.prems have "version_re cs" "is_digit c" by (auto simp: version_re_def)
    with snoc.IH have IH: "decimal (parse_decimal cs) = cs" "0 < parse_decimal cs" by auto
    define k where "k = c - 48"
    with \<open>is_digit c\<close> have k: "c = 48 + k" "k < 10" by (auto simp: is_digit_def)
    with IH show ?thesis
      by (simp add: parse_decimal_snoc decimal.simps [of "10 * parse_decimal cs + k"])
  qed
qed

lemma hex_value_digit: "n < 16 \<Longrightarrow> hex_value (hex_digit n) = n"
  by (simp add: hex_value_def hex_digit_def)

lemma hex_digit_value: "is_hex c \<Longrightarrow> hex_digit (hex_value c) = c \<and> hex_value c < 16"
  by (auto simp: hex_value_def hex_digit_def is_hex_def is_digit_def)

lemma hexdigest_simps [simp]:
  "hexdigest [] = []"
  "hexdigest (b # bs) = hex_digit (unat b div 16) # hex_digit (unat b mod 16) # hexdigest bs"
  by (simp_all add: hexdigest_def)

lemma byte_div16: "unat (b :: byte) div 16 < 16"
proof -
  have "unat b < 2 ^ LENGTH(8)" by (rule unsigned_less)
  then show ?thesis by (simp add: less_mult_imp_div_less)
qed

lemma fromhex_hexdigest [simp]: "fromhex (hexdigest bs) = bs"
  by (induction bs) (auto simp: hex_value_digit byte_div16)

lemma hexdigest_hex: "list_all is_hex (hexdigest bs)"
proof (induction bs)
  case (Cons b bs)
  have "is_hex (hex_digit n)" if "n < 16" for n
    using that by (auto simp: hex_digit_def is_hex_def is_digit_def)
  with Cons byte_div16 [of b] show ?case by simp
qed simp

lemma length_hexdigest [simp]: "length (hexdigest bs) = 2 * length bs"
  by (induction bs) auto

lemma hexdigest_fromhex:
  "list_all is_hex cs \<Longrightarrow> even (length cs) \<Longrightarrow> hexdigest (fromhex cs) = cs"
proof (induction cs rule: fromhex.induct)
  case (1 x y cs)
  then have x: "hex_digit (hex_value x) = x" "hex_value x < 16"
    and y: "hex_digit (hex_value y) = y" "hex_value y < 16"
    by (auto dest: hex_digit_value)
  then have "unat (word_of_nat (16 * hex_value x + hex_value y) :: byte)
      = 16 * hex_value x + hex_value y"
    by (intro unat_word_of_nat_byte) simp
  with 1 x y show ?case by (simp del: of_nat_add of_nat_mult)
qed auto

lemma length_fromhex: "even (length cs) \<Longrightarrow> length (fromhex cs) = length cs div 2"
  by (induction cs rule: fromhex.induct) auto

text \<open>The matcher finds exactly the decompositions the regular expression describes.\<close>

lemma strip_prefix_Some: "strip_prefix p s = Some r \<longleftrightarrow> s = p @ r"
  by (auto simp: strip_prefix_def) (metis append_take_drop_id)

lemma ascii_token_parts [simp]:
  "ascii ''pops.'' = [112, 111, 112, 115, 46]" "ascii ''.v'' = [46, 118]"
  "algorithm_name = [115, 104, 97, 50, 53, 54]"
  by (simp_all add: ascii_def algorithm_name_def)

definition token_of :: "nat list \<Rightarrow> nat list \<Rightarrow> nat list \<Rightarrow> nat list" where
  "token_of d n x = ascii ''pops.'' @ d @ ascii ''.v'' @ n @ [58] @ algorithm_name @ [58] @ x"

lemma domain_no_colon: "domain_re d \<Longrightarrow> 58 \<notin> set d"
  by (auto simp: domain_re_def is_lower_def is_domain_char_def is_digit_def list_all_iff
      split: list.splits)

lemma version_plain: "version_re n \<Longrightarrow> 58 \<notin> set n \<and> 46 \<notin> set n"
  by (auto simp: version_re_def is_digit_def list_all_iff split: list.splits)

lemma takeWhile_dropWhile_append:
  "a \<notin> set xs \<Longrightarrow> takeWhile (\<lambda>c. c \<noteq> a) (xs @ a # ys) = xs"
  "a \<notin> set xs \<Longrightarrow> dropWhile (\<lambda>c. c \<noteq> a) (xs @ a # ys) = a # ys"
  by (induction xs) auto

lemma match_token_complete:
  assumes "domain_re d" "version_re n" "length x = 64" "list_all is_hex x"
  shows "match_token (token_of d n x) = Some (d, n, x)"
proof -
  define front rest where "front = ascii ''pops.'' @ d @ ascii ''.v'' @ n"
    and "rest = 58 # algorithm_name @ [58] @ x"
  have t: "token_of d n x = front @ rest" by (simp add: token_of_def front_def rest_def)
  have "58 \<notin> set front"
    using domain_no_colon [OF assms(1)] version_plain [OF assms(2)] by (simp add: front_def)
  then have tw: "takeWhile (\<lambda>c. c \<noteq> 58) (token_of d n x) = front"
    "dropWhile (\<lambda>c. c \<noteq> 58) (token_of d n x) = rest"
    unfolding t rest_def by (simp_all add: takeWhile_dropWhile_append)
  have rf: "rev front = (rev n @ [118]) @ 46 # rev (ascii ''pops.'' @ d)"
    by (simp add: front_def)
  have no46: "46 \<notin> set (rev n @ [118])" using version_plain [OF assms(2)] by simp
  have ver: "rev (takeWhile (\<lambda>c. c \<noteq> 46) (rev front)) = [118] @ n"
    unfolding rf takeWhile_dropWhile_append(1) [OF no46] by simp
  have dn: "rev (drop 1 (dropWhile (\<lambda>c. c \<noteq> 46) (rev front))) = ascii ''pops.'' @ d"
    unfolding rf takeWhile_dropWhile_append(2) [OF no46] by simp
  have "strip_prefix (ascii ''pops.'') (ascii ''pops.'' @ d) = Some d"
    "strip_prefix [118] ([118] @ n) = Some n"
    "strip_prefix ([58] @ algorithm_name @ [58]) rest = Some x"
    unfolding strip_prefix_Some rest_def by simp_all
  moreover have "front = (ascii ''pops.'' @ d) @ [46] @ [118] @ n" by (simp add: front_def)
  ultimately show ?thesis
    unfolding match_token_def Let_def tw ver dn using assms
    by (simp only: option.case if_True simp_thms)
qed

lemma match_token_sound:
  assumes "match_token t = Some (d, n, x)"
  shows "t = token_of d n x \<and> domain_re d \<and> version_re n \<and> length x = 64 \<and> list_all is_hex x"
proof -
  define front rest where "front = takeWhile (\<lambda>c. c \<noteq> 58) t"
    and "rest = dropWhile (\<lambda>c. c \<noteq> 58) t"
  have t: "t = front @ rest" by (simp add: front_def rest_def)
  have "\<exists>dname ver. front = dname @ [46] @ ver \<and> strip_prefix (ascii ''pops.'') dname = Some d \<and>
      strip_prefix [118] ver = Some n \<and> strip_prefix ([58] @ algorithm_name @ [58]) rest = Some x \<and>
      domain_re d \<and> version_re n \<and> length x = 64 \<and> list_all is_hex x"
    using assms unfolding match_token_def Let_def front_def [symmetric] rest_def [symmetric]
    by (simp only: option.distinct option.inject prod.inject split: if_splits option.splits) blast
  then show ?thesis unfolding t token_of_def strip_prefix_Some by auto
qed

lemma token_token_of:
  "identity_ok i \<Longrightarrow> token i = token_of (id_domain i) (decimal (nat (id_schema_version i)))
     (hexdigest (id_digest i))"
  by (simp add: token_def token_of_def identity_ok_def)

subsection \<open>Envelopes\<close>

text \<open>A store in which every reference points to an object of the store.\<close>

definition closed_value :: "store \<Rightarrow> py_value \<Rightarrow> bool" where
  "closed_value h v = (case v of PRef a \<Rightarrow> a < length h | _ \<Rightarrow> True)"

definition closed_store :: "store \<Rightarrow> bool" where
  "closed_store h \<longleftrightarrow> (\<forall>x\<in>set h. \<forall>v\<in>set (children x). closed_value h v)"

lemma closed_storeD:
  "closed_store h \<Longrightarrow> a < length h \<Longrightarrow> v \<in> set (children (h ! a)) \<Longrightarrow> closed_value h v"
  by (auto simp: closed_store_def)

text \<open>Objects allocated later do not change what a value of a closed store means.\<close>

lemma same_value_extend:
  assumes "same_value h h' v v'"
  shows "same_value (h @ k) (h' @ k') v v'"
  using assms
proof induction
  case (same_seq a b vs ws)
  then show ?case
    by (intro same_value.same_seq [where vs = vs and ws = ws]) (auto simp: nth_append elim: list_all2_mono)
next
  case (same_dict a b es fs fs')
  then show ?case
    by (intro same_value.same_dict [where es = es and fs = fs and fs' = fs'])
      (auto simp: nth_append elim: list_all2_mono)
next
  case (same_set a b vs ws ws')
  then show ?case
    by (intro same_value.same_set [where vs = vs and ws = ws and ws' = ws'])
      (auto simp: nth_append elim: list_all2_mono)
qed (auto intro: same_value.intros)

lemma list_all2_restrict:
  "list_all2 (\<lambda>x y. P x \<longrightarrow> R y \<longrightarrow> Q x y) xs ys \<Longrightarrow> (\<forall>x\<in>set xs. P x) \<Longrightarrow> (\<forall>y\<in>set ys. R y) \<Longrightarrow>
     list_all2 Q xs ys"
  by (induction rule: list_all2_induct) auto

lemma same_value_restrict:
  assumes "same_value (h @ k) (h' @ k') v v'" "closed_store h" "closed_store h'"
    and "closed_value h v" "closed_value h' v'"
  shows "same_value h h' v v'"
  using assms(1,4,5)
proof induction
  case (same_seq a b vs ws)
  from same_seq.prems have ab: "a < length h" "b < length h'" by (simp_all add: closed_value_def)
  with same_seq.hyps have it: "seq_items (h ! a) = Some vs" "seq_items (h' ! b) = Some ws"
    by (simp_all add: nth_append)
  have "list_all2 (same_value h h') vs ws"
  proof (rule list_all2_restrict)
    show "list_all2 (\<lambda>v w. closed_value h v \<longrightarrow> closed_value h' w \<longrightarrow> same_value h h' v w) vs ws"
      using same_seq.IH by (auto elim: list_all2_mono)
  qed (use closed_storeD [OF assms(2) ab(1)] closed_storeD [OF assms(3) ab(2)] it in
      \<open>auto simp: seq_set_children\<close>)
  with ab it show ?case by (intro same_value.same_seq)
next
  case (same_dict a b es fs fs')
  from same_dict.prems have ab: "a < length h" "b < length h'" by (simp_all add: closed_value_def)
  with same_dict.hyps have it: "h ! a = PDict es" "h' ! b = PDict fs" by (simp_all add: nth_append)
  have sets: "set fs' = set fs" using same_dict.hyps(5) by (metis mset_eq_setD)
  have "list_all2 (\<lambda>e f. fst e = fst f \<and> same_value h h' (snd e) (snd f)) es fs'"
  proof (rule list_all2_restrict)
    show "list_all2 (\<lambda>e f. closed_value h (snd e) \<longrightarrow> closed_value h' (snd f) \<longrightarrow>
        fst e = fst f \<and> same_value h h' (snd e) (snd f)) es fs'"
      using same_dict.IH by (auto elim: list_all2_mono)
  qed (use closed_storeD [OF assms(2) ab(1)] closed_storeD [OF assms(3) ab(2)] it sets in auto)
  with ab it same_dict.hyps(5) show ?case by (intro same_value.same_dict)
next
  case (same_set a b vs ws ws')
  from same_set.prems have ab: "a < length h" "b < length h'" by (simp_all add: closed_value_def)
  with same_set.hyps have it: "set_items (h ! a) = Some vs" "set_items (h' ! b) = Some ws"
    by (simp_all add: nth_append)
  have sets: "set ws' = set ws" using same_set.hyps(5) by (metis mset_eq_setD)
  have "list_all2 (same_value h h') vs ws'"
  proof (rule list_all2_restrict)
    show "list_all2 (\<lambda>v w. closed_value h v \<longrightarrow> closed_value h' w \<longrightarrow> same_value h h' v w) vs ws'"
      using same_set.IH by (auto elim: list_all2_mono)
  qed (use closed_storeD [OF assms(2) ab(1)] closed_storeD [OF assms(3) ab(2)] it sets in
      \<open>auto simp: seq_set_children\<close>)
  with ab it same_set.hyps(5) show ?case by (intro same_value.same_set)
qed (auto intro: same_value.intros)

lemma distinct_keys_perm_eq:
  assumes "mset fs' = mset fs" "map fst fs' = map fst fs" "distinct (map fst fs)"
  shows "fs' = fs"
proof (rule nth_equalityI)
  show len: "length fs' = length fs" using assms(1) by (metis size_mset)
  fix i assume i: "i < length fs'"
  have "fs' ! i \<in> set fs" using i assms(1) by (metis mset_eq_setD nth_mem)
  moreover have "fst (fs' ! i) = fst (fs ! i)"
    using assms(2) i len by (metis nth_map)
  moreover have "fs ! i \<in> set fs" using i len by simp
  ultimately show "fs' ! i = fs ! i"
    using assms(3) by (metis eq_key_imp_eq_value prod.collapse)
qed

definition envelope_entries :: "nat list \<Rightarrow> int \<Rightarrow> py_value \<Rightarrow> (py_value \<times> py_value) list" where
  "envelope_entries d n payload =
     [(PStr (ascii ''protocol''), PStr protocol_name), (PStr (ascii ''domain''), PStr d),
      (PStr (ascii ''schema_version''), PInt n), (PStr (ascii ''payload''), payload)]"

lemma envelope_PDict: "envelope d n payload = PDict (envelope_entries d n payload)"
  by (simp add: envelope_def envelope_entries_def)

lemma envelope_keys_distinct: "distinct (map fst (envelope_entries d n payload))"
  by (simp add: envelope_entries_def ascii_def)

inductive_cases same_value_strE: "same_value h h' (PStr s) (PStr t)"
inductive_cases same_value_intE: "same_value h h' (PInt i) (PInt j)"
inductive_cases same_value_refE: "same_value h h' (PRef a) (PRef b)"

lemma same_envelope:
  "same_value (h @ [envelope d n p]) (h' @ [envelope d' n' p']) (PRef (length h)) (PRef (length h')) \<longleftrightarrow>
     d = d' \<and> n = n' \<and> same_value (h @ [envelope d n p]) (h' @ [envelope d' n' p']) p p'"
  (is "?L \<longleftrightarrow> ?R")
proof
  assume ?L
  then obtain fs' where fs': "mset fs' = mset (envelope_entries d' n' p')"
    "list_all2 (\<lambda>e f. fst e = fst f \<and>
       same_value (h @ [envelope d n p]) (h' @ [envelope d' n' p']) (snd e) (snd f))
       (envelope_entries d n p) fs'"
    by (auto simp: envelope_PDict elim!: same_value_refE)
  have "map fst fs' = map fst (envelope_entries d n p)"
    using fs'(2) by (auto simp: list_all2_conv_all_nth intro!: nth_equalityI)
  also have "\<dots> = map fst (envelope_entries d' n' p')" by (simp add: envelope_entries_def)
  finally have "fs' = envelope_entries d' n' p'"
    using fs'(1) envelope_keys_distinct by (intro distinct_keys_perm_eq)
  with fs'(2) show ?R
    by (auto simp: envelope_entries_def elim!: same_value_strE same_value_intE)
next
  assume ?R
  then have "list_all2 (\<lambda>e f. fst e = fst f \<and>
       same_value (h @ [envelope d n p]) (h' @ [envelope d' n' p']) (snd e) (snd f))
       (envelope_entries d n p) (envelope_entries d' n' p')"
    by (auto simp: envelope_entries_def intro: same_str same_int)
  then show ?L
    by (intro same_dict [where es = "envelope_entries d n p" and fs = "envelope_entries d' n' p'"
          and fs' = "envelope_entries d' n' p'"]) (simp_all add: envelope_PDict)
qed

lemma envelope_store_distinct:
  "dict_keys_distinct h \<Longrightarrow> dict_keys_distinct (h @ [envelope d n p])"
  using envelope_keys_distinct [of d n p] by (simp add: dict_keys_distinct_def envelope_PDict)

lemma make_identity_Inr:
  "make_identity H h dname p ver = Inr i \<longleftrightarrow> (\<exists>bs. dname = PStr (id_domain i) \<and>
     ver = PInt (id_schema_version i) \<and> identity_ok i \<and> id_digest i = H bs \<and>
     envelope_bytes h (id_domain i) (id_schema_version i) p = Inr bs)"
  by (cases dname; cases ver)
    (auto simp: make_identity_def check_domain_def check_schema_version_def mk_identity_Inr
      identity_ok_def split: sum.splits)

subsection \<open>Properties\<close>

text \<open>
  C4. Tokens and identities correspond one to one: the parser returns an identity exactly on the
  token that identity prints, and every identity it returns satisfies the constructor's checks.
\<close>

theorem from_token_iff_token:
  "from_token (PStr t) = Inr i \<longleftrightarrow> identity_ok i \<and> token i = t"
proof
  assume "from_token (PStr t) = Inr i"
  then obtain d n x where m: "match_token t = Some (d, n, x)"
    and mk: "mk_identity (PStr d) (PInt (int (parse_decimal n))) (PStr algorithm_name)
      (PBytes (fromhex x)) = Inr i"
    by (auto simp: from_token_def split: option.splits)
  note t = match_token_sound [OF m]
  from mk have i: "identity_ok i" "id_domain i = d" "id_schema_version i = int (parse_decimal n)"
    "id_digest i = fromhex x"
    by (auto simp: mk_identity_Inr)
  moreover have "decimal (parse_decimal n) = n" using t decimal_parse_decimal by blast
  moreover have "hexdigest (fromhex x) = x" using t by (intro hexdigest_fromhex) auto
  ultimately show "identity_ok i \<and> token i = t" using t by (simp add: token_token_of)
next
  assume i: "identity_ok i \<and> token i = t"
  then have "version_re (decimal (nat (id_schema_version i)))"
    by (intro version_re_decimal) (simp add: identity_ok_def)
  moreover have "length (hexdigest (id_digest i)) = 64" using i by (simp add: identity_ok_def)
  ultimately have "match_token t = Some (id_domain i, decimal (nat (id_schema_version i)),
      hexdigest (id_digest i))"
    using i match_token_complete hexdigest_hex token_token_of by (auto simp: identity_ok_def)
  with i mk_identity_of_fields [of i] show "from_token (PStr t) = Inr i"
    by (simp add: from_token_def parse_decimal_decimal identity_ok_def)
qed

text \<open>
  The data form of an identity decodes to that identity, wherever it is stored.
\<close>

theorem identity_data_roundtrip:
  assumes "identity_ok i" "a < length h" "h ! a = identity_to_data i"
  shows "identity_from_data h (PRef a) = Inr i"
  using assms mk_identity_of_fields [OF assms(1)]
  by (simp add: identity_from_data_def identity_to_data_def identity_keys_def ascii_def)

text \<open>
  C6. Identities are exact and domain separated: two identities made from payloads of closed
  stores are equal precisely when the domains, the schema versions and the payload values are
  equal, as long as the hash does not collide on the two envelopes.
\<close>

theorem make_identity_eq_iff:
  assumes "dict_keys_distinct h" "closed_store h" "closed_store h'"
    and "closed_value h p" "closed_value h' p'"
    and i: "make_identity H h dname p ver = Inr i" "make_identity H h' dname' p' ver' = Inr i'"
    and no_collision: "\<And>b b'. envelope_bytes h (id_domain i) (id_schema_version i) p = Inr b \<Longrightarrow>
      envelope_bytes h' (id_domain i') (id_schema_version i') p' = Inr b' \<Longrightarrow> H b = H b' \<Longrightarrow> b = b'"
  shows "i = i' \<longleftrightarrow> dname = dname' \<and> ver = ver' \<and> same_value h h' p p'"
proof -
  let ?k = "h @ [envelope (id_domain i) (id_schema_version i) p]"
  let ?k' = "h' @ [envelope (id_domain i') (id_schema_version i') p']"
  obtain b where b: "dname = PStr (id_domain i)" "ver = PInt (id_schema_version i)"
      "id_digest i = H b" "envelope_bytes h (id_domain i) (id_schema_version i) p = Inr b"
      "id_algorithm i = algorithm_name"
    using i(1) by (auto simp: make_identity_Inr identity_ok_def)
  obtain b' where b': "dname' = PStr (id_domain i')" "ver' = PInt (id_schema_version i')"
      "id_digest i' = H b'" "envelope_bytes h' (id_domain i') (id_schema_version i') p' = Inr b'"
      "id_algorithm i' = algorithm_name"
    using i(2) by (auto simp: make_identity_Inr identity_ok_def)
  have "H b = H b' \<longleftrightarrow> same_value ?k ?k' (PRef (length h)) (PRef (length h'))"
    by (rule cbor.digest_exact [of "(?k, PRef (length h))" b "(?k', PRef (length h'))" b' H,
          unfolded fst_conv snd_conv, OF envelope_store_distinct [OF assms(1)]
          b(4) [unfolded envelope_bytes_def] b'(4) [unfolded envelope_bytes_def]
          no_collision [OF b(4) b'(4)]])
  also have "\<dots> \<longleftrightarrow> id_domain i = id_domain i' \<and> id_schema_version i = id_schema_version i' \<and>
      same_value h h' p p'"
    unfolding same_envelope using same_value_extend same_value_restrict assms(2-5) by metis
  finally have "H b = H b' \<longleftrightarrow> dname = dname' \<and> ver = ver' \<and> same_value h h' p p'"
    using b b' by simp
  moreover have "i = i' \<longleftrightarrow> id_domain i = id_domain i' \<and> id_schema_version i = id_schema_version i'
      \<and> H b = H b'"
    using b b' by auto
  ultimately show ?thesis using b b' by auto
qed

definition pad32 :: "byte list \<Rightarrow> byte list" where
  "pad32 b = take 32 (b @ replicate 32 0)"

definition sample_identity :: identity where
  "sample_identity = \<lparr>id_domain = ascii ''run'', id_schema_version = 1,
     id_algorithm = algorithm_name, id_digest = replicate 32 7\<rparr>"

theorem identity_data_roundtrip_witness:
  "identity_from_data [PList [], identity_to_data sample_identity] (PRef 1) = Inr sample_identity"
  by (rule identity_data_roundtrip)
    (simp_all add: sample_identity_def identity_ok_def domain_re_def ascii_def is_lower_def
      is_domain_char_def)

lemma pad32_separates_samples:
  "pad32 (projr (envelope_bytes [] (ascii ''run'') 1 (PInt 5))) \<noteq>
   pad32 (projr (envelope_bytes [] (ascii ''bind'') 1 (PInt 5)))"
  by code_simp

theorem make_identity_eq_iff_witness:
  "\<exists>i i'. make_identity pad32 [] (PStr (ascii ''run'')) (PInt 5) (PInt 1) = Inr i \<and>
     make_identity pad32 [] (PStr (ascii ''bind'')) (PInt 5) (PInt 1) = Inr i' \<and> i \<noteq> i'"
proof -
  let ?m = "\<lambda>d. make_identity pad32 [] (PStr (ascii d)) (PInt 5) (PInt 1)"
  have "is_ok (?m ''run'')" "is_ok (?m ''bind'')" by code_simp+
  then obtain i i' where i: "?m ''run'' = Inr i" "?m ''bind'' = Inr i'" by (auto simp: is_ok_iff)
  then have doms: "id_domain i = ascii ''run''" "id_domain i' = ascii ''bind''"
    "id_schema_version i = 1" "id_schema_version i' = 1"
    by (auto simp: make_identity_Inr)
  have "i = i' \<longleftrightarrow> PStr (ascii ''run'') = PStr (ascii ''bind'') \<and> PInt 1 = PInt 1 \<and>
      same_value [] [] (PInt 5) (PInt 5)"
    using i(1) i(2)
  proof (rule make_identity_eq_iff [rotated 5])
    fix b b' assume "envelope_bytes [] (id_domain i) (id_schema_version i) (PInt 5) = Inr b"
      "envelope_bytes [] (id_domain i') (id_schema_version i') (PInt 5) = Inr b'" "pad32 b = pad32 b'"
    with pad32_separates_samples show "b = b'" by (simp add: doms)
  qed (simp_all add: dict_keys_distinct_def closed_store_def closed_value_def)
  with i show ?thesis by (auto simp: ascii_def)
qed

end
