(* ===== verification/Exact_Scalar.thy ===== *)
theory Exact_Scalar
  imports Prelude Complex_Main "HOL-Library.Log_Nat"
begin

text \<open>
  The exact scalars of \<^verbatim>\<open>pops/identity/scalar.py\<close>: the number domains \<^verbatim>\<open>int\<close>, \<^verbatim>\<open>Fraction\<close>,
  \<^verbatim>\<open>Decimal\<close> and \<^verbatim>\<open>float\<close> with their exact rational value, the context-independent \<^verbatim>\<open>Decimal\<close>
  algebra, the literals and their C++ spelling.

  \<^item> A \<^verbatim>\<open>Decimal\<close> is its \<^verbatim>\<open>as_tuple\<close>: a sign, a coefficient (the digit tuple read as a number; the
    constructor strips leading zeros) and an exponent.  A \<^verbatim>\<open>float\<close> is a binary64 value: sign,
    integer significand below \<open>2 ^ 53\<close> and exponent, canonical in the sense of \<open>wf_float\<close>.
  \<^item> \<open>round64\<close> is the IEEE rounding to nearest, ties to even, that \<^verbatim>\<open>float(...)\<close>, float multiplication
    and the C++ conversions perform.
  \<^item> The C++ text is an expression tree \<open>cpp_expr\<close> with one constructor per template of the source
    (\<open>render\<close> prints it), so that its value under binary64 (\<open>eval_real\<close>) and under exact field
    arithmetic (\<open>eval_exact\<close>) can be stated.
\<close>

subsection \<open>Number domains\<close>

datatype py_decimal = Decimal bool nat int | Decimal_special

datatype py_float = Finite bool nat int | Infinity bool | NaN

datatype py_number = NInt int | NFraction rat | NDecimal py_decimal | NFloat py_float

definition with_sign :: "bool \<Rightarrow> rat \<Rightarrow> rat" where
  "with_sign s q = (if s then - q else q)"

fun decimal_value :: "py_decimal \<Rightarrow> rat" where
  "decimal_value (Decimal s c e) = with_sign s (of_nat c * 10 powi e)"
| "decimal_value Decimal_special = 0"

fun is_finite_decimal :: "py_decimal \<Rightarrow> bool" where
  "is_finite_decimal (Decimal s c e) = True"
| "is_finite_decimal Decimal_special = False"

fun float_value :: "py_float \<Rightarrow> rat" where
  "float_value (Finite s m e) = with_sign s (of_nat m * 2 powi e)"
| "float_value (Infinity s) = 0"
| "float_value NaN = 0"

fun isfinite :: "py_float \<Rightarrow> bool" where
  "isfinite (Finite s m e) = True"
| "isfinite (Infinity s) = False"
| "isfinite NaN = False"

text \<open>The binary64 values: normal numbers have a significand of exactly 53 bits.\<close>

fun wf_float :: "py_float \<Rightarrow> bool" where
  "wf_float (Finite s m e) \<longleftrightarrow>
     m < 2 ^ 53 \<and> - 1074 \<le> e \<and> e \<le> 971 \<and> (2 ^ 52 \<le> m \<or> e = - 1074)"
| "wf_float (Infinity s) = True"
| "wf_float NaN = True"

fun number_value :: "py_number \<Rightarrow> rat" where
  "number_value (NInt n) = of_int n"
| "number_value (NFraction q) = q"
| "number_value (NDecimal d) = decimal_value d"
| "number_value (NFloat f) = float_value f"

subsection \<open>Rounding to binary64\<close>

text \<open>\<open>ilog2 q\<close> is the integer \<open>k\<close> with \<open>2 powi k \<le> q < 2 powi (k + 1)\<close>, for positive \<open>q\<close>.\<close>

definition ilog2 :: "rat \<Rightarrow> int" where
  "ilog2 q =
     (let (n, d) = quotient_of q;
          k = int (floorlog 2 (nat n)) - int (floorlog 2 (nat d))
      in if 2 powi k \<le> q then k else k - 1)"

definition round_half_even :: "rat \<Rightarrow> int" where
  "round_half_even q =
     (let f = \<lfloor>q\<rfloor>; r = q - of_int f
      in if r < 1 / 2 \<or> (r = 1 / 2 \<and> even f) then f else f + 1)"

text \<open>\<open>round64 s a\<close> is the binary64 value nearest to the magnitude \<open>a\<close>, with sign \<open>s\<close>.\<close>

definition round64 :: "bool \<Rightarrow> rat \<Rightarrow> py_float" where
  "round64 s a =
     (if a = 0 then Finite s 0 (- 1074)
      else let e = max (- 1074) (ilog2 a - 52);
               m = round_half_even (a / 2 powi e);
               (m', e') = (if m = 2 ^ 53 then (2 ^ 52, e + 1) else (m, e))
           in if 971 < e' then Infinity s else Finite s (nat m') e')"

definition float_of_rat :: "rat \<Rightarrow> py_float" where
  "float_of_rat q = round64 (q < 0) \<bar>q\<bar>"

text \<open>\<^verbatim>\<open>float(decimal)\<close> keeps the sign of a zero.\<close>

fun float_of_decimal :: "py_decimal \<Rightarrow> py_float" where
  "float_of_decimal (Decimal s c e) = round64 s (of_nat c * 10 powi e)"
| "float_of_decimal Decimal_special = NaN"

fun float_mul :: "py_float \<Rightarrow> py_float \<Rightarrow> py_float" where
  "float_mul (Finite s m e) (Finite s' m' e') =
     round64 (s \<noteq> s') ((of_nat m * 2 powi e) * (of_nat m' * 2 powi e'))"
| "float_mul _ _ = NaN"

fun float_div :: "py_float \<Rightarrow> py_float \<Rightarrow> py_float" where
  "float_div (Finite s m e) (Finite s' m' e') =
     (if m' = 0 then (if m = 0 then NaN else Infinity (s \<noteq> s'))
      else round64 (s \<noteq> s') ((of_nat m * 2 powi e) / (of_nat m' * 2 powi e')))"
| "float_div _ _ = NaN"

subsection \<open>Exact Decimal algebra\<close>

definition decimal_parts :: "py_number \<Rightarrow> (int \<times> int) result" where
  "decimal_parts v =
     (case v of
        NInt n \<Rightarrow> Inr (n, 0)
      | NDecimal (Decimal s c e) \<Rightarrow> Inr (if s then - int c else int c, e)
      | _ \<Rightarrow> Inl (TypeError ''exact Decimal algebra accepts only finite Decimal and int operands''))"

definition decimal_from_parts :: "int \<Rightarrow> int \<Rightarrow> py_decimal" where
  "decimal_from_parts coefficient exponent =
     Decimal (coefficient < 0) (nat \<bar>coefficient\<bar>) exponent"

definition exact_decimal_add :: "py_number \<Rightarrow> py_number \<Rightarrow> py_decimal result" where
  "exact_decimal_add l r =
     bindE (decimal_parts l) (\<lambda>(left_coeff, left_exp).
     bindE (decimal_parts r) (\<lambda>(right_coeff, right_exp).
       let exponent = min left_exp right_exp;
           coefficient = left_coeff * 10 ^ nat (left_exp - exponent)
                         + right_coeff * 10 ^ nat (right_exp - exponent)
       in Inr (decimal_from_parts coefficient exponent)))"

definition exact_decimal_negate :: "py_number \<Rightarrow> py_decimal result" where
  "exact_decimal_negate v =
     (case v of
        NDecimal (Decimal s c e) \<Rightarrow> Inr (Decimal (\<not> s) c e)
      | _ \<Rightarrow> Inl (TypeError ''exact Decimal negation requires a finite Decimal''))"

definition exact_decimal_multiply :: "py_number \<Rightarrow> py_number \<Rightarrow> py_decimal result" where
  "exact_decimal_multiply l r =
     bindE (decimal_parts l) (\<lambda>(left_coeff, left_exp).
     bindE (decimal_parts r) (\<lambda>(right_coeff, right_exp).
       Inr (decimal_from_parts (left_coeff * right_coeff) (left_exp + right_exp))))"

text \<open>
  The two loops of the division, \<^verbatim>\<open>while denominator % p == 0\<close>; the denominator of a \<^verbatim>\<open>Fraction\<close> is
  positive, so the guard \<open>0 < n\<close> is always true there.
\<close>

function strip :: "nat \<Rightarrow> nat \<Rightarrow> nat \<Rightarrow> nat \<times> nat" where
  "strip p n k = (if 0 < n \<and> 1 < p \<and> n mod p = 0 then strip p (n div p) (Suc k) else (n, k))"
  by auto

termination by (relation "measure (\<lambda>(p, n, k). n)") auto

text \<open>
  \<^verbatim>\<open>as_integer_ratio\<close> of an operand; an infinite or not-a-number \<^verbatim>\<open>Decimal\<close> raises
  \<^verbatim>\<open>OverflowError\<close> or \<^verbatim>\<open>ValueError\<close>, and the annotation excludes the other number types.
\<close>

definition integer_ratio :: "py_number \<Rightarrow> (int \<times> int) result" where
  "integer_ratio v =
     (case v of
        NInt n \<Rightarrow> Inr (n, 1)
      | NDecimal (Decimal s c e) \<Rightarrow> Inr (quotient_of (decimal_value (Decimal s c e)))
      | NDecimal Decimal_special \<Rightarrow> Inl (ValueError ''cannot convert to integer ratio'')
      | _ \<Rightarrow> Inl (TypeError ''both arguments should be Rational instances''))"

definition exact_decimal_divide :: "py_number \<Rightarrow> py_number \<Rightarrow> py_decimal option result" where
  "exact_decimal_divide l r =
     bindE (integer_ratio l) (\<lambda>left_ratio.
     bindE (integer_ratio r) (\<lambda>right_ratio.
     bindE (raise_if (fst right_ratio = 0) (ZeroDivisionError ''division by zero'')) (\<lambda>_.
       let quotient = Fract (fst left_ratio * snd right_ratio) (snd left_ratio * fst right_ratio);
           (numerator, denominator) = quotient_of quotient;
           (d2, powers_two) = strip 2 (nat denominator) 0;
           (d5, powers_five) = strip 5 d2 0
       in if d5 \<noteq> 1 then Inr None
          else let scale = max powers_two powers_five;
                   coefficient = numerator * 5 ^ (scale - powers_two) * 2 ^ (scale - powers_five)
               in Inr (Some (decimal_from_parts coefficient (- int scale))))))"

definition numeric_domains_compatible :: "py_number \<Rightarrow> py_number \<Rightarrow> bool" where
  "numeric_domains_compatible l r =
     (case (l, r) of
        (NInt _, NInt _) \<Rightarrow> True
      | (NFraction _, NFraction _) \<Rightarrow> True
      | (NDecimal _, NDecimal _) \<Rightarrow> True
      | (NFloat _, NFloat _) \<Rightarrow> True
      | (NInt n, NFloat _) \<Rightarrow> \<bar>n\<bar> \<le> 2 ^ 53
      | (NFloat _, NInt n) \<Rightarrow> \<bar>n\<bar> \<le> 2 ^ 53
      | (NInt _, _) \<Rightarrow> True
      | (_, NInt _) \<Rightarrow> True
      | _ \<Rightarrow> False)"

definition cpp_int_max :: int where "cpp_int_max = 2 ^ 31 - 1"

text \<open>\<open>exact_cpp_int\<close>; a Python object is a \<open>scalar_value\<close> below, here only its integer view: \<open>None\<close>
  is any object that is not an exact \<^verbatim>\<open>int\<close> (a \<^verbatim>\<open>bool\<close> included).\<close>

definition exact_cpp_int :: "int option \<Rightarrow> int option \<Rightarrow> int option \<Rightarrow> int result" where
  "exact_cpp_int v minimum maximum =
     (case minimum of
        None \<Rightarrow> Inl (TypeError ''exact_cpp_int minimum must be a Python int'')
      | Some lo \<Rightarrow>
        (case maximum of
           None \<Rightarrow> Inl (TypeError ''exact_cpp_int maximum must be a Python int >= minimum'')
         | Some hi \<Rightarrow>
           if hi < lo then Inl (TypeError ''exact_cpp_int maximum must be a Python int >= minimum'')
           else (case v of
                   None \<Rightarrow> Inl (ValueError ''must be an exact Python int'')
                 | Some n \<Rightarrow> if n < lo \<or> hi < n
                             then Inl (ValueError ''must be an exact Python int'') else Inr n)))"

subsection \<open>C++ spellings\<close>

text \<open>
  The C++ text of a scalar, one constructor per form the source prints: a cast of an integer token
  \<^verbatim>\<open>T(%d)\<close>, of a \<^verbatim>\<open>repr\<close> of a float, of the text of a \<^verbatim>\<open>Decimal\<close>, of the token \<^verbatim>\<open>-0.0\<close>, a bare \<^verbatim>\<open>repr\<close>,
  the parenthesised operators and a user-supplied spelling.
\<close>

datatype cpp_expr =
    Cast_int string int
  | Cast_real string py_float
  | Cast_decimal string py_decimal
  | Cast_neg_zero string
  | Real_token py_float
  | Cpp_add cpp_expr cpp_expr
  | Cpp_mul cpp_expr cpp_expr
  | Cpp_div cpp_expr cpp_expr
  | Cpp_neg cpp_expr
  | Cpp_raw string

definition pops_real :: string where "pops_real = ''pops::Real''"

definition cpp_signed_integer_max :: int where "cpp_signed_integer_max = 2 ^ 63 - 1"

definition binary64_exact_integer_max :: int where "binary64_exact_integer_max = 2 ^ 53"

text \<open>\<^verbatim>\<open>str\<close> of an integer and of a finite \<^verbatim>\<open>Decimal\<close> (to-scientific-string), and the printed text.\<close>

definition show_nat :: "nat \<Rightarrow> string" where "show_nat n = map char_of (decimal n)"

definition show_int :: "int \<Rightarrow> string" where
  "show_int i = (if i < 0 then ''-'' else '''') @ show_nat (nat \<bar>i\<bar>)"

fun show_decimal :: "py_decimal \<Rightarrow> string" where
  "show_decimal (Decimal s c e) =
     (let digits = show_nat c;
          n = int (length digits);
          leftdigits = e + n;
          dotplace = (if e \<le> 0 \<and> - 6 < leftdigits then leftdigits else 1);
          body = (if dotplace \<le> 0 then ''0.'' @ replicate (nat (- dotplace)) CHR ''0'' @ digits
                  else if n \<le> dotplace then digits @ replicate (nat (dotplace - n)) CHR ''0''
                  else take (nat dotplace) digits @ ''.'' @ drop (nat dotplace) digits);
          expo = (if leftdigits = dotplace then ''''
                  else ''E'' @ (if 0 \<le> leftdigits - dotplace then ''+'' else '''')
                       @ show_int (leftdigits - dotplace))
      in (if s then ''-'' else '''') @ body @ expo)"
| "show_decimal Decimal_special = ''NaN''"

text \<open>\<open>repr\<close> prints a float; it is the language's shortest round-tripping spelling.\<close>

fun render :: "(py_float \<Rightarrow> string) \<Rightarrow> cpp_expr \<Rightarrow> string" where
  "render repr (Cast_int t n) = t @ ''('' @ show_int n @ '')''"
| "render repr (Cast_real t f) = t @ ''('' @ repr f @ '')''"
| "render repr (Cast_decimal t d) = t @ ''('' @ show_decimal d @ '')''"
| "render repr (Cast_neg_zero t) = t @ ''(-0.0)''"
| "render repr (Real_token f) = repr f"
| "render repr (Cpp_add a b) = ''('' @ render repr a @ '' + '' @ render repr b @ '')''"
| "render repr (Cpp_mul a b) = ''('' @ render repr a @ '' * '' @ render repr b @ '')''"
| "render repr (Cpp_div a b) = ''('' @ render repr a @ '' / '' @ render repr b @ '')''"
| "render repr (Cpp_neg a) = ''(-'' @ render repr a @ '')''"
| "render repr (Cpp_raw s) = s"

text \<open>\<^verbatim>\<open>float(value)\<close>: an \<^verbatim>\<open>int\<close> or \<^verbatim>\<open>Fraction\<close> beyond the range raises, a \<^verbatim>\<open>Decimal\<close> becomes infinite.\<close>

definition to_float :: "py_number \<Rightarrow> py_float result" where
  "to_float v =
     (case v of
        NInt n \<Rightarrow> (let f = float_of_rat (of_int n)
                   in if isfinite f then Inr f else Inl (OverflowError ''int too large''))
      | NFraction q \<Rightarrow> (let f = float_of_rat q
                        in if isfinite f then Inr f else Inl (OverflowError ''result too large''))
      | NDecimal d \<Rightarrow> Inr (float_of_decimal d)
      | NFloat f \<Rightarrow> Inr f)"

definition finite_real_token :: "py_number \<Rightarrow> py_float result" where
  "finite_real_token v =
     (case to_float v of
        Inl _ \<Rightarrow> Inl (OverflowError ''cannot be represented by the finite pops::Real target'')
      | Inr f \<Rightarrow> if isfinite f then Inr f
                 else Inl (OverflowError ''cannot be represented by the finite pops::Real target''))"

text \<open>The slices \<^verbatim>\<open>digits[index : index + 9]\<close>.\<close>

fun slices9 :: "nat list \<Rightarrow> nat list list" where
  "slices9 [] = []"
| "slices9 (d # ds) = take 9 (d # ds) # slices9 (drop 8 ds)"

definition first_chunk :: "nat list \<Rightarrow> nat" where
  "first_chunk digits = (if length digits mod 9 = 0 then 9 else length digits mod 9)"

definition integer_chunks :: "nat \<Rightarrow> nat list" where
  "integer_chunks n =
     (let digits = decimal n; first = first_chunk digits
      in map parse_decimal (take first digits # slices9 (drop first digits)))"

definition integer_chunks_cpp :: "int \<Rightarrow> string \<Rightarrow> cpp_expr" where
  "integer_chunks_cpp v cpp_type =
     (let chunks = integer_chunks (nat \<bar>v\<bar>);
          expression = foldl (\<lambda>e chunk.
             Cpp_add (Cpp_mul e (Cast_int cpp_type 1000000000)) (Cast_int cpp_type (int chunk)))
             (Cast_int cpp_type (int (hd chunks))) (tl chunks)
      in if v < 0 then Cpp_neg expression else expression)"

definition integer_cpp :: "int \<Rightarrow> string \<Rightarrow> bool \<Rightarrow> cpp_expr result" where
  "integer_cpp v cpp_type bounded_real =
     (if \<bar>v\<bar> \<le> cpp_signed_integer_max then Inr (Cast_int cpp_type v)
      else if bounded_real
           then bindE (finite_real_token (NInt v)) (\<lambda>f. Inr (Cast_real cpp_type f))
           else Inr (integer_chunks_cpp v cpp_type))"

definition rational_cpp :: "int \<Rightarrow> int \<Rightarrow> string \<Rightarrow> bool \<Rightarrow> cpp_expr result" where
  "rational_cpp numerator denominator cpp_type bounded_real =
     (if bounded_real then
        if \<bar>numerator\<bar> \<le> binary64_exact_integer_max
           \<and> \<bar>denominator\<bar> \<le> binary64_exact_integer_max
        then Inr (Cpp_div (Cast_int cpp_type numerator) (Cast_int cpp_type denominator))
        else bindE (finite_real_token (NFraction (Fract numerator denominator)))
               (\<lambda>f. Inr (Cast_real cpp_type f))
      else if \<bar>numerator\<bar> \<le> cpp_signed_integer_max \<and> \<bar>denominator\<bar> \<le> cpp_signed_integer_max
      then Inr (Cpp_div (Cast_int cpp_type numerator) (Cast_int cpp_type denominator))
      else Inr (Cpp_div (integer_chunks_cpp numerator cpp_type)
                 (integer_chunks_cpp denominator cpp_type)))"

subsection \<open>Scalar literals\<close>

text \<open>
  A literal, with the payload in its parsed form: the payload text of the kinds \<^verbatim>\<open>decimal\<close> and
  \<^verbatim>\<open>binary64\<close> is the canonical spelling of the number it stands for.  \<open>Algebraic_lit\<close> has its
  symbolic spelling, \<open>Custom_lit\<close> its kind.
\<close>

datatype literal_payload =
    Integer_lit int | Rational_lit int int | Decimal_lit py_decimal | Binary64_lit py_float
  | Algebraic_lit string | Custom_lit string

record scalar_literal =
  lit_payload :: literal_payload
  lit_unit :: "string option"
  lit_target :: "string option"
  lit_cpp :: "string option"

definition ident_start :: "char \<Rightarrow> bool" where
  "ident_start c \<longleftrightarrow> c \<in> set ''ABCDEFGHIJKLMNOPQRSTUVWXYZabcdefghijklmnopqrstuvwxyz_''"

definition ident_char :: "char \<Rightarrow> bool" where
  "ident_char c \<longleftrightarrow> ident_start c \<or> c \<in> set ''0123456789''"

text \<open>\<open>_CPP_TYPE_RE.fullmatch\<close>: identifiers separated by \<^verbatim>\<open>::\<close>.\<close>

fun cpp_type_tail :: "string \<Rightarrow> bool" where
  "cpp_type_tail [] = True"
| "cpp_type_tail (c # cs) =
     (if ident_char c then cpp_type_tail cs
      else case cs of d # x # rest \<Rightarrow> c = CHR '':'' \<and> d = CHR '':'' \<and> ident_start x \<and> cpp_type_tail rest
           | _ \<Rightarrow> False)"

definition cpp_type_re :: "string \<Rightarrow> bool" where
  "cpp_type_re s = (case s of [] \<Rightarrow> False | c # cs \<Rightarrow> ident_start c \<and> cpp_type_tail cs)"

definition check_annotations :: "string option \<Rightarrow> string option \<Rightarrow> string option \<Rightarrow> unit result" where
  "check_annotations unit target cpp =
     bindE (raise_if (Some '''' \<in> {unit, target, cpp})
              (ValueError ''ScalarLiteral annotation must be a non-empty string or None'')) (\<lambda>_.
       raise_if (case target of None \<Rightarrow> False | Some t \<Rightarrow> \<not> cpp_type_re t)
         (ValueError ''ScalarLiteral target must be a qualified C++ scalar type name''))"

definition mk_literal ::
  "literal_payload \<Rightarrow> string option \<Rightarrow> string option \<Rightarrow> string option \<Rightarrow> scalar_literal result" where
  "mk_literal payload unit target cpp =
     bindE (raise_if (payload = Custom_lit '''')
              (ValueError ''ScalarLiteral kind must be a non-empty string'')) (\<lambda>_.
     bindE (check_annotations unit target cpp) (\<lambda>_.
     bindE (case payload of
              Rational_lit n d \<Rightarrow>
                if d = 0 then Inl (TypeError ''rational ScalarLiteral payload'')
                else (let (n', d') = quotient_of (Fract n d) in Inr (Rational_lit n' d'))
            | Decimal_lit x \<Rightarrow>
                if is_finite_decimal x then Inr payload
                else Inl (ValueError ''decimal ScalarLiteral payload must be finite'')
            | Binary64_lit f \<Rightarrow>
                if isfinite f then Inr payload
                else Inl (ValueError ''binary64 ScalarLiteral payload must be finite'')
            | Algebraic_lit expression \<Rightarrow>
                if expression = '''' \<or> cpp = None
                then Inl (ValueError ''algebraic ScalarLiteral requires payload and C++ spelling'')
                else Inr payload
            | _ \<Rightarrow> Inr payload) (\<lambda>payload'.
       Inr \<lparr>lit_payload = payload', lit_unit = unit, lit_target = target, lit_cpp = cpp\<rparr>)))"

definition target_name :: "string option \<Rightarrow> string option result" where
  "target_name target =
     (if target = Some '''' then Inl (TypeError ''scalar target must be a non-empty string'')
      else Inr target)"

text \<open>
  What \<open>from_value\<close> accepts: a literal, a Boolean, a number, a typed constant descriptor (its
  \<^verbatim>\<open>value\<close>, and its \<^verbatim>\<open>unit\<close> and \<^verbatim>\<open>dtype\<close> attributes, \<open>None\<close> when it has no such attribute), and any
  other object.  Objects with a \<^verbatim>\<open>__pops_scalar_literal__\<close> hook are outside the model.
\<close>

datatype scalar_value =
    VLiteral scalar_literal
  | VBool bool
  | VNumber py_number
  | VConstant scalar_value "string option option" "string option option"
  | VOther

definition number_payload :: "py_number \<Rightarrow> literal_payload result" where
  "number_payload v =
     (case v of
        NInt n \<Rightarrow> Inr (Integer_lit n)
      | NFraction q \<Rightarrow> (let (n, d) = quotient_of q in Inr (Rational_lit n d))
      | NDecimal x \<Rightarrow> if is_finite_decimal x then Inr (Decimal_lit x)
                       else Inl (ValueError ''Decimal scalar literal must be finite'')
      | NFloat f \<Rightarrow> if isfinite f then Inr (Binary64_lit f)
                     else Inl (ValueError ''floating scalar literal must be finite''))"

fun from_value :: "scalar_value \<Rightarrow> string option \<Rightarrow> string option \<Rightarrow> scalar_literal result" where
  "from_value (VLiteral l) unit target =
     (if unit = None \<and> target = None then Inr l
      else bindE (if target = None then Inr (lit_target l) else target_name target) (\<lambda>t.
           mk_literal (lit_payload l) (if unit = None then lit_unit l else unit) t (lit_cpp l)))"
| "from_value (VBool b) unit target = Inl (TypeError ''bool is not a real scalar literal'')"
| "from_value (VNumber v) unit target =
     bindE (number_payload v) (\<lambda>p.
     bindE (target_name target) (\<lambda>t. mk_literal p unit t None))"
| "from_value (VConstant v u d) unit target =
     from_value v (case u of None \<Rightarrow> unit | Some x \<Rightarrow> x) (case d of None \<Rightarrow> target | Some x \<Rightarrow> x)"
| "from_value VOther unit target = Inl (TypeError ''unsupported symbolic scalar literal'')"

definition to_python :: "scalar_literal \<Rightarrow> py_number result" where
  "to_python l =
     (case lit_payload l of
        Integer_lit n \<Rightarrow> Inr (NInt n)
      | Rational_lit n d \<Rightarrow> Inr (NFraction (Fract n d))
      | Decimal_lit x \<Rightarrow> Inr (NDecimal x)
      | Binary64_lit f \<Rightarrow> Inr (NFloat f)
      | _ \<Rightarrow> Inl (TypeError ''literal needs target lowering before numerical evaluation''))"

fun decimal_cpp :: "py_decimal \<Rightarrow> string \<Rightarrow> bool \<Rightarrow> cpp_expr result" where
  "decimal_cpp (Decimal s c e) cpp_type bounded_real =
     (if bounded_real then
        bindE (finite_real_token (NDecimal (Decimal s c e))) (\<lambda>_.
          Inr (if c = 0 \<and> s then Cast_neg_zero cpp_type else Cast_decimal cpp_type (Decimal s c e)))
      else if c = 0 \<and> s then Inr (Cast_neg_zero cpp_type)
      else (let (numerator, denominator) = quotient_of (decimal_value (Decimal s c e))
            in rational_cpp numerator denominator cpp_type False))"
| "decimal_cpp Decimal_special cpp_type bounded_real = Inl (ValueError ''cannot convert NaN'')"

definition to_cpp :: "scalar_literal \<Rightarrow> cpp_expr result" where
  "to_cpp l =
     bindE (raise_if (lit_unit l \<noteq> None) (TypeError ''ScalarLiteral.to_cpp cannot lower unit'')) (\<lambda>_.
       let cpp_type = (case lit_target l of None \<Rightarrow> pops_real | Some t \<Rightarrow> t);
           bounded_real = (cpp_type = pops_real)
       in case lit_payload l of
            Integer_lit n \<Rightarrow> integer_cpp n cpp_type bounded_real
          | Rational_lit n d \<Rightarrow> rational_cpp n d cpp_type bounded_real
          | Decimal_lit x \<Rightarrow> decimal_cpp x cpp_type bounded_real
          | Binary64_lit f \<Rightarrow>
              Inr (case lit_target l of None \<Rightarrow> Real_token f | Some t \<Rightarrow> Cast_real cpp_type f)
          | _ \<Rightarrow> (case lit_cpp l of Some s \<Rightarrow> Inr (Cpp_raw s)
                  | None \<Rightarrow> Inl (TypeError ''literal kind has no C++ lowering'')))"

definition exact_numeric_scalar :: "scalar_value \<Rightarrow> py_number result" where
  "exact_numeric_scalar v =
     bindE (from_value v None None) (\<lambda>l.
     bindE (raise_if (lit_unit l \<noteq> None \<or> lit_target l \<noteq> None)
              (TypeError ''cannot erase a scalar unit or target annotation'')) (\<lambda>_.
       case to_python l of
         Inl _ \<Rightarrow> Inl (TypeError ''requires a statically evaluable numeric scale'')
       | Inr n \<Rightarrow> Inr n))"

text \<open>Python's \<open>a * b\<close> on the pairs of domains that remain after the \<^verbatim>\<open>Decimal\<close> case.\<close>

fun py_multiply :: "py_number \<Rightarrow> py_number \<Rightarrow> py_number result" where
  "py_multiply (NInt a) (NInt b) = Inr (NInt (a * b))"
| "py_multiply (NInt a) (NFraction q) = Inr (NFraction (of_int a * q))"
| "py_multiply (NFraction q) (NInt b) = Inr (NFraction (q * of_int b))"
| "py_multiply (NFraction p) (NFraction q) = Inr (NFraction (p * q))"
| "py_multiply (NFloat f) (NFloat g) = Inr (NFloat (float_mul f g))"
| "py_multiply (NInt a) (NFloat g) =
     bindE (to_float (NInt a)) (\<lambda>f. Inr (NFloat (float_mul f g)))"
| "py_multiply (NFloat f) (NInt b) =
     bindE (to_float (NInt b)) (\<lambda>g. Inr (NFloat (float_mul f g)))"
| "py_multiply _ _ = Inl (TypeError ''unsupported operand types'')"

fun is_decimal :: "py_number \<Rightarrow> bool" where
  "is_decimal (NDecimal d) = True"
| "is_decimal _ = False"

definition multiply_exact_scalars :: "scalar_value \<Rightarrow> scalar_value \<Rightarrow> py_number result" where
  "multiply_exact_scalars l r =
     bindE (exact_numeric_scalar l) (\<lambda>a.
     bindE (exact_numeric_scalar r) (\<lambda>b.
     bindE (raise_if (\<not> numeric_domains_compatible a b)
              (TypeError ''cannot mix number domains without an explicit target conversion'')) (\<lambda>_.
       if is_decimal a \<or> is_decimal b
       then bindE (exact_decimal_multiply a b) (\<lambda>d. Inr (NDecimal d))
       else py_multiply a b)))"

definition scalar_cpp :: "scalar_value \<Rightarrow> cpp_expr result" where
  "scalar_cpp v = bindE (from_value v None None) to_cpp"

definition scalar_to_native :: "scalar_value \<Rightarrow> py_float result" where
  "scalar_to_native v =
     bindE (from_value v None None) (\<lambda>l.
     bindE (raise_if (lit_unit l \<noteq> None) (TypeError ''cannot lower unit at the native boundary'')) (\<lambda>_.
     bindE (raise_if (lit_target l \<notin> {None, Some pops_real}) (TypeError ''not the native pops::Real ABI'')) (\<lambda>_.
       case bindE (to_python l) to_float of
         Inl _ \<Rightarrow> Inl (TypeError ''requires a finite numeric scalar representable by pops::Real'')
       | Inr f \<Rightarrow> if isfinite f then Inr f
                  else Inl (OverflowError ''cannot be represented by finite native pops::Real''))))"

subsection \<open>Facts on the rational values\<close>

lemma with_sign_simps [simp]:
  "with_sign False q = q" "with_sign True q = - q" "\<bar>with_sign s q\<bar> = \<bar>q\<bar>"
  by (auto simp: with_sign_def)

lemma with_sign_mult: "with_sign s p * with_sign t q = with_sign (s \<noteq> t) (p * q)"
  by (auto simp: with_sign_def)

lemma with_sign_div: "with_sign s p / with_sign t q = with_sign (s \<noteq> t) (p / q)"
  by (auto simp: with_sign_def)

lemma decimal_from_parts_value [simp]:
  "decimal_value (decimal_from_parts c e) = of_int c * 10 powi e"
  by (simp add: decimal_from_parts_def with_sign_def)

lemma decimal_parts_ok:
  "decimal_parts v = Inr (c, e) \<Longrightarrow> number_value v = of_int c * 10 powi e"
  by (auto simp: decimal_parts_def with_sign_def split: py_number.splits py_decimal.splits if_splits)

lemma decimal_parts_accepts:
  "is_ok (decimal_parts v) \<longleftrightarrow>
     (case v of NInt _ \<Rightarrow> True | NDecimal d \<Rightarrow> is_finite_decimal d | _ \<Rightarrow> False)"
  by (auto simp: decimal_parts_def split: py_number.splits py_decimal.splits)

lemma shift_exponent: "m \<le> e \<Longrightarrow> (10::rat) ^ nat (e - m) * 10 powi m = 10 powi e"
  by (simp add: power_int_add [symmetric] flip: power_int_of_nat)

lemma exact_decimal_add_value:
  assumes "exact_decimal_add l r = Inr d"
  shows "decimal_value d = number_value l + number_value r"
proof -
  obtain lc le rc re where p: "decimal_parts l = Inr (lc, le)" "decimal_parts r = Inr (rc, re)"
    and d: "d = decimal_from_parts (lc * 10 ^ nat (le - min le re) + rc * 10 ^ nat (re - min le re))
                  (min le re)"
    using assms by (auto simp: exact_decimal_add_def Let_def split: prod.splits)
  show ?thesis
    using decimal_parts_ok [OF p(1)] decimal_parts_ok [OF p(2)]
      shift_exponent [of "min le re" le] shift_exponent [of "min le re" re]
    by (simp add: d distrib_right mult.assoc)
qed

lemma exact_decimal_multiply_value:
  assumes "exact_decimal_multiply l r = Inr d"
  shows "decimal_value d = number_value l * number_value r"
proof -
  obtain lc le rc re where p: "decimal_parts l = Inr (lc, le)" "decimal_parts r = Inr (rc, re)"
    and d: "d = decimal_from_parts (lc * rc) (le + re)"
    using assms by (auto simp: exact_decimal_multiply_def split: prod.splits)
  show ?thesis
    using decimal_parts_ok [OF p(1)] decimal_parts_ok [OF p(2)]
    by (simp add: d power_int_add)
qed

declare strip.simps [simp del]

lemma strip_spec:
  assumes "strip p n k = (m, j)" and "0 < n" and "1 < p"
  shows "k \<le> j \<and> n = m * p ^ (j - k) \<and> 0 < m \<and> \<not> p dvd m"
  using assms
proof (induction p n k arbitrary: m j rule: strip.induct)
  case (1 p n k)
  show ?case
  proof (cases "n mod p = 0")
    case True
    then have "p \<le> n" using 1(3) by (metis mod_less not_le neq0_conv)
    then have pos: "0 < n div p" using 1(4) by (simp add: div_greater_zero_iff)
    have step: "strip p (n div p) (Suc k) = (m, j)"
      using 1(2) True 1(3,4) by (subst (asm) strip.simps) simp
    have ih: "Suc k \<le> j \<and> n div p = m * p ^ (j - Suc k) \<and> 0 < m \<and> \<not> p dvd m"
      using 1(1) [OF _ step pos 1(4)] True 1(3,4) by simp
    moreover have "n = n div p * p" using True by (simp add: dvd_eq_mod_eq_0 [symmetric])
    moreover have "p ^ (j - k) = p ^ (j - Suc k) * p"
      using ih by (simp add: Suc_diff_Suc Suc_le_eq flip: power_Suc2)
    ultimately show ?thesis by (metis Suc_leD mult.assoc)
  next
    case False
    then show ?thesis using 1(2,3) by (subst (asm) strip.simps) (auto simp: dvd_eq_mod_eq_0)
  qed
qed

lemma quotient_of_value: "quotient_of q = (n, d) \<Longrightarrow> q = of_int n / of_int d \<and> 0 < d \<and> coprime n d"
  by (metis quotient_of_coprime quotient_of_denom_pos quotient_of_div)

lemma quotient_of_of_int: "quotient_of (of_int n) = (n, 1)"
  by (metis Rat.of_int_def quotient_of_int)

text \<open>A rational whose denominator has a factor prime to ten is no decimal.\<close>

lemma ten_powi_denominator:
  assumes q: "quotient_of q = (n, d)" and v: "q = of_int c * 10 powi e"
  shows "\<exists>k. d dvd 10 ^ k"
proof (cases "0 \<le> e")
  case True
  then have "q = of_int (c * 10 ^ nat e)" using v by (simp add: power_int_def)
  then have "d = 1" using q by (metis quotient_of_of_int snd_conv)
  then show ?thesis by simp
next
  case False
  define k where "k = nat (- e)"
  have "q * 10 ^ k = of_int c"
    using v False by (simp add: k_def power_int_def flip: power_mult_distrib)
  then have "of_int (n * 10 ^ k) = (of_int (c * d) :: rat)"
    using quotient_of_value [OF q] by (simp add: field_simps)
  then have "n * 10 ^ k = c * d" by (simp only: of_int_eq_iff)
  then have "d dvd n * 10 ^ k" by simp
  then have "d dvd 10 ^ k"
    using quotient_of_value [OF q] by (simp add: coprime_dvd_mult_right_iff coprime_commute)
  then show ?thesis ..
qed

lemma dvd_five: "g \<le> 5 \<Longrightarrow> g dvd (5::nat) \<Longrightarrow> g = 1 \<or> g = 5"
proof -
  assume "g \<le> 5" "g dvd 5"
  then have "g \<in> {..5}" by simp
  also have "{..5} = {0, 1, 2, 3, 4, 5::nat}" by auto
  finally show ?thesis using \<open>g dvd 5\<close> by auto
qed

lemma prime_to_ten:
  assumes "(m::nat) dvd 10 ^ k" "\<not> 2 dvd m" "\<not> 5 dvd m"
  shows "m = 1"
proof -
  have "gcd m 5 dvd 5" by simp
  then have "gcd m 5 \<le> 5" by (rule dvd_imp_le) simp
  then have "gcd m 5 = 1 \<or> gcd m 5 = 5" using \<open>gcd m 5 dvd 5\<close> dvd_five by blast
  then have "coprime m 5" using assms(3) by (metis coprime_iff_gcd_eq_1 gcd_dvd1)
  moreover have "coprime m 2" using assms(2) by simp
  ultimately have "coprime m (2 * 5)" by (simp only: coprime_mult_right_iff)
  then have "coprime m (10 ^ k)" by simp
  then show ?thesis using assms(1) by (metis coprime_absorb_left nat_dvd_1_iff_1 is_unit_gcd)
qed

lemma integer_ratio_value:
  "integer_ratio v = Inr (n, d) \<Longrightarrow> number_value v = of_int n / of_int d \<and> 0 < d"
  using quotient_of_value
  by (auto simp: integer_ratio_def split: py_number.splits py_decimal.splits)

lemma stripped_value:
  fixes n :: int
  assumes "scale = max a b"
  shows "of_int (n * 5 ^ (scale - a) * 2 ^ (scale - b)) * (10::rat) powi (- int scale)
         = of_int n / (2 ^ b * 5 ^ a)"
proof -
  have "(10::rat) ^ scale = (2 * 5) ^ scale" by simp
  also have "\<dots> = 2 ^ scale * 5 ^ scale" by (rule power_mult_distrib)
  also have "2 ^ scale = (2::rat) ^ (scale - b) * 2 ^ b" using assms by (simp flip: power_add)
  also have "5 ^ scale = (5::rat) ^ (scale - a) * 5 ^ a" using assms by (simp flip: power_add)
  finally have "(10::rat) ^ scale = (2 ^ (scale - b) * 2 ^ b) * (5 ^ (scale - a) * 5 ^ a)" .
  then show ?thesis by (simp add: power_int_minus field_simps)
qed

lemma coprime_two_five: "coprime (2 ^ a) (5 ^ b :: nat)"
  by (simp add: coprime_power_left_iff coprime_power_right_iff)

lemma two_five_unique:
  assumes "(2::nat) ^ a * 5 ^ b = 2 ^ c * 5 ^ d"
  shows "a = c \<and> b = d"
proof -
  have "2 ^ a dvd (2::nat) ^ c" "2 ^ c dvd (2::nat) ^ a"
    using assms coprime_two_five by (metis coprime_dvd_mult_left_iff dvd_triv_left)+
  then have "a = c" by (simp add: dvd_antisym le_antisym power_dvd_imp_le)
  then show ?thesis using assms by simp
qed

lemma strip_two_five:
  assumes "strip 2 (2 ^ a * 5 ^ b) 0 = (d2, i)" and "strip 5 d2 0 = (d5, j)"
  shows "d5 = 1 \<and> i = a \<and> j = b"
proof -
  have s2: "2 ^ a * 5 ^ b = d2 * 2 ^ i \<and> 0 < d2 \<and> \<not> 2 dvd d2"
    using strip_spec [OF assms(1)] by simp
  then have s5: "d2 = d5 * 5 ^ j \<and> 0 < d5 \<and> \<not> 5 dvd d5"
    using strip_spec [OF assms(2)] by simp
  have "d5 dvd 2 ^ a * 5 ^ b" using s2 s5 by (metis dvd_triv_left mult.assoc)
  also have "2 ^ a * 5 ^ b dvd (2 ^ (a + b) * 5 ^ (a + b) :: nat)"
    by (intro mult_dvd_mono le_imp_power_dvd) simp_all
  also have "(2 ^ (a + b) * 5 ^ (a + b) :: nat) = 10 ^ (a + b)"
    by (simp flip: power_mult_distrib)
  finally have "d5 = 1" using s2 s5 by (intro prime_to_ten) auto
  then have "(2::nat) ^ a * 5 ^ b = 2 ^ i * 5 ^ j" using s2 s5 by simp
  then show ?thesis using \<open>d5 = 1\<close> two_five_unique by blast
qed

lemma divide_quotient:
  assumes "integer_ratio l = Inr lr" "integer_ratio r = Inr rr" "number_value r \<noteq> 0"
  shows "fst rr \<noteq> 0"
    and "Fract (fst lr * snd rr) (snd lr * fst rr) = number_value l / number_value r"
proof -
  obtain ln ld rn rd where p: "lr = (ln, ld)" "rr = (rn, rd)" by fastforce
  have v: "number_value l = of_int ln / of_int ld" "0 < ld"
    "number_value r = of_int rn / of_int rd" "0 < rd"
    using integer_ratio_value assms(1,2) p by blast+
  then show "fst rr \<noteq> 0" using assms(3) p by auto
  show "Fract (fst lr * snd rr) (snd lr * fst rr) = number_value l / number_value r"
    using v p by (simp add: Fract_of_int_quotient)
qed

definition decimal_operand :: "py_number \<Rightarrow> bool" where
  "decimal_operand v =
     (case v of NInt _ \<Rightarrow> True | NDecimal d \<Rightarrow> is_finite_decimal d | _ \<Rightarrow> False)"

lemma decimal_operand_ratio: "decimal_operand v \<longleftrightarrow> is_ok (integer_ratio v)"
  by (auto simp: decimal_operand_def integer_ratio_def split: py_number.splits py_decimal.splits)

lemma exact_decimal_divide_run:
  assumes "decimal_operand l" "decimal_operand r" "number_value r \<noteq> 0"
    and "quotient_of (number_value l / number_value r) = (n, d)"
  shows "exact_decimal_divide l r =
     (let (d2, a) = strip 2 (nat d) 0; (d5, b) = strip 5 d2 0
      in if d5 \<noteq> 1 then Inr None
         else Inr (Some (decimal_from_parts (n * 5 ^ (max a b - a) * 2 ^ (max a b - b))
                     (- int (max a b)))))"
proof -
  obtain lr rr where "integer_ratio l = Inr lr" "integer_ratio r = Inr rr"
    using assms(1,2) by (auto simp: decimal_operand_ratio is_ok_iff)
  with divide_quotient [OF this assms(3)] assms(4) show ?thesis
    by (simp add: exact_decimal_divide_def Let_def split: prod.splits)
qed

lemma exact_decimal_divide_two_five:
  assumes "decimal_operand l" "decimal_operand r" "number_value r \<noteq> 0"
    and "quotient_of (number_value l / number_value r) = (n, 2 ^ a * 5 ^ b)"
  shows "\<exists>x. exact_decimal_divide l r = Inr (Some x) \<and> decimal_value x = of_int n / (2 ^ b * 5 ^ a)"
proof -
  obtain d2 i d5 j where s: "strip 2 (2 ^ a * 5 ^ b) 0 = (d2, i)" "strip 5 d2 0 = (d5, j)"
    by fastforce
  have d: "nat (2 ^ a * 5 ^ b) = 2 ^ a * 5 ^ b" by (simp add: nat_mult_distrib nat_power_eq)
  show ?thesis
    using exact_decimal_divide_run [OF assms] strip_two_five [OF s] s
      stripped_value [of "max a b" a b n] unfolding d
    by (simp add: Let_def)
qed

lemma terminating_factors:
  assumes "quotient_of q = (n, d)" and "q = decimal_value x" and "is_finite_decimal x"
  shows "\<exists>a b. d = 2 ^ a * 5 ^ b"
proof -
  obtain s c e where "x = Decimal s c e" using assms(3) by (cases x) auto
  then have "q = of_int (if s then - int c else int c) * 10 powi e"
    using assms(2) by (simp add: with_sign_def)
  then obtain k where k: "d dvd 10 ^ k" using ten_powi_denominator assms(1) by blast
  have pos: "0 < d" using quotient_of_value [OF assms(1)] by simp
  obtain d2 i d5 j where s: "strip 2 (nat d) 0 = (d2, i)" "strip 5 d2 0 = (d5, j)"
    by fastforce
  have s2: "nat d = d2 * 2 ^ i \<and> 0 < d2 \<and> \<not> 2 dvd d2" using strip_spec [OF s(1)] pos by simp
  then have s5: "d2 = d5 * 5 ^ j \<and> 0 < d5 \<and> \<not> 5 dvd d5" using strip_spec [OF s(2)] by simp
  have d: "int (nat d) = d" using pos by simp
  have "int (nat d) dvd int (10 ^ k)" using k pos by simp
  then have "nat d dvd 10 ^ k" by (simp only: of_nat_dvd_iff)
  moreover have "d5 dvd nat d" using s2 s5 by (metis dvd_triv_left mult.assoc)
  ultimately have "d5 = 1" using s2 s5 by (intro prime_to_ten [of d5 k]) (auto intro: dvd_trans)
  then have "nat d = 2 ^ i * 5 ^ j" using s2 s5 by simp
  then have "int (nat d) = int (2 ^ i * 5 ^ j)" by (simp only:)
  then have "d = 2 ^ i * 5 ^ j" unfolding d by simp
  then show ?thesis by blast
qed

lemma exact_decimal_divide_none_iff:
  assumes "decimal_operand l" "decimal_operand r" "number_value r \<noteq> 0"
  shows "exact_decimal_divide l r = Inr None \<longleftrightarrow>
         (\<nexists>x. is_finite_decimal x \<and> decimal_value x = number_value l / number_value r)"
proof -
  obtain n d where q: "quotient_of (number_value l / number_value r) = (n, d)" by fastforce
  show ?thesis
  proof
    assume none: "exact_decimal_divide l r = Inr None"
    show "\<nexists>x. is_finite_decimal x \<and> decimal_value x = number_value l / number_value r"
    proof
      assume "\<exists>x. is_finite_decimal x \<and> decimal_value x = number_value l / number_value r"
      then obtain a b where "d = 2 ^ a * 5 ^ b" using terminating_factors [OF q] by metis
      then show False using exact_decimal_divide_two_five [OF assms] q none by fastforce
    qed
  next
    assume no: "\<nexists>x. is_finite_decimal x \<and> decimal_value x = number_value l / number_value r"
    obtain d2 i d5 j where s: "strip 2 (nat d) 0 = (d2, i)" "strip 5 d2 0 = (d5, j)" by fastforce
    have pos: "0 < d" using quotient_of_value [OF q] by simp
    have s2: "nat d = d2 * 2 ^ i \<and> 0 < d2" using strip_spec [OF s(1)] pos by simp
    then have s5: "d2 = d5 * 5 ^ j" using strip_spec [OF s(2)] by simp
    have "d5 \<noteq> 1"
    proof
      assume "d5 = 1"
      then have "nat d = 2 ^ i * 5 ^ j" using s2 s5 by simp
      then have "of_int d = (2 ^ i * 5 ^ j :: rat)"
        using pos by (metis of_nat_mult of_nat_numeral of_nat_power of_nat_nat less_imp_le)
      then have "decimal_value (decimal_from_parts (n * 5 ^ (max j i - j) * 2 ^ (max j i - i))
                   (- int (max j i))) = number_value l / number_value r"
        using stripped_value [of "max j i" j i n] quotient_of_value [OF q] by (simp add: mult.commute)
      then show False using no by (metis decimal_from_parts_def is_finite_decimal.simps(1))
    qed
    then show "exact_decimal_divide l r = Inr None"
      using exact_decimal_divide_run [OF assms q] s by (simp add: Let_def)
  qed
qed

text \<open>
  C7. Exact Decimal algebra.  Addition and multiplication of \<^verbatim>\<open>int\<close> and finite \<^verbatim>\<open>Decimal\<close> operands
  always return, and the \<^verbatim>\<open>Decimal\<close> they return has exactly the sum and the product as its value:
  no context precision is applied.  Negation is exact, changes the sign of a zero, and is its own
  inverse.
\<close>

theorem exact_decimal_ring:
  assumes "decimal_operand l" "decimal_operand r"
  shows "\<exists>s p. exact_decimal_add l r = Inr s \<and> decimal_value s = number_value l + number_value r
           \<and> exact_decimal_multiply l r = Inr p \<and> decimal_value p = number_value l * number_value r
           \<and> is_finite_decimal s \<and> is_finite_decimal p
           \<and> exact_decimal_negate (NDecimal s) \<noteq> Inr s
           \<and> bindE (exact_decimal_negate (NDecimal s)) (\<lambda>m. exact_decimal_negate (NDecimal m)) = Inr s"
proof -
  obtain lc le rc re where p: "decimal_parts l = Inr (lc, le)" "decimal_parts r = Inr (rc, re)"
    using assms decimal_parts_accepts by (fastforce simp: decimal_operand_def is_ok_iff)
  then obtain s q where sp: "exact_decimal_add l r = Inr s" "exact_decimal_multiply l r = Inr q"
    and fin: "is_finite_decimal s" "is_finite_decimal q"
    by (simp add: exact_decimal_add_def exact_decimal_multiply_def Let_def decimal_from_parts_def)
  then show ?thesis
    using exact_decimal_add_value [OF sp(1)] exact_decimal_multiply_value [OF sp(2)]
    by (cases s) (auto simp: exact_decimal_negate_def)
qed

text \<open>\<open>0.1 + 3\<close> and \<open>0.1 \<cdot> 3\<close>.\<close>

theorem exact_decimal_ring_witness:
  "decimal_operand (NDecimal (Decimal False 1 (- 1))) \<and> decimal_operand (NInt 3)
   \<and> (\<exists>s. exact_decimal_add (NDecimal (Decimal False 1 (- 1))) (NInt 3) = Inr s
        \<and> decimal_value s = 31 / 10)"
  using exact_decimal_ring [of "NDecimal (Decimal False 1 (- 1))" "NInt 3"]
  by (auto simp: decimal_operand_def)

text \<open>
  C8. Exact Decimal division, where it refuses: on \<^verbatim>\<open>int\<close> and finite \<^verbatim>\<open>Decimal\<close> operands with a
  non-zero divisor the two stripping loops end and the result is \<^verbatim>\<open>None\<close> exactly when no finite
  \<^verbatim>\<open>Decimal\<close> has the value of the quotient.
\<close>

theorem exact_decimal_divide_refuses_iff_not_terminating:
  assumes "decimal_operand l" "decimal_operand r" "number_value r \<noteq> 0"
  shows "is_ok (exact_decimal_divide l r) \<and>
         (exact_decimal_divide l r = Inr None \<longleftrightarrow>
         (\<nexists>x. is_finite_decimal x \<and> decimal_value x = number_value l / number_value r))"
proof -
  obtain n d where "quotient_of (number_value l / number_value r) = (n, d)" by fastforce
  from exact_decimal_divide_run [OF assms this] exact_decimal_divide_none_iff [OF assms]
  show ?thesis by (simp add: Let_def split: prod.splits)
qed

theorem exact_decimal_divide_refuses_iff_not_terminating_witness:
  "decimal_operand (NInt 1) \<and> decimal_operand (NInt 3) \<and> number_value (NInt 3) \<noteq> 0
   \<and> (\<nexists>x. is_finite_decimal x \<and> decimal_value x = 1 / 3)"
proof -
  have "exact_decimal_divide (NInt 1) (NInt 3) = Inr None" by code_simp
  then show ?thesis
    using exact_decimal_divide_refuses_iff_not_terminating [of "NInt 1" "NInt 3"]
    by (simp add: decimal_operand_def)
qed

text \<open>
  C9. Exact Decimal division, where it returns a value.  When the quotient in lowest terms is
  \<open>n / (2 ^ a * 5 ^ b)\<close> the code returns a \<^verbatim>\<open>Decimal\<close> whose value is \<open>n / (2 ^ b * 5 ^ a)\<close>: the
  factors \<^verbatim>\<open>5 ** (scale - powers_two)\<close> and \<^verbatim>\<open>2 ** (scale - powers_five)\<close> are exchanged.  So the
  returned value is the quotient the docstring promises exactly when \<open>a = b\<close>, that is when the
  denominator is a power of ten; \<open>1 / 2\<close> comes back as \<open>0.2\<close>.
\<close>

theorem exact_decimal_divide_value:
  assumes "decimal_operand l" "decimal_operand r" "number_value r \<noteq> 0"
    and "quotient_of (number_value l / number_value r) = (n, 2 ^ a * 5 ^ b)"
  shows "\<exists>x. exact_decimal_divide l r = Inr (Some x)
           \<and> decimal_value x = of_int n / (2 ^ b * 5 ^ a)
           \<and> (decimal_value x = number_value l / number_value r \<longleftrightarrow> a = b)"
proof -
  obtain x where x: "exact_decimal_divide l r = Inr (Some x)"
    "decimal_value x = of_int n / (2 ^ b * 5 ^ a)"
    using exact_decimal_divide_two_five [OF assms] by blast
  have q: "number_value l / number_value r = of_int n / (2 ^ a * 5 ^ b)"
    "coprime n (2 ^ a * 5 ^ b)"
    using quotient_of_value [OF assms(4)] by simp_all
  have "decimal_value x = number_value l / number_value r \<longleftrightarrow> a = b"
  proof
    assume eq: "decimal_value x = number_value l / number_value r"
    show "a = b"
    proof (cases "n = 0")
      case True
      then have "is_unit (2 ^ a * 5 ^ b :: int)" using q(2) by simp
      then have "int (2 ^ a * 5 ^ b) = int (2 ^ 0 * 5 ^ 0)" by simp
      then have "(2 ^ a * 5 ^ b :: nat) = 2 ^ 0 * 5 ^ 0" by (simp only: of_nat_eq_iff)
      then show ?thesis using two_five_unique by blast
    next
      case False
      then have "(2 ^ b * 5 ^ a :: rat) = 2 ^ a * 5 ^ b"
        using eq unfolding x(2) q(1) by (simp add: field_simps)
      then have "of_nat (2 ^ b * 5 ^ a) = (of_nat (2 ^ a * 5 ^ b) :: rat)" by simp
      then have "(2 ^ b * 5 ^ a :: nat) = 2 ^ a * 5 ^ b" by (simp only: of_nat_eq_iff)
      then show ?thesis using two_five_unique by blast
    qed
  qed (simp add: x(2) q(1))
  with x show ?thesis by blast
qed

theorem exact_decimal_divide_value_witness:
  "exact_decimal_divide (NInt 1) (NInt 2) = Inr (Some (Decimal False 2 (- 1)))
   \<and> decimal_value (Decimal False 2 (- 1)) = 1 / 5
   \<and> (\<exists>x. exact_decimal_divide (NInt 1) (NInt 2) = Inr (Some x)
        \<and> decimal_value x \<noteq> number_value (NInt 1) / number_value (NInt 2))"
proof -
  have run: "exact_decimal_divide (NInt 1) (NInt 2) = Inr (Some (Decimal False 2 (- 1)))"
    by code_simp
  have "quotient_of (number_value (NInt 1) / number_value (NInt 2)) = (1, 2 ^ 1 * 5 ^ 0)"
    by code_simp
  from exact_decimal_divide_value [OF _ _ _ this] run show ?thesis
    by (simp add: decimal_operand_def power_int_minus)
qed

subsection \<open>Facts on the rounding\<close>

lemma powi_diff_nat: "(2::rat) powi (int a - int b) = 2 ^ a / 2 ^ b"
  by (simp add: power_int_diff)

lemma floorlog2_bounds:
  assumes "0 < n"
  shows "2 ^ floorlog 2 (nat n) \<le> (2 * of_int n :: rat)" "of_int n < (2::rat) ^ floorlog 2 (nat n)"
proof -
  have b: "2 ^ (floorlog 2 (nat n) - 1) \<le> nat n" "nat n < 2 ^ floorlog 2 (nat n)"
    using floorlog_bounds [of "nat n" 2] assms by auto
  have pos: "0 < floorlog 2 (nat n)"
    using b(2) assms by (metis gr0I less_one nat_0_iff not_le power_0)
  have n: "of_int n = (of_nat (nat n) :: rat)" using assms by simp
  have "2 ^ floorlog 2 (nat n) = 2 * (2::nat) ^ (floorlog 2 (nat n) - 1)"
    using pos by (simp flip: power_Suc)
  then have "2 ^ floorlog 2 (nat n) \<le> 2 * nat n" using b(1) by linarith
  then show "2 ^ floorlog 2 (nat n) \<le> (2 * of_int n :: rat)"
    unfolding n by (metis of_nat_le_iff of_nat_mult of_nat_numeral of_nat_power)
  show "of_int n < (2::rat) ^ floorlog 2 (nat n)"
    unfolding n using b(2) by (metis of_nat_less_iff of_nat_numeral of_nat_power)
qed

lemma ilog2_bounds:
  assumes "0 < q"
  shows "2 powi ilog2 q \<le> q" "q < 2 powi (ilog2 q + 1)"
proof -
  obtain n d where qd: "quotient_of q = (n, d)" by fastforce
  then have q: "q = of_int n / of_int d" "0 < d" using quotient_of_value by auto
  then have "0 < n" using assms by (simp add: zero_less_divide_iff)
  define a b where "a = floorlog 2 (nat n)" and "b = floorlog 2 (nat d)"
  define k where "k = int a - int b"
  have n: "2 ^ a \<le> (2 * of_int n :: rat)" "of_int n < (2::rat) ^ a"
    and d: "2 ^ b \<le> (2 * of_int d :: rat)" "of_int d < (2::rat) ^ b"
    using floorlog2_bounds \<open>0 < n\<close> q(2) by (auto simp: a_def b_def)
  have il: "ilog2 q = (if 2 powi k \<le> q then k else k - 1)"
    by (simp add: ilog2_def qd a_def b_def k_def Let_def)
  have dpos: "0 < (of_int d :: rat)" using q(2) by simp
  have lower: "2 powi (k - 1) \<le> q"
  proof -
    have "2 ^ a * of_int d \<le> (2 * of_int n) * (2 ^ b :: rat)"
      using n(1) d(2) dpos \<open>0 < n\<close> by (intro mult_mono) auto
    then show ?thesis
      using dpos by (simp add: q(1) k_def power_int_diff power_int_add field_simps)
  qed
  have upper: "q < 2 powi (k + 1)"
  proof -
    have "of_int n * 2 ^ b < (2 ^ a :: rat) * 2 ^ b" using n(2) by simp
    also have "\<dots> \<le> 2 ^ a * (2 * of_int d)" using d(1) by simp
    finally show ?thesis
      using dpos by (simp add: q(1) k_def power_int_diff power_int_add field_simps)
  qed
  show "2 powi ilog2 q \<le> q" using il lower by simp
  show "q < 2 powi (ilog2 q + 1)" using il upper by auto
qed

lemma round_half_even_int [simp]: "round_half_even (of_int z) = z"
  by (simp add: round_half_even_def)

text \<open>A magnitude that is an integer multiple of its unit in the last place is not changed.\<close>

lemma round64_exact:
  assumes "0 < a" and "ilog2 a < 1024" and "e = max (- 1074) (ilog2 a - 52)" and "a = of_int z * 2 powi e"
  shows "round64 s a = Finite s (nat z) e"
proof -
  have "e \<le> 971" using assms(2,3) by simp
  have z: "a / 2 powi e = of_int z" using assms(4) by simp
  have "ilog2 a + 1 \<le> e + 53" using assms(3) by simp
  then have "a < 2 powi (e + 53)"
    using ilog2_bounds(2) [OF assms(1)]
    by (meson less_le_trans one_le_numeral power_int_increasing)
  then have "of_int z * 2 powi e < (2 ^ 53 :: rat) * 2 powi e"
    using assms(4) by (simp add: power_int_add mult.commute)
  then have "(of_int z :: rat) < 2 ^ 53" by simp
  then have "z \<noteq> 2 ^ 53" by auto
  then show ?thesis
    using assms(1,3) z \<open>e \<le> 971\<close> by (simp add: round64_def Let_def)
qed

lemma round64_zero [simp]: "round64 s 0 = Finite s 0 (- 1074)"
  by (simp add: round64_def)

text \<open>The integers up to \<open>2 ^ 53\<close> are binary64 values.\<close>

lemma round64_small_int:
  assumes "0 < n" and "n \<le> 2 ^ 53"
  shows "\<exists>m e. round64 s (of_int n) = Finite s m e \<and> of_nat m * 2 powi e = (of_int n :: rat)"
proof -
  define e where "e = ilog2 (of_int n) - 52"
  have pos: "0 < (of_int n :: rat)" using assms(1) by simp
  have le: "(of_int n :: rat) \<le> 2 powi 53"
    using assms(2) by (simp add: of_int_le_numeral_power_cancel_iff)
  have "\<not> ilog2 (of_int n) \<ge> 54"
  proof
    assume "54 \<le> ilog2 (of_int n)"
    then have "(2::rat) powi 54 \<le> 2 powi ilog2 (of_int n)" by (intro power_int_increasing) auto
    also have "\<dots> \<le> 2 powi 53" using ilog2_bounds(1) [OF pos] le by linarith
    finally show False by simp
  qed
  moreover have "0 \<le> ilog2 (of_int n)"
  proof (rule ccontr)
    assume "\<not> 0 \<le> ilog2 (of_int n)"
    then have "(2::rat) powi (ilog2 (of_int n) + 1) \<le> 2 powi 0" by (intro power_int_increasing) auto
    then have "(of_int n :: rat) < 1" using ilog2_bounds(2) [OF pos] by simp
    then show False using assms(1) by simp
  qed
  ultimately have e: "- 52 \<le> e" "e \<le> 1" by (auto simp: e_def)
  have "\<exists>z. (of_int n :: rat) = of_int z * 2 powi e"
  proof (cases "e \<le> 0")
    case True
    then have "(of_int n :: rat) = of_int (n * 2 ^ nat (- e)) * 2 powi e"
      by (simp add: power_int_def flip: power_mult_distrib)
    then show ?thesis by blast
  next
    case False
    then have "e = 1" using e by simp
    then have "(2::rat) powi 53 \<le> of_int n" using ilog2_bounds(1) [OF pos] by (simp add: e_def)
    then have "(of_int n :: rat) = of_int (2 ^ 52) * 2 powi e" using le \<open>e = 1\<close> by simp
    then show ?thesis by blast
  qed
  then obtain z where z: "(of_int n :: rat) = of_int z * 2 powi e" by blast
  have "ilog2 (of_int n) < 1024" using e by (simp add: e_def)
  moreover have "e = max (- 1074) (ilog2 (of_int n) - 52)" using e(1) unfolding e_def by simp
  ultimately have "round64 s (of_int n) = Finite s (nat z) e"
    using z by (rule round64_exact [OF pos])
  moreover have "0 \<le> z"
    using z pos zero_less_power_int [of "2::rat" e]
    by (metis less_imp_le of_int_0_less_iff zero_less_mult_pos2 zero_less_numeral)
  ultimately show ?thesis using z by auto
qed

lemma float_of_small_int:
  assumes "\<bar>n\<bar> \<le> 2 ^ 53"
  shows "\<exists>m e. float_of_rat (of_int n) = Finite (n < 0) m e \<and> of_nat m * 2 powi e = (\<bar>of_int n\<bar> :: rat)"
proof (cases "n = 0")
  case False
  then show ?thesis
    using round64_small_int [of "\<bar>n\<bar>" "n < 0"] assms by (simp add: float_of_rat_def)
qed (simp add: float_of_rat_def)

lemma float_value_small_int: "\<bar>n\<bar> \<le> 2 ^ 53 \<Longrightarrow> float_value (float_of_rat (of_int n)) = of_int n"
  using float_of_small_int [of n] by (auto simp: with_sign_def)

text \<open>So the quotient of two of them is rounded once.\<close>

lemma float_div_small_ints:
  assumes "\<bar>n\<bar> \<le> 2 ^ 53" and "0 < d" and "d \<le> 2 ^ 53"
  shows "float_div (float_of_rat (of_int n)) (float_of_rat (of_int d)) = float_of_rat (of_int n / of_int d)"
proof -
  obtain m e where n: "float_of_rat (of_int n) = Finite (n < 0) m e"
      "of_nat m * 2 powi e = (\<bar>of_int n\<bar> :: rat)"
    using float_of_small_int [OF assms(1)] by blast
  obtain m' e' where d: "float_of_rat (of_int d) = Finite (d < 0) m' e'"
      "of_nat m' * 2 powi e' = (\<bar>of_int d\<bar> :: rat)"
    using float_of_small_int [of d] assms(2,3) by auto
  have "m' \<noteq> 0" using d(2) assms(2) by (cases "m' = 0") auto
  moreover have "float_of_rat (of_int n / of_int d) = round64 (n < 0) (\<bar>of_int n\<bar> / \<bar>of_int d\<bar>)"
    using assms(2) by (simp add: float_of_rat_def divide_less_0_iff)
  ultimately show ?thesis
    using assms(2) unfolding n(1) d(1) float_div.simps n(2) d(2) by simp
qed

lemma round64_finite:
  assumes "0 < a" and "a < 2 powi k" and "k \<le> 1023"
  shows "isfinite (round64 s a)"
proof -
  have "2 powi ilog2 a < (2::rat) powi k" using ilog2_bounds(1) [OF assms(1)] assms(2) by simp
  then have "ilog2 a < k" using power_int_increasing [of k "ilog2 a" "2::rat"] by linarith
  moreover define e where "e = max (- 1074) (ilog2 a - 52)"
  ultimately have "e \<le> 970" using assms(3) by simp
  then show ?thesis using assms(1) unfolding round64_def Let_def e_def [symmetric] by auto
qed

subsection \<open>The value of the C++ text\<close>

text \<open>
  Binary64 arithmetic, the meaning of \<^verbatim>\<open>pops::Real\<close>: an integer token outside the signed 64-bit range
  is ill-formed (\<open>None\<close>), conversions and the division round once.  The text of a \<^verbatim>\<open>Decimal\<close> is an
  integer token exactly when its exponent is zero (\<open>show_decimal_integer_token\<close>).
\<close>

fun eval_real :: "cpp_expr \<Rightarrow> py_float option" where
  "eval_real (Cast_int t n) =
     (if \<bar>n\<bar> \<le> cpp_signed_integer_max then Some (float_of_rat (of_int n)) else None)"
| "eval_real (Cast_real t f) = Some f"
| "eval_real (Cast_decimal t (Decimal s c e)) =
     (if e = 0 then (if int c \<le> cpp_signed_integer_max
                     then Some (float_of_rat (decimal_value (Decimal s c e))) else None)
      else Some (float_of_decimal (Decimal s c e)))"
| "eval_real (Cast_neg_zero t) = Some (Finite True 0 (- 1074))"
| "eval_real (Real_token f) = Some f"
| "eval_real (Cpp_div a b) =
     (case (eval_real a, eval_real b) of (Some x, Some y) \<Rightarrow> Some (float_div x y) | _ \<Rightarrow> None)"
| "eval_real _ = None"

text \<open>Exact field arithmetic, the meaning of any other target type.\<close>

fun eval_exact :: "cpp_expr \<Rightarrow> rat option" where
  "eval_exact (Cast_int t n) = (if \<bar>n\<bar> \<le> cpp_signed_integer_max then Some (of_int n) else None)"
| "eval_exact (Cast_real t f) = Some (float_value f)"
| "eval_exact (Cast_decimal t d) = Some (decimal_value d)"
| "eval_exact (Cast_neg_zero t) = Some 0"
| "eval_exact (Real_token f) = Some (float_value f)"
| "eval_exact (Cpp_add a b) =
     (case (eval_exact a, eval_exact b) of (Some x, Some y) \<Rightarrow> Some (x + y) | _ \<Rightarrow> None)"
| "eval_exact (Cpp_mul a b) =
     (case (eval_exact a, eval_exact b) of (Some x, Some y) \<Rightarrow> Some (x * y) | _ \<Rightarrow> None)"
| "eval_exact (Cpp_div a b) =
     (case (eval_exact a, eval_exact b) of (Some x, Some y) \<Rightarrow> Some (x / y) | _ \<Rightarrow> None)"
| "eval_exact (Cpp_neg a) = map_option uminus (eval_exact a)"
| "eval_exact (Cpp_raw s) = None"

text \<open>The text of a \<^verbatim>\<open>Decimal\<close> without point and exponent.\<close>

lemma show_nat_digits: "set (show_nat n) \<subseteq> set ''0123456789''"
proof -
  have "c \<in> set (decimal n) \<Longrightarrow> c \<in> {48, 49, 50, 51, 52, 53, 54, 55, 56, 57}" for c
  proof -
    assume "c \<in> set (decimal n)"
    then have "48 \<le> c \<and> c \<le> 57" using decimal_digits [of n] by (simp add: list_all_iff is_digit_def)
    then show ?thesis by (simp only: insert_iff empty_iff) presburger
  qed
  then have "set (show_nat n) \<subseteq> char_of ` {48, 49, 50, 51, 52, 53, 54, 55, 56, 57 :: nat}"
    unfolding show_nat_def set_map by blast
  also have "char_of ` {48, 49, 50, 51, 52, 53, 54, 55, 56, 57 :: nat} = set ''0123456789''"
    by code_simp
  finally show ?thesis .
qed

lemma show_decimal_integer_token:
  "CHR ''.'' \<notin> set (show_decimal (Decimal s c e)) \<and> CHR ''E'' \<notin> set (show_decimal (Decimal s c e))
   \<longleftrightarrow> e = 0"
proof -
  have n: "CHR ''.'' \<notin> set (show_nat k)" "CHR ''E'' \<notin> set (show_nat k)" for k
    using show_nat_digits [of k] by auto
  have len: "1 \<le> length (show_nat c)" by (simp add: show_nat_def Suc_leI decimal_nonempty)
  show ?thesis
    using n len by (auto simp: Let_def dest: in_set_takeD in_set_dropD)
qed

lemma parse_decimal_append:
  "parse_decimal (xs @ ys) = parse_decimal xs * 10 ^ length ys + parse_decimal ys"
proof (induction ys rule: rev_induct)
  case (snoc y ys)
  have "parse_decimal (xs @ ys @ [y]) = 10 * parse_decimal (xs @ ys) + (y - 48)"
    using parse_decimal_snoc [of "xs @ ys" y] by simp
  then show ?case using snoc by (simp add: parse_decimal_snoc algebra_simps)
qed (simp add: parse_decimal_def)

lemma parse_decimal_bound:
  assumes "list_all is_digit ds"
  shows "parse_decimal ds < 10 ^ length ds"
  using assms
proof (induction ds rule: rev_induct)
  case (snoc d ds)
  then have "parse_decimal ds < 10 ^ length ds" "d - 48 < 10" by (auto simp: is_digit_def)
  then show ?case by (simp add: parse_decimal_snoc)
qed (simp add: parse_decimal_def)

lemma slices9_value:
  assumes "length ds mod 9 = 0"
  shows "foldl (\<lambda>v s. v * 1000000000 + parse_decimal s) a (slices9 ds)
         = a * 10 ^ length ds + parse_decimal ds"
  using assms
proof (induction ds arbitrary: a rule: slices9.induct)
  case 1
  then show ?case by (simp add: parse_decimal_def)
next
  case (2 d ds)
  have len: "8 \<le> length ds" using 2(2) by (cases "length ds < 8") auto
  then have t: "length (take 9 (d # ds)) = 9" by simp
  have split: "d # ds = take 9 (d # ds) @ drop 8 ds"
    using append_take_drop_id [of 9 "d # ds"] by (simp add: numeral_eq_Suc)
  have "length (drop 8 ds) mod 9 = 0" using 2(2) len by (simp add: le_mod_geq)
  then have "foldl (\<lambda>v s. v * 1000000000 + parse_decimal s) a (slices9 (d # ds))
      = (a * 1000000000 + parse_decimal (take 9 (d # ds))) * 10 ^ length (drop 8 ds)
        + parse_decimal (drop 8 ds)"
    using 2(1) by simp
  also have "\<dots> = a * 10 ^ (9 + length (drop 8 ds)) + parse_decimal (take 9 (d # ds) @ drop 8 ds)"
    unfolding parse_decimal_append power_add by (simp add: algebra_simps)
  also have "\<dots> = a * 10 ^ length (d # ds) + parse_decimal (d # ds)"
  proof -
    have "9 + length (drop 8 ds) = length (d # ds)" using len by simp
    then show ?thesis by (simp only: split [symmetric])
  qed
  finally show ?case .
qed

lemma slices9_bound:
  assumes "list_all is_digit ds" and "s \<in> set (slices9 ds)"
  shows "parse_decimal s < 1000000000"
proof -
  have "list_all is_digit s \<and> length s \<le> 9"
    using assms
  proof (induction ds rule: slices9.induct)
    case (2 d ds)
    have "list_all is_digit (drop 8 ds)" "list_all is_digit (take 9 (d # ds))"
      using 2(2) by (auto simp: list_all_iff dest: in_set_takeD in_set_dropD)
    then show ?case using 2 by auto
  qed simp
  then have "parse_decimal s < 10 ^ length s" "length s \<le> 9" by (auto intro: parse_decimal_bound)
  then show ?thesis using power_increasing [of "length s" 9 "10::nat"] by simp
qed

text \<open>The chunks are the digits of the integer in base \<open>10 ^ 9\<close>, most significant first.\<close>

lemma integer_chunks_value:
  "foldl (\<lambda>v c. v * 1000000000 + c) (hd (integer_chunks n)) (tl (integer_chunks n)) = n"
proof -
  define ds k where "ds = decimal n" and "k = first_chunk ds"
  have k: "k \<le> length ds" "length (drop k ds) mod 9 = 0"
  proof -
    have "length ds \<noteq> 0" by (simp add: ds_def decimal_nonempty)
    then show "k \<le> length ds" by (auto simp: k_def first_chunk_def dvd_imp_le)
    show "length (drop k ds) mod 9 = 0"
    proof (cases "length ds mod 9 = 0")
      case True
      then show ?thesis by (cases "length ds < 9") (auto simp: k_def first_chunk_def le_mod_geq [symmetric])
    next
      case False
      then show ?thesis by (simp add: k_def first_chunk_def minus_mod_eq_div_mult)
    qed
  qed
  have "foldl (\<lambda>v c. v * 1000000000 + c) (parse_decimal (take k ds))
          (map parse_decimal (slices9 (drop k ds))) = parse_decimal (take k ds @ drop k ds)"
    using slices9_value [OF k(2), of "parse_decimal (take k ds)"]
    by (simp add: foldl_map parse_decimal_append del: append_take_drop_id)
  then show ?thesis
    by (simp add: integer_chunks_def Let_def ds_def k_def parse_decimal_decimal)
qed

lemma integer_chunks_bound: "c \<in> set (integer_chunks n) \<Longrightarrow> c < 1000000000"
proof -
  define ds k where "ds = decimal n" and "k = first_chunk ds"
  have dig: "list_all is_digit (take k ds)" "list_all is_digit (drop k ds)"
    using decimal_digits [of n] by (auto simp: ds_def list_all_iff dest: in_set_takeD in_set_dropD)
  have "k \<le> 9" unfolding k_def first_chunk_def by (simp add: less_imp_le)
  then have "(10::nat) ^ length (take k ds) \<le> 10 ^ 9" by (intro power_increasing) auto
  moreover have "parse_decimal (take k ds) < 10 ^ length (take k ds)" using dig(1) by (rule parse_decimal_bound)
  ultimately have "parse_decimal (take k ds) < 1000000000" by simp
  moreover assume "c \<in> set (integer_chunks n)"
  ultimately show ?thesis
    using slices9_bound [OF dig(2)] by (auto simp: integer_chunks_def Let_def ds_def k_def)
qed

lemma integer_chunks_nonempty: "integer_chunks n \<noteq> []"
  by (simp add: integer_chunks_def Let_def)

lemma eval_chunk_fold:
  assumes "eval_exact e = Some (of_nat v)" and "\<forall>c\<in>set cs. c < 1000000000"
  shows "eval_exact (foldl (\<lambda>e chunk. Cpp_add (Cpp_mul e (Cast_int t 1000000000))
            (Cast_int t (int chunk))) e cs)
         = Some (of_nat (foldl (\<lambda>v c. v * 1000000000 + c) v cs))"
  using assms
proof (induction cs arbitrary: e v)
  case (Cons c cs)
  have "eval_exact (Cpp_add (Cpp_mul e (Cast_int t 1000000000)) (Cast_int t (int c)))
        = Some (of_nat (v * 1000000000 + c))"
    using Cons.prems by (simp add: cpp_signed_integer_max_def)
  with Cons show ?case by simp
qed simp

lemma integer_chunks_cpp_value: "eval_exact (integer_chunks_cpp v t) = Some (of_int v)"
proof -
  let ?cs = "integer_chunks (nat \<bar>v\<bar>)"
  have b: "hd ?cs < 1000000000" "\<forall>c\<in>set (tl ?cs). c < 1000000000"
    using integer_chunks_bound [of _ "nat \<bar>v\<bar>"] integer_chunks_nonempty
    by (metis hd_in_set, metis list.set_sel(2))
  have "eval_exact (Cast_int t (int (hd ?cs))) = Some (of_nat (hd ?cs))"
    using b(1) by (simp add: cpp_signed_integer_max_def)
  from eval_chunk_fold [OF this b(2), of t] show ?thesis
    by (cases "v < 0") (simp_all add: integer_chunks_cpp_def Let_def integer_chunks_value)
qed

subsection \<open>Native and generated values agree\<close>

definition wf_literal :: "scalar_literal \<Rightarrow> bool" where
  "wf_literal l \<longleftrightarrow>
     (case lit_payload l of
        Rational_lit n d \<Rightarrow> 0 < d \<and> coprime n d
      | Decimal_lit x \<Rightarrow> is_finite_decimal x
      | Binary64_lit f \<Rightarrow> isfinite f
      | Algebraic_lit e \<Rightarrow> lit_cpp l \<noteq> None
      | _ \<Rightarrow> True)"

lemma mk_literal_wf: "mk_literal p u t c = Inr l \<Longrightarrow> wf_literal l"
  using quotient_of_value
  by (auto simp: mk_literal_def wf_literal_def Let_def
      split: literal_payload.splits if_splits prod.splits)

text \<open>The value of a literal of a numeric kind.\<close>

definition literal_value :: "scalar_literal \<Rightarrow> rat" where
  "literal_value l = (case to_python l of Inr v \<Rightarrow> number_value v | Inl _ \<Rightarrow> 0)"

definition numeric_literal :: "scalar_literal \<Rightarrow> bool" where
  "numeric_literal l = is_ok (to_python l)"

lemma isfinite_decimal: "isfinite (float_of_decimal d) \<Longrightarrow> is_finite_decimal d"
  by (cases d) auto

definition safe_decimal_token :: "scalar_literal \<Rightarrow> bool" where
  "safe_decimal_token l =
     (case lit_payload l of
        Decimal_lit (Decimal s c e) \<Rightarrow> e \<noteq> 0 \<or> int c \<le> cpp_signed_integer_max
      | _ \<Rightarrow> True)"

lemma finite_real_token_ok: "finite_real_token v = Inr f \<longleftrightarrow> to_float v = Inr f \<and> isfinite f"
  by (auto simp: finite_real_token_def split: sum.splits)

lemma small_int_finite: "\<bar>n\<bar> \<le> 2 ^ 53 \<Longrightarrow> isfinite (float_of_rat (of_int n))"
  using float_of_small_int [of n] by auto

lemma integer_cpp_real:
  "integer_cpp n t True = Inr e \<Longrightarrow> eval_real e = Some (float_of_rat (of_int n))"
  by (auto simp: integer_cpp_def finite_real_token_ok to_float_def Let_def split: if_splits)

lemma rational_cpp_real:
  assumes "0 < d"
  shows "rational_cpp n d t True = Inr e \<Longrightarrow> eval_real e = Some (float_of_rat (of_int n / of_int d))"
proof (cases "\<bar>n\<bar> \<le> 2 ^ 53 \<and> \<bar>d\<bar> \<le> 2 ^ 53")
  case True
  assume "rational_cpp n d t True = Inr e"
  then have "e = Cpp_div (Cast_int t n) (Cast_int t d)"
    using True by (simp add: rational_cpp_def binary64_exact_integer_max_def)
  moreover have "\<bar>n\<bar> \<le> cpp_signed_integer_max" "\<bar>d\<bar> \<le> cpp_signed_integer_max"
    using True by (simp_all add: cpp_signed_integer_max_def)
  ultimately show ?thesis using float_div_small_ints [of n d] True assms by simp
next
  case False
  assume "rational_cpp n d t True = Inr e"
  with False show ?thesis
    by (auto simp: rational_cpp_def binary64_exact_integer_max_def finite_real_token_ok to_float_def
        Let_def Fract_of_int_quotient split: if_splits)
qed

lemma ten_powi_pos: "\<not> (10::rat) powi e < 0" "\<not> (10::rat) powi e \<le> 0"
  using zero_less_power_int [of "10::rat" e] by linarith+

lemma float_of_decimal_zero: "float_of_decimal (Decimal s 0 e) = Finite s 0 (- 1074)"
  by simp

lemma float_of_rat_decimal:
  "c \<noteq> 0 \<or> \<not> s \<Longrightarrow> float_of_rat (decimal_value (Decimal s c e)) = float_of_decimal (Decimal s c e)"
  by (auto simp: float_of_rat_def with_sign_def mult_less_0_iff not_less ten_powi_pos)

lemma decimal_cpp_real:
  assumes "e \<noteq> 0 \<or> int c \<le> cpp_signed_integer_max"
  shows "decimal_cpp (Decimal s c e) t True = Inr x \<Longrightarrow>
         eval_real x = Some (float_of_decimal (Decimal s c e))"
  using assms float_of_rat_decimal [of c s e]
  by (auto split: if_splits simp: float_of_decimal_zero
      simp del: float_of_decimal.simps decimal_value.simps)

lemma rational_cpp_exact:
  assumes "0 < d"
  shows "\<exists>e. rational_cpp n d t False = Inr e \<and> eval_exact e = Some (of_int n / of_int d)"
  by (simp add: rational_cpp_def integer_chunks_cpp_value)

lemma to_cpp_native:
  assumes "wf_literal l" "safe_decimal_token l" "lit_unit l = None" "lit_target l \<in> {None, Some pops_real}"
    and "to_python l = Inr n" "to_float n = Inr f" "isfinite f"
  shows "\<exists>e. to_cpp l = Inr e \<and> eval_real e = Some f"
proof -
  have t: "(case lit_target l of None \<Rightarrow> pops_real | Some t \<Rightarrow> t) = pops_real" using assms(4) by auto
  show ?thesis
  proof (cases "lit_payload l")
    case (Integer_lit i)
    then have f: "f = float_of_rat (of_int i)"
      using assms(5,6) by (auto simp: to_python_def to_float_def Let_def split: if_splits)
    have "is_ok (integer_cpp i pops_real True)"
      using f assms(7) by (simp add: integer_cpp_def finite_real_token_def to_float_def is_ok_iff)
    then show ?thesis
      using Integer_lit assms(3) t integer_cpp_real f by (auto simp: to_cpp_def is_ok_iff Let_def)
  next
    case (Rational_lit p q)
    then have q: "0 < q" using assms(1) by (simp add: wf_literal_def)
    have f: "f = float_of_rat (of_int p / of_int q)"
      using assms(5,6) Rational_lit
      by (auto simp: to_python_def to_float_def Let_def Fract_of_int_quotient split: if_splits)
    have "is_ok (rational_cpp p q pops_real True)"
      using f assms(7)
      by (simp add: rational_cpp_def finite_real_token_def to_float_def is_ok_iff Fract_of_int_quotient)
    then show ?thesis
      using Rational_lit assms(3) t rational_cpp_real [OF q] f
      by (auto simp: to_cpp_def is_ok_iff Let_def)
  next
    case (Decimal_lit x)
    then obtain s c e where x: "x = Decimal s c e"
      using assms(1) by (cases x) (auto simp: wf_literal_def)
    have f: "f = float_of_decimal (Decimal s c e)"
      using assms(5,6) Decimal_lit x by (auto simp: to_python_def to_float_def)
    have "is_ok (decimal_cpp (Decimal s c e) pops_real True)"
      using f assms(7) by (simp add: finite_real_token_def to_float_def is_ok_iff)
    moreover have "e \<noteq> 0 \<or> int c \<le> cpp_signed_integer_max"
      using assms(2) Decimal_lit x by (simp add: safe_decimal_token_def)
    ultimately show ?thesis
      using Decimal_lit x assms(3) t decimal_cpp_real f
      by (auto simp: to_cpp_def is_ok_iff Let_def simp del: decimal_cpp.simps float_of_decimal.simps)
  next
    case (Binary64_lit g)
    then show ?thesis
      using assms(3-6)
      by (auto simp: to_cpp_def to_python_def to_float_def Let_def split: option.splits)
  qed (use assms(5) in \<open>auto simp: to_python_def\<close>)
qed

text \<open>
  C10. The generated C++ and the runtime agree.  Whenever the native boundary accepts a scalar (it has
  no unit, no foreign target and is representable) with result \<open>f\<close>, the C++ text generated for it is
  accepted too and evaluates, in binary64 arithmetic, to the same \<open>f\<close>: every branch of the spelling
  rounds the exact value once.  The one excluded input is a \<^verbatim>\<open>Decimal\<close> with exponent zero and a
  coefficient beyond the signed 64-bit range.
\<close>

theorem scalar_cpp_agrees_with_native:
  assumes "from_value v None None = Inr l" and "wf_literal l" and "safe_decimal_token l"
    and "scalar_to_native v = Inr f"
  shows "\<exists>e. scalar_cpp v = Inr e \<and> eval_real e = Some f"
proof -
  obtain n where "lit_unit l = None" "lit_target l \<in> {None, Some pops_real}"
      "to_python l = Inr n" "to_float n = Inr f" "isfinite f"
    using assms(1,4) by (auto simp: scalar_to_native_def split: sum.splits if_splits)
  from to_cpp_native [OF assms(2,3) this] show ?thesis
    using assms(1) by (simp add: scalar_cpp_def)
qed

theorem scalar_cpp_agrees_with_native_witness:
  "\<exists>f e. scalar_to_native (VNumber (NFraction (1 / 3))) = Inr f
     \<and> scalar_cpp (VNumber (NFraction (1 / 3))) = Inr e \<and> eval_real e = Some f"
proof -
  let ?l = "\<lparr>lit_payload = Rational_lit 1 3, lit_unit = None, lit_target = None, lit_cpp = None\<rparr>"
  have l: "from_value (VNumber (NFraction (1 / 3))) None None = Inr ?l" by code_simp
  have "isfinite (float_of_rat (1 / 3))"
    unfolding float_of_rat_def by (rule round64_finite [of _ 0]) simp_all
  then have f: "scalar_to_native (VNumber (NFraction (1 / 3))) = Inr (float_of_rat (1 / 3))"
    unfolding scalar_to_native_def l by (simp add: to_python_def to_float_def Fract_of_int_quotient)
  have "wf_literal ?l" "safe_decimal_token ?l" by (simp_all add: wf_literal_def safe_decimal_token_def)
  from scalar_cpp_agrees_with_native [OF l this f] f show ?thesis by blast
qed

text \<open>
  A foreign target gets the exact value.  For a literal of a numeric kind whose target is not
  \<^verbatim>\<open>pops::Real\<close>, the C++ text exists, uses integer tokens of the signed 64-bit range only, and
  evaluates under exact arithmetic to the value of the literal, whatever its size.
\<close>

theorem scalar_cpp_exact_target:
  assumes "from_value v None None = Inr l" and "wf_literal l" and "numeric_literal l"
    and "lit_unit l = None" and "lit_target l = Some t" and "t \<noteq> pops_real"
  shows "\<exists>e. scalar_cpp v = Inr e \<and> eval_exact e = Some (literal_value l)"
proof -
  have cpp: "scalar_cpp v = to_cpp l" using assms(1) by (simp add: scalar_cpp_def)
  show ?thesis
  proof (cases "lit_payload l")
    case (Integer_lit i)
    then show ?thesis
      using assms(4-6)
      by (simp add: cpp to_cpp_def Let_def integer_cpp_def integer_chunks_cpp_value
          literal_value_def to_python_def)
  next
    case (Rational_lit p q)
    then have "0 < q" using assms(2) by (simp add: wf_literal_def)
    from rational_cpp_exact [OF this, of p t] show ?thesis
      using Rational_lit assms(4-6)
      by (auto simp: cpp to_cpp_def Let_def literal_value_def to_python_def Fract_of_int_quotient)
  next
    case (Decimal_lit x)
    then obtain s c e where x: "x = Decimal s c e"
      using assms(2) by (cases x) (auto simp: wf_literal_def)
    obtain p q where pq: "quotient_of (decimal_value x) = (p, q)" by fastforce
    then have "decimal_value x = of_int p / of_int q" "0 < q" using quotient_of_value by auto
    with rational_cpp_exact [of q p t] show ?thesis
      using Decimal_lit assms(4-6) pq unfolding x
      by (auto simp: cpp to_cpp_def Let_def literal_value_def to_python_def simp del: decimal_value.simps)
        (simp add: with_sign_def)
  next
    case (Binary64_lit g)
    then show ?thesis
      using assms(4-6) by (simp add: cpp to_cpp_def Let_def literal_value_def to_python_def)
  qed (use assms(3) in \<open>auto simp: to_python_def numeric_literal_def\<close>)
qed

theorem scalar_cpp_exact_target_witness:
  "\<exists>e. scalar_cpp (VConstant (VNumber (NInt 123456789012345678901234567890)) None (Some (Some ''Big'')))
         = Inr e
     \<and> eval_exact e = Some 123456789012345678901234567890"
proof -
  let ?l = "\<lparr>lit_payload = Integer_lit 123456789012345678901234567890, lit_unit = None,
             lit_target = Some ''Big'', lit_cpp = None\<rparr>"
  let ?v = "VConstant (VNumber (NInt 123456789012345678901234567890)) None (Some (Some ''Big''))"
  have l: "from_value ?v None None = Inr ?l" by code_simp
  have "wf_literal ?l" "numeric_literal ?l" "lit_unit ?l = None" "lit_target ?l = Some ''Big''"
    "''Big'' \<noteq> pops_real"
    by (simp_all add: wf_literal_def numeric_literal_def to_python_def pops_real_def)
  from scalar_cpp_exact_target [OF l this] show ?thesis
    by (simp add: literal_value_def to_python_def)
qed

text \<open>
  C12. The excluded input.  A \<^verbatim>\<open>Decimal\<close> with exponent zero and a coefficient above the signed 64-bit
  maximum, inside the binary64 range, is accepted and printed as a bare integer token outside that
  range: the token the integer branch takes care never to print.
\<close>

theorem decimal_token_out_of_range:
  assumes "cpp_signed_integer_max < int c" and "isfinite (float_of_decimal (Decimal s c 0))"
  shows "scalar_cpp (VNumber (NDecimal (Decimal s c 0))) = Inr (Cast_decimal pops_real (Decimal s c 0))
         \<and> eval_real (Cast_decimal pops_real (Decimal s c 0)) = None
         \<and> scalar_to_native (VNumber (NDecimal (Decimal s c 0))) = Inr (float_of_decimal (Decimal s c 0))
         \<and> CHR ''.'' \<notin> set (show_decimal (Decimal s c 0))
         \<and> CHR ''E'' \<notin> set (show_decimal (Decimal s c 0))"
  using assms show_decimal_integer_token [of s c 0]
  by (auto simp: scalar_cpp_def scalar_to_native_def number_payload_def target_name_def mk_literal_def
      check_annotations_def to_cpp_def to_python_def to_float_def finite_real_token_def
      cpp_signed_integer_max_def simp del: float_of_decimal.simps show_decimal.simps)

theorem decimal_token_out_of_range_witness:
  "\<exists>e. scalar_cpp (VNumber (NDecimal (Decimal False 100000000000000000000 0))) = Inr e
     \<and> eval_real e = None"
proof -
  have "isfinite (round64 False 100000000000000000000)"
    by (rule round64_finite [of _ 67]) simp_all
  then have "isfinite (float_of_decimal (Decimal False 100000000000000000000 0))" by simp
  moreover have "cpp_signed_integer_max < int 100000000000000000000"
    by (simp add: cpp_signed_integer_max_def)
  ultimately show ?thesis using decimal_token_out_of_range by blast
qed

lemma from_value_finite:
  assumes "exact_numeric_scalar v = Inr n" "from_value v None None = Inr l" "wf_literal l"
  shows "case n of NFloat f \<Rightarrow> isfinite f | NDecimal d \<Rightarrow> is_finite_decimal d | _ \<Rightarrow> True"
  using assms
  by (auto simp: exact_numeric_scalar_def to_python_def wf_literal_def
      split: literal_payload.splits sum.splits)

text \<open>A float product is the product of the magnitudes rounded once.\<close>

definition rounded_product :: "rat \<Rightarrow> py_number \<Rightarrow> bool" where
  "rounded_product q v \<longleftrightarrow>
     (\<exists>s. v = NFloat (round64 s \<bar>q\<bar>) \<and> (q \<noteq> 0 \<longrightarrow> s = (q < 0)))"

lemma two_powi_pos [simp]: "0 < (2::rat) powi e" "0 \<le> (2::rat) powi e"
  using zero_less_power_int [of "2::rat" e] by simp_all

lemma float_mul_rounded:
  assumes "f = Finite s m e" "g = Finite s' m' e'"
  shows "rounded_product (float_value f * float_value g) (NFloat (float_mul f g))"
  unfolding rounded_product_def assms float_mul.simps
  by (intro exI [of _ "s \<noteq> s'"])
    (auto simp: with_sign_mult abs_mult with_sign_def mult_less_0_iff zero_less_mult_iff not_less)

lemma to_float_small_int:
  "\<bar>n\<bar> \<le> 2 ^ 53 \<Longrightarrow> \<exists>s m e. to_float (NInt n) = Inr (Finite s m e)
      \<and> float_value (Finite s m e) = of_int n"
  using float_of_small_int [of n] float_value_small_int [of n] by (auto simp: to_float_def Let_def)

lemma py_multiply_value:
  assumes "numeric_domains_compatible a b" "\<not> is_decimal a" "\<not> is_decimal b"
    and "case a of NFloat f \<Rightarrow> isfinite f | _ \<Rightarrow> True" "case b of NFloat f \<Rightarrow> isfinite f | _ \<Rightarrow> True"
  shows "\<exists>v. py_multiply a b = Inr v \<and>
     (if (\<exists>f. a = NFloat f) \<or> (\<exists>f. b = NFloat f)
      then rounded_product (number_value a * number_value b) v
      else number_value v = number_value a * number_value b)"
proof -
  have fin: "\<exists>s m e. f = Finite s m e" if "isfinite f" for f using that by (cases f) auto
  consider (int_float) n f where "a = NInt n" "b = NFloat f" | (float_int) n f where "a = NFloat f" "b = NInt n"
    | (float_float) f g where "a = NFloat f" "b = NFloat g"
    | (no_float) "\<nexists>f. a = NFloat f" "\<nexists>f. b = NFloat f"
    using assms(1-3) by (cases a; cases b) (auto simp: numeric_domains_compatible_def)
  then show ?thesis
  proof cases
    case int_float
    then obtain s m e where "f = Finite s m e" using fin [of f] assms(5) by auto
    moreover obtain s' m' e' where "to_float (NInt n) = Inr (Finite s' m' e')"
        "float_value (Finite s' m' e') = of_int n"
      using to_float_small_int [of n] assms(1) int_float by (auto simp: numeric_domains_compatible_def)
    ultimately show ?thesis
      using int_float float_mul_rounded [of "Finite s' m' e'" s' m' e' f s m e] by simp
  next
    case float_int
    then obtain s m e where "f = Finite s m e" using fin [of f] assms(4) by auto
    moreover obtain s' m' e' where "to_float (NInt n) = Inr (Finite s' m' e')"
        "float_value (Finite s' m' e') = of_int n"
      using to_float_small_int [of n] assms(1) float_int by (auto simp: numeric_domains_compatible_def)
    ultimately show ?thesis
      using float_int float_mul_rounded [of f s m e "Finite s' m' e'" s' m' e'] by simp
  next
    case float_float
    then obtain s m e s' m' e' where "f = Finite s m e" "g = Finite s' m' e'"
      using fin [of f] fin [of g] assms(4,5) by auto
    then show ?thesis using float_float float_mul_rounded [of f s m e g s' m' e'] by simp
  next
    case no_float
    then show ?thesis
      using assms(1-3) by (cases a; cases b) (auto simp: numeric_domains_compatible_def)
  qed
qed

text \<open>
  Multiplying scale values never crosses number domains silently.  On two statically evaluable
  scalars the product is refused, with \<^verbatim>\<open>TypeError\<close>, exactly when their domains are incompatible;
  otherwise it is exact for integers, fractions and decimals, and for binary64 operands it is the
  exact product rounded once (an integer operand enters the float product unrounded).
\<close>

theorem multiply_exact_scalars_value:
  assumes "from_value l None None = Inr ll" "wf_literal ll" "exact_numeric_scalar l = Inr a"
    and "from_value r None None = Inr rl" "wf_literal rl" "exact_numeric_scalar r = Inr b"
  shows "if numeric_domains_compatible a b
         then \<exists>v. multiply_exact_scalars l r = Inr v \<and>
                (if (\<exists>f. a = NFloat f) \<or> (\<exists>f. b = NFloat f)
                 then rounded_product (number_value a * number_value b) v
                 else number_value v = number_value a * number_value b)
         else multiply_exact_scalars l r =
                Inl (TypeError ''cannot mix number domains without an explicit target conversion'')"
proof (cases "numeric_domains_compatible a b")
  case compat: True
  have fa: "case a of NFloat f \<Rightarrow> isfinite f | NDecimal d \<Rightarrow> is_finite_decimal d | _ \<Rightarrow> True"
    and fb: "case b of NFloat f \<Rightarrow> isfinite f | NDecimal d \<Rightarrow> is_finite_decimal d | _ \<Rightarrow> True"
    using from_value_finite assms by blast+
  show ?thesis
  proof (cases "is_decimal a \<or> is_decimal b")
    case True
    then have nf: "\<nexists>f. a = NFloat f" "\<nexists>f. b = NFloat f"
      using compat by (cases a; cases b; simp add: numeric_domains_compatible_def)+
    have "is_ok (decimal_parts a)" "is_ok (decimal_parts b)"
      using True compat fa fb
      by (cases a; cases b; simp add: decimal_parts_accepts numeric_domains_compatible_def)+
    then obtain d where d: "exact_decimal_multiply a b = Inr d"
      by (auto simp: exact_decimal_multiply_def is_ok_iff)
    with exact_decimal_multiply_value [OF d] True compat nf assms(3,6) show ?thesis
      by (simp add: multiply_exact_scalars_def)
  next
    case False
    then obtain v where "py_multiply a b = Inr v"
      "if (\<exists>f. a = NFloat f) \<or> (\<exists>f. b = NFloat f)
       then rounded_product (number_value a * number_value b) v
       else number_value v = number_value a * number_value b"
      using py_multiply_value [OF compat] fa fb by (cases a; cases b) fastforce+
    with False compat assms(3,6) show ?thesis by (simp add: multiply_exact_scalars_def)
  qed
qed (use assms(3,6) in \<open>simp add: multiply_exact_scalars_def\<close>)

theorem multiply_exact_scalars_value_witness:
  "\<exists>v. multiply_exact_scalars (VNumber (NInt 3)) (VNumber (NDecimal (Decimal False 1 (- 1)))) = Inr v
     \<and> number_value v = 3 / 10"
proof -
  let ?i = "\<lparr>lit_payload = Integer_lit 3, lit_unit = None, lit_target = None, lit_cpp = None\<rparr>"
  let ?d = "\<lparr>lit_payload = Decimal_lit (Decimal False 1 (- 1)), lit_unit = None, lit_target = None,
             lit_cpp = None\<rparr>"
  have "from_value (VNumber (NInt 3)) None None = Inr ?i"
    "exact_numeric_scalar (VNumber (NInt 3)) = Inr (NInt 3)"
    "from_value (VNumber (NDecimal (Decimal False 1 (- 1)))) None None = Inr ?d"
    "exact_numeric_scalar (VNumber (NDecimal (Decimal False 1 (- 1)))) = Inr (NDecimal (Decimal False 1 (- 1)))"
    "numeric_domains_compatible (NInt 3) (NDecimal (Decimal False 1 (- 1)))"
    by code_simp+
  moreover have "wf_literal ?i" "wf_literal ?d" by (simp_all add: wf_literal_def)
  ultimately show ?thesis
    using multiply_exact_scalars_value [of "VNumber (NInt 3)" ?i "NInt 3"
        "VNumber (NDecimal (Decimal False 1 (- 1)))" ?d "NDecimal (Decimal False 1 (- 1))"]
    by auto
qed

end
