(* ===== verification/Consumer_Effects.thy ===== *)
theory Consumer_Effects
  imports Typed_Identity "HOL-Library.AList"
begin

text \<open>
  The immutable values of the consumer layer: schedule cursors and the cursor set
  (\<^verbatim>\<open>pops/output/_consumer_contracts.py\<close>), and the payloads, side effects and effect plans of
  \<^verbatim>\<open>pops/runtime/_consumer_effects.py\<close>.  A frozen dataclass is a record, and \<^verbatim>\<open>__post_init__\<close> the
  constructor function \<open>mk_...\<close> that returns it or the exception.

  The fields have their annotated type, so the \<^verbatim>\<open>isinstance\<close> tests on them are not repeated.  The
  \<^verbatim>\<open>identity\<close> a value mints of its own payload is the result of a function argument \<open>mint\<close>, the
  \<^verbatim>\<open>make_identity\<close> of \<open>Typed_Identity\<close> on that payload.
\<close>

type_synonym pystr = "nat list"

subsection \<open>Field validators\<close>

text \<open>The code points \<^verbatim>\<open>str.strip\<close> removes.\<close>

definition is_space :: "nat \<Rightarrow> bool" where
  "is_space c \<longleftrightarrow> 9 \<le> c \<and> c \<le> 13 \<or> 28 \<le> c \<and> c \<le> 32 \<or> c \<in> {133, 160, 5760, 8232, 8233, 8239, 8287, 12288}
     \<or> 8192 \<le> c \<and> c \<le> 8202"

definition strip_text :: "pystr \<Rightarrow> pystr" where
  "strip_text s = rev (dropWhile is_space (rev (dropWhile is_space s)))"

definition check_text :: "pystr \<Rightarrow> pystr result" where
  "check_text s =
     (if s = [] \<or> strip_text s \<noteq> s then Inl (TypeError ''must be non-empty canonical text'') else Inr s)"

definition check_index :: "int \<Rightarrow> int result" where
  "check_index n = (if n < 0 then Inl (TypeError ''must be an integer >= 0'') else Inr n)"

definition check_identity :: "string \<Rightarrow> identity \<Rightarrow> identity result" where
  "check_identity d i =
     (if id_domain i \<noteq> ascii d then Inl (TypeError ''must be an exact Identity'') else Inr i)"

text \<open>\<^verbatim>\<open>values == tuple(sorted(set(values)))\<close>.\<close>

definition sorted_unique :: "'a::linorder list \<Rightarrow> bool" where
  "sorted_unique xs \<longleftrightarrow> xs = sort (remdups xs)"

lemma sorted_unique_iff: "sorted_unique xs \<longleftrightarrow> sorted xs \<and> distinct xs"
proof
  assume "sorted_unique xs"
  then have x: "xs = sort (remdups xs)" by (simp add: sorted_unique_def)
  have "sorted (sort (remdups xs))" "distinct (sort (remdups xs))" by simp_all
  then show "sorted xs \<and> distinct xs" using x by simp
qed (simp add: sorted_unique_def distinct_remdups_id sorted_sort_id)

lemma check_text_ok_iff:
  "is_ok (check_text s) \<longleftrightarrow> s \<noteq> [] \<and> \<not> is_space (hd s) \<and> \<not> is_space (last s)"
proof (cases "s = []")
  case False
  have "strip_text s = s \<longleftrightarrow> \<not> is_space (hd s) \<and> \<not> is_space (last s)"
  proof
    assume eq: "strip_text s = s"
    have len: "length (strip_text s) \<le> length (dropWhile is_space s)"
      by (simp add: strip_text_def length_dropWhile_le le_trans [OF length_dropWhile_le])
    then have "length (dropWhile is_space s) = length s"
      using eq length_dropWhile_le [of is_space s] by simp
    moreover have "length (takeWhile is_space s) + length (dropWhile is_space s) = length s"
      by (metis length_append takeWhile_dropWhile_id)
    ultimately have "takeWhile is_space s = []" by simp
    then have dw: "dropWhile is_space s = s" by (metis append_Nil takeWhile_dropWhile_id)
    then have "dropWhile is_space (rev s) = rev s" using eq by (simp add: strip_text_def rev_swap)
    then show "\<not> is_space (hd s) \<and> \<not> is_space (last s)"
      using dw False by (simp add: dropWhile_eq_self_iff hd_rev)
  next
    assume "\<not> is_space (hd s) \<and> \<not> is_space (last s)"
    then have "dropWhile is_space s = s" "dropWhile is_space (rev s) = rev s"
      using False by (simp_all add: dropWhile_eq_self_iff hd_rev)
    then show "strip_text s = s" by (simp add: strip_text_def)
  qed
  then show ?thesis using False by (simp add: check_text_def)
qed (simp add: check_text_def)

lemma hd_last_ascii: "s \<noteq> [] \<Longrightarrow> hd (ascii s) = of_char (hd s) \<and> last (ascii s) = of_char (last s)"
  by (simp add: ascii_def hd_map last_map)

subsection \<open>Consumer contracts\<close>

datatype parallel_mode = SERIAL | ROOT | COLLECTIVE | PER_RANK

datatype failure_action = FailRun | Retry int | SkipSampleReported

definition mk_retry :: "int \<Rightarrow> failure_action result" where
  "mk_retry n = (if n < 2 then Inl (ValueError ''Retry.max_attempts must be an integer >= 2'')
                 else Inr (Retry n))"

fun wf_action :: "failure_action \<Rightarrow> bool" where
  "wf_action (Retry n) = (2 \<le> n)"
| "wf_action _ = True"

record schedule_cursor =
  cur_consumer :: pystr
  cur_last :: "pystr option"
  cur_samples :: int

definition mk_cursor :: "pystr \<Rightarrow> pystr option \<Rightarrow> int \<Rightarrow> schedule_cursor result" where
  "mk_cursor consumer last_occurrence samples =
     bindE (check_text consumer) (\<lambda>_.
     bindE (case last_occurrence of None \<Rightarrow> Inr () | Some t \<Rightarrow> bindE (check_text t) (\<lambda>_. Inr ())) (\<lambda>_.
     bindE (check_index samples) (\<lambda>_.
       Inr \<lparr>cur_consumer = consumer, cur_last = last_occurrence, cur_samples = samples\<rparr>)))"

type_synonym cursor_set = "schedule_cursor list"

definition mk_cursor_set :: "schedule_cursor list \<Rightarrow> cursor_set result" where
  "mk_cursor_set rows =
     (let values = sort_key cur_consumer rows
      in if card (set (map cur_consumer values)) \<noteq> length values
         then Inl (ValueError ''ConsumerCursorSet contains duplicate consumer ids'')
         else Inr values)"

definition by_id :: "cursor_set \<Rightarrow> (pystr \<times> schedule_cursor) list" where
  "by_id cs = map (\<lambda>c. (cur_consumer c, c)) cs"

definition for_consumer :: "cursor_set \<Rightarrow> pystr \<Rightarrow> schedule_cursor result" where
  "for_consumer cs consumer =
     bindE (check_text consumer) (\<lambda>_.
       case map_of (by_id cs) consumer of
         Some c \<Rightarrow> Inr c
       | None \<Rightarrow> mk_cursor consumer None 0)"

text \<open>\<^verbatim>\<open>replace\<close>: the dictionary keeps the position of a key it already has; \<open>AList.update\<close> does too.\<close>

definition replace_cursor :: "cursor_set \<Rightarrow> schedule_cursor \<Rightarrow> cursor_set result" where
  "replace_cursor cs c = mk_cursor_set (map snd (AList.update (cur_consumer c) c (by_id cs)))"

definition wf_cursors :: "cursor_set \<Rightarrow> bool" where
  "wf_cursors cs \<longleftrightarrow> sorted (map cur_consumer cs) \<and> distinct (map cur_consumer cs)"

subsection \<open>Resources, fields, targets and payloads\<close>

text \<open>Frozen provider data: what \<^verbatim>\<open>freeze_data\<close> keeps of a strict JSON mapping.\<close>

datatype frozen =
    FNone | FBool bool | FInt int | FText pystr | FBytes "byte list" | FList "frozen list" | FMap "(pystr \<times> frozen) list"

record resource_binding =
  rb_quantity :: identity
  rb_reference :: pystr
  rb_resource :: pystr
  rb_layout :: pystr
  rb_levels :: "int list"
  rb_spaces :: "pystr list"
  rb_collectives :: "pystr list"

definition mk_resource_binding :: "resource_binding \<Rightarrow> resource_binding result" where
  "mk_resource_binding b =
     bindE (check_identity ''consumer-quantity'' (rb_quantity b)) (\<lambda>_.
     bindE (mapE check_text [rb_reference b, rb_resource b, rb_layout b]) (\<lambda>_.
     bindE (raise_if (\<not> sorted_unique (rb_levels b) \<or> list_ex (\<lambda>n. n < 0) (rb_levels b))
              (ValueError ''ConsumerResourceBinding.levels must be sorted unique integers >= 0'')) (\<lambda>_.
     bindE (raise_if (\<not> sorted_unique (rb_spaces b) \<or> [] \<in> set (rb_spaces b))
              (ValueError ''ConsumerResourceBinding.memory_spaces must be sorted unique text'')) (\<lambda>_.
     bindE (raise_if (\<not> sorted_unique (rb_collectives b) \<or> [] \<in> set (rb_collectives b))
              (ValueError ''ConsumerResourceBinding.collective_ids must be sorted unique text'')) (\<lambda>_.
     bindE (raise_if (rb_spaces b = [])
              (ValueError ''ConsumerResourceBinding.memory_spaces cannot be empty'')) (\<lambda>_.
       Inr b))))))"

record field_resolution =
  fr_quantity :: identity
  fr_context :: identity
  fr_action :: pystr
  fr_evidence :: "(pystr \<times> frozen) list"

definition mk_field_resolution :: "field_resolution \<Rightarrow> field_resolution result" where
  "mk_field_resolution r =
     bindE (check_identity ''consumer-quantity'' (fr_quantity r)) (\<lambda>_.
     bindE (raise_if (fr_action r \<notin> {ascii ''materialized'', ascii ''held'', ascii ''recompute''})
              (ValueError ''ConsumerFieldResolution.action is unsupported'')) (\<lambda>_.
       Inr r))"

record publication_target =
  pt_uri :: pystr
  pt_format :: "(pystr \<times> frozen) list option"
  pt_operation :: "(pystr \<times> frozen) list option"
  pt_mode :: parallel_mode

definition mk_publication_target :: "publication_target \<Rightarrow> publication_target result" where
  "mk_publication_target t =
     bindE (check_text (pt_uri t)) (\<lambda>_.
     bindE (raise_if (pt_format t \<noteq> None \<and> pt_operation t \<noteq> None)
              (ValueError ''PublicationTarget cannot mix scientific and restart providers'')) (\<lambda>_.
       Inr t))"

record consumer_payload =
  cp_runtime_plan :: identity
  cp_occurrence :: identity
  cp_resources :: "resource_binding list"
  cp_fields :: "field_resolution list"
  cp_identity :: identity

text \<open>\<open>mint\<close> is \<^verbatim>\<open>make_identity("consumer-payload", self._payload())\<close>.\<close>

definition mk_payload ::
  "(identity \<times> identity \<times> resource_binding list \<times> field_resolution list \<Rightarrow> identity result) \<Rightarrow>
   identity \<Rightarrow> identity \<Rightarrow> resource_binding list \<Rightarrow> field_resolution list \<Rightarrow> consumer_payload result" where
  "mk_payload mint runtime_plan occurrence resources flds =
     bindE (check_identity ''runtime-plan-bundle'' runtime_plan) (\<lambda>_.
     bindE (check_identity ''consumer-occurrence'' occurrence) (\<lambda>_.
     bindE (mint (runtime_plan, occurrence, resources, flds)) (\<lambda>i.
       Inr \<lparr>cp_runtime_plan = runtime_plan, cp_occurrence = occurrence, cp_resources = resources,
            cp_fields = flds, cp_identity = i\<rparr>)))"

subsection \<open>Side effects and effect plans\<close>

record side_effect =
  se_ordinal :: int
  se_consumer :: pystr
  se_manifest :: identity
  se_target :: publication_target
  se_payload :: consumer_payload
  se_action :: failure_action
  se_before :: schedule_cursor
  se_after :: schedule_cursor
  se_identity :: identity

text \<open>
  The constructor takes a record whose \<open>se_identity\<close> is not set yet and sets it; \<open>mint\<close> is
  \<^verbatim>\<open>make_identity("accepted-side-effect", self._payload())\<close>.
\<close>

definition mk_side_effect :: "(side_effect \<Rightarrow> identity result) \<Rightarrow> side_effect \<Rightarrow> side_effect result" where
  "mk_side_effect mint e =
     bindE (check_index (se_ordinal e)) (\<lambda>_.
     bindE (check_text (se_consumer e)) (\<lambda>_.
     bindE (check_identity ''consumer-manifest'' (se_manifest e)) (\<lambda>_.
     bindE (raise_if (cur_consumer (se_before e) \<noteq> se_consumer e \<or> cur_consumer (se_after e) \<noteq> se_consumer e)
              (ValueError ''AcceptedSideEffect cursor consumer ids disagree'')) (\<lambda>_.
     bindE (raise_if (cur_last (se_after e) \<noteq> Some (token (cp_occurrence (se_payload e)))
                      \<or> cur_samples (se_after e) \<noteq> cur_samples (se_before e) + 1)
              (ValueError ''AcceptedSideEffect cursor advancement is not the exact next sample'')) (\<lambda>_.
     bindE (mint e) (\<lambda>i. Inr (e\<lparr>se_identity := i\<rparr>)))))))"

record effect_plan =
  ep_graph :: identity
  ep_runtime_plan :: identity
  ep_effects :: "side_effect list"

definition mk_effect_plan :: "identity \<Rightarrow> identity \<Rightarrow> side_effect list \<Rightarrow> effect_plan result" where
  "mk_effect_plan graph runtime_plan effects =
     bindE (check_identity ''consumer-graph'' graph) (\<lambda>_.
     bindE (check_identity ''runtime-plan-bundle'' runtime_plan) (\<lambda>_.
     bindE (raise_if (map se_ordinal effects \<noteq> map int [0..<length effects])
              (ValueError ''EffectPlan effect ordinals must be contiguous'')) (\<lambda>_.
     bindE (raise_if (\<not> distinct (map (cp_identity \<circ> se_payload) effects))
              (ValueError ''EffectPlan contains a duplicate consumer payload'')) (\<lambda>_.
       Inr \<lparr>ep_graph = graph, ep_runtime_plan = runtime_plan, ep_effects = effects\<rparr>))))"

subsection \<open>Completion receipts and reports\<close>

record publication_receipt =
  pr_effect :: identity
  pr_payload :: identity
  pr_publisher :: pystr
  pr_artifact :: pystr
  pr_mode :: parallel_mode
  pr_ranks :: "(int \<times> pystr) list"

definition check_rank_row :: "int \<times> pystr \<Rightarrow> (int \<times> pystr) result" where
  "check_rank_row row =
     bindE (raise_if (fst row < 0) (TypeError ''PublicationReceipt artifact rank must be an integer >= 0'')) (\<lambda>_.
     bindE (check_text (snd row)) (\<lambda>_. Inr row))"

definition mk_receipt ::
  "identity \<Rightarrow> identity \<Rightarrow> pystr \<Rightarrow> pystr \<Rightarrow> parallel_mode \<Rightarrow> (int \<times> pystr) list \<Rightarrow> publication_receipt result" where
  "mk_receipt eff payload publisher artifact mode rank_artifacts =
     bindE (check_identity ''accepted-side-effect'' eff) (\<lambda>_.
     bindE (check_identity ''consumer-payload'' payload) (\<lambda>_.
     bindE (check_text publisher) (\<lambda>_.
     bindE (check_text artifact) (\<lambda>_.
     bindE (mapE check_rank_row (if rank_artifacts = [] then [(0, artifact)] else rank_artifacts)) (\<lambda>rows.
     let normalized = sort rows; ranks = map fst normalized in
     bindE (raise_if (card (set ranks) \<noteq> length normalized)
              (ValueError ''PublicationReceipt contains duplicate rank artifacts'')) (\<lambda>_.
     bindE (if mode = PER_RANK
            then raise_if (ranks = [] \<or> ranks \<noteq> map int [0..<length ranks])
                   (ValueError ''PER_RANK receipt must aggregate one artifact for every contiguous rank'')
            else raise_if (normalized \<noteq> [(0, artifact)])
                   (ValueError ''receipt must authenticate the sole shared rank-0 artifact'')) (\<lambda>_.
       Inr \<lparr>pr_effect = eff, pr_payload = payload, pr_publisher = publisher, pr_artifact = artifact,
            pr_mode = mode, pr_ranks = normalized\<rparr>)))))))"

record skipped_report =
  sk_effect :: identity
  sk_consumer :: pystr
  sk_phase :: pystr
  sk_attempts :: int
  sk_reason :: pystr

definition mk_skipped :: "identity \<Rightarrow> pystr \<Rightarrow> pystr \<Rightarrow> int \<Rightarrow> pystr \<Rightarrow> skipped_report result" where
  "mk_skipped eff consumer phase attempts reason =
     bindE (check_identity ''accepted-side-effect'' eff) (\<lambda>_.
     bindE (check_text consumer) (\<lambda>_.
     bindE (raise_if (phase \<notin> {ascii ''prepare'', ascii ''publish''})
              (ValueError ''SkippedSampleReport.phase must be prepare or publish'')) (\<lambda>_.
     bindE (raise_if (attempts < 1) (ValueError ''SkippedSampleReport.attempts must be positive'')) (\<lambda>_.
     bindE (check_text reason) (\<lambda>_.
       Inr \<lparr>sk_effect = eff, sk_consumer = consumer, sk_phase = phase, sk_attempts = attempts,
            sk_reason = reason\<rparr>)))))"

subsection \<open>Facts on the cursor set\<close>

lemma map_fst_by_id [simp]: "map fst (by_id cs) = map cur_consumer cs"
  by (simp add: by_id_def)

lemma by_id_keys: "(k, c) \<in> set (by_id cs) \<Longrightarrow> cur_consumer c = k"
  by (auto simp: by_id_def)

lemma update_by_id_keys:
  "(k, x) \<in> set (AList.update (cur_consumer c) c (by_id cs)) \<Longrightarrow> cur_consumer x = k"
  by (induction cs) (auto simp: by_id_def split: if_splits)

lemma update_by_id:
  "by_id (map snd (AList.update (cur_consumer c) c (by_id cs))) = AList.update (cur_consumer c) c (by_id cs)"
proof -
  have "(\<lambda>p. (cur_consumer (snd p), snd p)) p = p" if "p \<in> set (AList.update (cur_consumer c) c (by_id cs))" for p
    using update_by_id_keys that by (cases p) simp
  then have "map ((\<lambda>x. (cur_consumer x, x)) \<circ> snd) (AList.update (cur_consumer c) c (by_id cs))
      = AList.update (cur_consumer c) c (by_id cs)"
    by (intro map_idI) simp
  then show ?thesis by (simp add: by_id_def)
qed

lemma mk_cursor_set_ok_iff:
  "mk_cursor_set rows = Inr cs \<longleftrightarrow> distinct (map cur_consumer rows) \<and> cs = sort_key cur_consumer rows"
proof -
  have "card (set (map cur_consumer (sort_key cur_consumer rows))) = length (sort_key cur_consumer rows)
        \<longleftrightarrow> distinct (map cur_consumer rows)"
    by (metis card_distinct distinct_card distinct_map_sort_key length_map)
  then show ?thesis by (auto simp: mk_cursor_set_def Let_def)
qed

lemma map_of_by_id_sort:
  assumes "distinct (map cur_consumer rows)"
  shows "map_of (by_id (sort_key cur_consumer rows)) = map_of (by_id rows)"
  using assms by (subst map_of_inject_set) (auto simp: by_id_def comp_def)

lemma replace_cursor_ok:
  assumes "wf_cursors cs"
  shows "\<exists>cs'. replace_cursor cs c = Inr cs' \<and> wf_cursors cs'
           \<and> map_of (by_id cs') = (map_of (by_id cs))(cur_consumer c \<mapsto> c)"
proof -
  let ?rows = "map snd (AList.update (cur_consumer c) c (by_id cs))"
  have "map cur_consumer ?rows = map fst (by_id ?rows)" by simp
  also have "\<dots> = map fst (AList.update (cur_consumer c) c (by_id cs))" by (simp only: update_by_id)
  finally have keys: "map cur_consumer ?rows = map fst (AList.update (cur_consumer c) c (by_id cs))" .
  have "distinct (map fst (by_id cs))" using assms by (simp add: wf_cursors_def)
  then have "distinct (map cur_consumer ?rows)" unfolding keys by (rule distinct_update)
  then have ok: "replace_cursor cs c = Inr (sort_key cur_consumer ?rows)"
    by (simp add: replace_cursor_def mk_cursor_set_ok_iff)
  have "wf_cursors (sort_key cur_consumer ?rows)"
    using \<open>distinct (map cur_consumer ?rows)\<close> by (simp only: wf_cursors_def distinct_map_sort_key sorted_sort_key)
  moreover have "map_of (by_id (sort_key cur_consumer ?rows)) = (map_of (by_id cs))(cur_consumer c \<mapsto> c)"
    using map_of_by_id_sort [OF \<open>distinct (map cur_consumer ?rows)\<close>]
    by (simp add: update_by_id update_conv')
  ultimately show ?thesis using ok by blast
qed

subsection \<open>The cursor store as an interface\<close>

text \<open>
  What the planner and the transaction rely on: a store of records under their keys, in which writing a valid
  record succeeds, keeps the store valid and changes the record under that key only.
\<close>

locale cursor_store =
  fixes valid :: "'s \<Rightarrow> bool"
    and find :: "'s \<Rightarrow> 'k \<Rightarrow> 'c option"
    and put :: "'s \<Rightarrow> 'c \<Rightarrow> 'e + 's"
    and key :: "'c \<Rightarrow> 'k"
  assumes put_ok: "valid s \<Longrightarrow> \<exists>s'. put s c = Inr s' \<and> valid s' \<and> find s' = (find s)(key c \<mapsto> c)"
begin

lemma put_all_ok:
  assumes "valid s" "distinct (map key cs)"
  shows "\<exists>s'. foldE put cs s = Inr s' \<and> valid s' \<and> find s' = find s ++ map_of (map (\<lambda>c. (key c, c)) cs)"
  using assms
proof (induction cs arbitrary: s)
  case (Cons c cs)
  let ?rows = "map_of (map (\<lambda>c. (key c, c)) cs)"
  obtain s1 where s1: "put s c = Inr s1" "valid s1" "find s1 = (find s)(key c \<mapsto> c)"
    using put_ok [OF Cons.prems(1)] by blast
  obtain s' where s': "foldE put cs s1 = Inr s'" "valid s'" "find s' = find s1 ++ ?rows"
    using Cons.IH [OF s1(2)] Cons.prems(2) by auto
  have "key c \<notin> dom ?rows" using Cons.prems(2) by (simp add: dom_map_of_conv_image_fst image_image)
  note left = map_add_upd_left [OF this, of "find s" c]
  have "find s' = find s ++ map_of (map (\<lambda>c. (key c, c)) (c # cs))"
    unfolding s'(3) s1(3) left by (simp add: map_add_upd)
  moreover have "foldE put (c # cs) s = Inr s'" using s'(1) s1(1) by simp
  ultimately show ?case using s'(2) by blast
qed simp

lemma put_all_find:
  assumes "valid s" "distinct (map key cs)" "foldE put cs s = Inr s'"
  shows "c \<in> set cs \<Longrightarrow> find s' (key c) = Some c" and "k \<notin> key ` set cs \<Longrightarrow> find s' k = find s k"
proof -
  have f: "find s' = find s ++ map_of (map (\<lambda>c. (key c, c)) cs)" using put_all_ok [OF assms(1,2)] assms(3) by auto
  show "find s' (key c) = Some c" if "c \<in> set cs"
  proof -
    have "map_of (map (\<lambda>c. (key c, c)) cs) (key c) = Some c"
      using that assms(2) by (intro map_of_is_SomeI) (auto simp: comp_def)
    then show ?thesis using f by simp
  qed
  show "find s' k = find s k" if "k \<notin> key ` set cs"
  proof -
    have "map_of (map (\<lambda>c. (key c, c)) cs) k = None" using that by (auto simp: map_of_eq_None_iff image_image)
    then show ?thesis using f by (simp add: map_add_def)
  qed
qed

end

interpretation cursors: cursor_store wf_cursors "\<lambda>cs. map_of (by_id cs)" replace_cursor cur_consumer
  by unfold_locales (rule replace_cursor_ok)

end
