(* ===== verification/Consumer_Transaction.thy ===== *)
theory Consumer_Transaction
  imports Consumer_Effects
begin

text \<open>
  The prepare / accept / reject transaction of \<^verbatim>\<open>pops/runtime/_consumer_transaction.py\<close>.

  \<^item> The abstract classes \<^verbatim>\<open>ConsumerPublisher\<close> and \<^verbatim>\<open>PreparedPublication\<close> are the record \<open>publisher\<close>:
    one function per method, over a world \<open>'w\<close> (files, registries) and handles \<open>'p\<close> of preparations.
    A method that raises returns the exception, its class name and message, as a value.
  \<^item> The object \<^verbatim>\<open>ConsumerTransaction\<close> is the record \<open>transaction\<close>; each method maps it and the world to
    an outcome, the new record and the new world.
  \<^item> What a transaction promises is stated over an observation of the world, under the contract
    \<open>compensating_publisher\<close> the docstrings of the two abstract classes give.
\<close>

subsection \<open>The publisher interface\<close>

type_synonym exn = "pystr \<times> pystr"

record ('w, 'p) publisher =
  prepare_op :: "side_effect \<Rightarrow> 'w \<Rightarrow> (exn + 'p) \<times> 'w"
  effect_of :: "'p \<Rightarrow> identity"
  payload_of :: "'p \<Rightarrow> identity"
  publish_op :: "'p \<Rightarrow> 'w \<Rightarrow> (exn + publication_receipt) \<times> 'w"
  discard_op :: "'p \<Rightarrow> 'w \<Rightarrow> exn option \<times> 'w"
  rollback_op :: "'p \<Rightarrow> 'w \<Rightarrow> exn option \<times> 'w"
  finalize_op :: "'p \<Rightarrow> 'w \<Rightarrow> exn option \<times> 'w"
  recoveries_op :: "'p \<Rightarrow> 'w \<Rightarrow> exn + nat list"

subsection \<open>The transaction object\<close>

datatype tx_state = Preparing | Staged | Accepted | Rejected | Failed | Sealed

record 'p transaction =
  tx_plan :: effect_plan
  tx_initial :: cursor_set
  tx_prepared :: "(side_effect \<times> 'p \<times> int) list"
  tx_accepted :: "(side_effect \<times> 'p \<times> publication_receipt) list"
  tx_updates :: "schedule_cursor list"
  tx_skipped :: "skipped_report list"
  tx_finalize_pending :: "(side_effect \<times> 'p \<times> publication_receipt) list"
  tx_recoveries :: "nat list"
  tx_state :: tx_state

record tx_report =
  rp_status :: tx_state
  rp_cursors :: cursor_set
  rp_staged :: "pystr list"
  rp_published :: "publication_receipt list"
  rp_skipped :: "skipped_report list"
  rp_rolled_back :: "pystr list"
  rp_diagnostics :: "pystr list"

text \<open>How a method ends: it returns, raises \<^verbatim>\<open>ConsumerPublicationError\<close> with its report, or raises.\<close>

datatype 'a outcome = Returned 'a | Publication_error tx_report | Raised py_error

definition attempt_limit :: "side_effect \<Rightarrow> int" where
  "attempt_limit e = (case se_action e of Retry n \<Rightarrow> n | _ \<Rightarrow> 1)"

definition reason :: "exn option \<Rightarrow> pystr" where
  "reason x = (case x of None \<Rightarrow> ascii ''consumer publication failed without diagnostic''
     | Some (name, message) \<Rightarrow> name @ ascii '': '' @ message)"

definition authenticates :: "('w, 'p) publisher \<Rightarrow> side_effect \<Rightarrow> 'p \<Rightarrow> bool" where
  "authenticates pub e p \<longleftrightarrow>
     effect_of pub p = se_identity e \<and> payload_of pub p = cp_identity (se_payload e)"

definition prepared_mismatch :: exn where
  "prepared_mismatch = (ascii ''ValueError'',
     ascii ''prepared publication does not authenticate its exact effect payload'')"

function prepare_one ::
  "('w, 'p) publisher \<Rightarrow> side_effect \<Rightarrow> int \<Rightarrow> exn option \<Rightarrow> 'w \<Rightarrow> ('p option \<times> int \<times> exn option) \<times> 'w" where
  "prepare_one pub e attempts last_error w =
     (if attempts < attempt_limit e then
        (case prepare_op pub e w of
           (Inr p, w') \<Rightarrow>
             if authenticates pub e p then ((Some p, attempts + 1, None), w')
             else prepare_one pub e (attempts + 1) (Some prepared_mismatch) w'
         | (Inl x, w') \<Rightarrow> prepare_one pub e (attempts + 1) (Some x) w')
      else ((None, attempts, last_error), w))"
  by pat_completeness auto

termination
  by (relation "measure (\<lambda>(pub, e, attempts, l, w). nat (attempt_limit e - attempts))") auto

declare prepare_one.simps [simp del]

definition retain_recoveries ::
  "('w, 'p) publisher \<Rightarrow> 'p \<Rightarrow> nat list \<Rightarrow> 'w \<Rightarrow> pystr option \<times> nat list" where
  "retain_recoveries pub p recs w =
     (case recoveries_op pub p w of
        Inl x \<Rightarrow> (Some (ascii ''recovery ownership transfer failed: '' @ reason (Some x)), recs)
      | Inr rs \<Rightarrow> (None, foldl (\<lambda>known r. if r \<in> set known then known else known @ [r]) recs rs))"

definition join_failures :: "pystr option \<Rightarrow> pystr option \<Rightarrow> pystr option" where
  "join_failures failure recovery_failure =
     (case recovery_failure of None \<Rightarrow> failure
      | Some r \<Rightarrow> (case failure of None \<Rightarrow> Some r | Some f \<Rightarrow> Some (f @ ascii ''; '' @ r)))"

text \<open>\<^verbatim>\<open>_discard\<close> and \<^verbatim>\<open>_rollback\<close> differ in the method they call and its label.\<close>

definition release ::
  "('w, 'p) publisher \<Rightarrow> ('p \<Rightarrow> 'w \<Rightarrow> exn option \<times> 'w) \<Rightarrow> pystr \<Rightarrow> 'p \<Rightarrow> nat list \<Rightarrow> 'w \<Rightarrow>
   pystr option \<times> nat list \<times> 'w" where
  "release pub method label p recs w =
     (let (x, w') = method p w;
          failure = map_option (\<lambda>e. label @ reason (Some e)) x;
          (recovery_failure, recs') = retain_recoveries pub p recs w'
      in (join_failures failure recovery_failure, recs', w'))"

definition discard :: "('w, 'p) publisher \<Rightarrow> 'p \<Rightarrow> nat list \<Rightarrow> 'w \<Rightarrow> pystr option \<times> nat list \<times> 'w" where
  "discard pub = release pub (discard_op pub) (ascii ''discard failed: '')"

definition rollback :: "('w, 'p) publisher \<Rightarrow> 'p \<Rightarrow> nat list \<Rightarrow> 'w \<Rightarrow> pystr option \<times> nat list \<times> 'w" where
  "rollback pub = release pub (rollback_op pub) (ascii ''publication rollback failed: '')"

text \<open>The loop of \<^verbatim>\<open>_discard_staged\<close> and \<^verbatim>\<open>_rollback_accepted\<close>, on the list already reversed.\<close>

fun release_all ::
  "('p \<Rightarrow> nat list \<Rightarrow> 'w \<Rightarrow> pystr option \<times> nat list \<times> 'w) \<Rightarrow> (side_effect \<times> 'p \<times> 'x) list \<Rightarrow>
   nat list \<Rightarrow> 'w \<Rightarrow> pystr list \<times> pystr list \<times> nat list \<times> 'w" where
  "release_all rel [] recs w = ([], [], recs, w)"
| "release_all rel ((e, p, x) # rest) recs w =
     (let (failure, recs', w') = rel p recs w;
          (rolled_back, diagnostics, recs'', w'') = release_all rel rest recs' w'
      in case failure of
           None \<Rightarrow> (token (se_identity e) # rolled_back, diagnostics, recs'', w'')
         | Some f \<Rightarrow> (rolled_back, (se_consumer e @ ascii '': '' @ f) # diagnostics, recs'', w''))"

definition discard_staged ::
  "('w, 'p) publisher \<Rightarrow> 'p transaction \<Rightarrow> 'w \<Rightarrow> pystr list \<times> pystr list \<times> 'p transaction \<times> 'w" where
  "discard_staged pub tx w =
     (let (rolled_back, diagnostics, recs, w') =
            release_all (discard pub) (rev (tx_prepared tx)) (tx_recoveries tx) w
      in (rolled_back, diagnostics, tx\<lparr>tx_prepared := [], tx_recoveries := recs\<rparr>, w'))"

definition rollback_all_accepted ::
  "('w, 'p) publisher \<Rightarrow> 'p transaction \<Rightarrow> 'w \<Rightarrow> pystr list \<times> pystr list \<times> 'p transaction \<times> 'w" where
  "rollback_all_accepted pub tx w =
     (let (rolled_back, diagnostics, recs, w') =
            release_all (rollback pub) (rev (tx_accepted tx)) (tx_recoveries tx) w
      in (rolled_back, diagnostics,
          tx\<lparr>tx_accepted := [], tx_updates := [], tx_recoveries := recs\<rparr>, w'))"

definition staged_tokens :: "'p transaction \<Rightarrow> pystr list" where
  "staged_tokens tx = map (token \<circ> se_identity) (ep_effects (tx_plan tx))"

text \<open>\<^verbatim>\<open>_failed\<close>: discard what is still staged and build the error with its report.\<close>

definition fail_tx ::
  "('w, 'p) publisher \<Rightarrow> exn option \<Rightarrow> cursor_set \<Rightarrow> pystr list \<Rightarrow> pystr list \<Rightarrow> 'p transaction \<Rightarrow> 'w \<Rightarrow>
   'a outcome \<times> 'p transaction \<times> 'w" where
  "fail_tx pub error cursors diagnostics rolled_back tx w =
     (let (staged_rollback, cleanup, tx', w') = discard_staged pub tx w
      in (Publication_error
            \<lparr>rp_status = Failed, rp_cursors = cursors, rp_staged = staged_tokens tx', rp_published = [],
             rp_skipped = tx_skipped tx', rp_rolled_back = rolled_back @ staged_rollback,
             rp_diagnostics = diagnostics @ cleanup @ [reason error]\<rparr>,
          tx'\<lparr>tx_state := Failed\<rparr>, w'))"

fun prepare_all ::
  "('w, 'p) publisher \<Rightarrow> side_effect list \<Rightarrow> 'p transaction \<Rightarrow> 'w \<Rightarrow> unit outcome \<times> 'p transaction \<times> 'w" where
  "prepare_all pub [] tx w = (Returned (), tx, w)"
| "prepare_all pub (e # es) tx w =
     (case prepare_one pub e 0 None w of
        ((Some p, attempts, _), w') \<Rightarrow>
          prepare_all pub es (tx\<lparr>tx_prepared := tx_prepared tx @ [(e, p, attempts)]\<rparr>) w'
      | ((None, attempts, error), w') \<Rightarrow>
          if se_action e = SkipSampleReported then
            (case mk_skipped (se_identity e) (se_consumer e) (ascii ''prepare'') attempts (reason error) of
               Inl err \<Rightarrow> (Raised err, tx, w')
             | Inr s \<Rightarrow> prepare_all pub es (tx\<lparr>tx_skipped := tx_skipped tx @ [s]\<rparr>) w')
          else fail_tx pub error (tx_initial tx) [] [] tx w')"

definition stale_effect :: "cursor_set \<Rightarrow> side_effect \<Rightarrow> unit result" where
  "stale_effect cursors e =
     bindE (for_consumer cursors (se_consumer e)) (\<lambda>c.
       raise_if (c \<noteq> se_before e) (ValueError ''EffectPlan cursor snapshot is stale''))"

definition empty_transaction :: "effect_plan \<Rightarrow> cursor_set \<Rightarrow> 'p transaction" where
  "empty_transaction plan cursors =
     \<lparr>tx_plan = plan, tx_initial = cursors, tx_prepared = [], tx_accepted = [], tx_updates = [],
      tx_skipped = [], tx_finalize_pending = [], tx_recoveries = [], tx_state = Preparing\<rparr>"

definition new_transaction ::
  "('w, 'p) publisher \<Rightarrow> effect_plan \<Rightarrow> cursor_set \<Rightarrow> 'w \<Rightarrow> unit outcome \<times> 'p transaction \<times> 'w" where
  "new_transaction pub plan cursors w =
     (case mapE (stale_effect cursors) (ep_effects plan) of
        Inl err \<Rightarrow> (Raised err, empty_transaction plan cursors, w)
      | Inr _ \<Rightarrow>
        (case prepare_all pub (ep_effects plan) (empty_transaction plan cursors) w of
           (Returned u, tx, w') \<Rightarrow> (Returned u, tx\<lparr>tx_state := Staged\<rparr>, w')
         | r \<Rightarrow> r))"

definition already_resolved :: py_error where
  "already_resolved = RuntimeError ''ConsumerTransaction is already resolved''"

definition resolved_report :: "'p transaction \<Rightarrow> pystr list \<Rightarrow> pystr list \<Rightarrow> tx_report" where
  "resolved_report tx rolled_back diagnostics =
     \<lparr>rp_status = (if diagnostics = [] then Rejected else Failed), rp_cursors = tx_initial tx,
      rp_staged = staged_tokens tx, rp_published = [], rp_skipped = tx_skipped tx,
      rp_rolled_back = rolled_back, rp_diagnostics = diagnostics\<rparr>"

text \<open>The end of \<^verbatim>\<open>reject\<close> and \<^verbatim>\<open>rollback_accepted\<close>.\<close>

definition resolve ::
  "pystr list \<times> pystr list \<times> 'p transaction \<times> 'w \<Rightarrow> tx_report outcome \<times> 'p transaction \<times> 'w" where
  "resolve r =
     (case r of (rolled_back, diagnostics, tx, w) \<Rightarrow>
        let report = resolved_report tx rolled_back diagnostics
        in (if diagnostics = [] then Returned report else Publication_error report,
            tx\<lparr>tx_state := rp_status report\<rparr>, w))"

definition reject :: "('w, 'p) publisher \<Rightarrow> 'p transaction \<Rightarrow> 'w \<Rightarrow> tx_report outcome \<times> 'p transaction \<times> 'w" where
  "reject pub tx w =
     (if tx_state tx \<noteq> Staged then (Raised already_resolved, tx, w)
      else resolve (discard_staged pub tx w))"

subsection \<open>Acceptance\<close>

definition receipt_mismatch :: exn where
  "receipt_mismatch = (ascii ''ValueError'',
     ascii ''PublicationReceipt does not authenticate its exact effect payload'')"

definition receipt_mode_mismatch :: exn where
  "receipt_mode_mismatch = (ascii ''ValueError'',
     ascii ''PublicationReceipt parallel mode differs from its accepted target'')"

text \<open>The guarded body of the loop: \<^verbatim>\<open>publish\<close> and the checks on its receipt.\<close>

definition publish_checked ::
  "('w, 'p) publisher \<Rightarrow> side_effect \<Rightarrow> 'p \<Rightarrow> 'w \<Rightarrow> (exn + publication_receipt) \<times> 'w" where
  "publish_checked pub e p w =
     (case publish_op pub p w of
        (Inl x, w') \<Rightarrow> (Inl x, w')
      | (Inr r, w') \<Rightarrow>
          if pr_effect r \<noteq> se_identity e \<or> pr_payload r \<noteq> cp_identity (se_payload e)
          then (Inl receipt_mismatch, w')
          else if pr_mode r \<noteq> pt_mode (se_target e) then (Inl receipt_mode_mismatch, w')
          else (Inr r, w'))"

text \<open>Giving up: what is still pending is staged again, the accepted effects are rolled back.\<close>

definition abandon ::
  "('w, 'p) publisher \<Rightarrow> exn option \<Rightarrow> pystr list \<Rightarrow> pystr list \<Rightarrow>
   (side_effect \<times> 'p \<times> int) list \<Rightarrow> 'p transaction \<Rightarrow> 'w \<Rightarrow> 'a outcome \<times> 'p transaction \<times> 'w" where
  "abandon pub error cleanup rolled_back pending tx w =
     (let (accepted_rollback, accepted_cleanup, tx', w') =
            rollback_all_accepted pub (tx\<lparr>tx_prepared := tx_prepared tx @ pending\<rparr>) w
      in fail_tx pub error (tx_initial tx) (cleanup @ accepted_cleanup)
           (rolled_back @ accepted_rollback) tx' w')"

definition option_list :: "'a option \<Rightarrow> 'a list" where
  "option_list x = (case x of None \<Rightarrow> [] | Some y \<Rightarrow> [y])"

fun is_retry :: "failure_action \<Rightarrow> bool" where
  "is_retry (Retry n) = True"
| "is_retry _ = False"

lemma prepare_one_cases:
  assumes "prepare_one pub e a l w = ((r, a', x), w')"
  obtains (stop) "\<not> a < attempt_limit e" "r = None" "a' = a" "x = l" "w' = w"
  | (found) p where "a < attempt_limit e" "prepare_op pub e w = (Inr p, w')" "authenticates pub e p"
      "r = Some p" "a' = a + 1" "x = None"
  | (again) l1 w1 where "a < attempt_limit e"
      "(\<exists>y. prepare_op pub e w = (Inl y, w1) \<and> l1 = Some y)
       \<or> (\<exists>q. prepare_op pub e w = (Inr q, w1) \<and> \<not> authenticates pub e q \<and> l1 = Some prepared_mismatch)"
      "prepare_one pub e (a + 1) l1 w1 = ((r, a', x), w')"
  using assms
  by (subst (asm) prepare_one.simps) (auto split: if_splits prod.splits sum.splits)

lemma prepare_one_attempts:
  "prepare_one pub e a l w = ((r, a', x), w') \<Longrightarrow>
     a \<le> a' \<and> a' \<le> max a (attempt_limit e) \<and> (r \<noteq> None \<longrightarrow> a < a')
     \<and> (a < attempt_limit e \<longrightarrow> a < a') \<and> (r = None \<and> (a < attempt_limit e \<or> l \<noteq> None) \<longrightarrow> x \<noteq> None)"
proof (induction "nat (attempt_limit e - a)" arbitrary: a l w rule: less_induct)
  case less
  from less.prems show ?case
  proof (cases rule: prepare_one_cases)
    case (again l1 w1)
    from less.hyps [OF _ again(3)] again(1,2) show ?thesis by auto
  qed auto
qed

text \<open>
  One turn of the loop of \<^verbatim>\<open>accept\<close>: it goes on with new local variables (\<^verbatim>\<open>cursors\<close>, \<^verbatim>\<open>published\<close>,
  \<^verbatim>\<open>pending\<close>) or leaves the method.
\<close>

datatype ('p, 'w) turn =
    Next cursor_set "publication_receipt list" "(side_effect \<times> 'p \<times> int) list" "'p transaction" 'w
  | Stop "tx_report outcome \<times> 'p transaction \<times> 'w"

text \<open>The \<^verbatim>\<open>except\<close> branch after the rollback of the failed publication, once no retry is left.\<close>

definition give_up ::
  "('w, 'p) publisher \<Rightarrow> cursor_set \<Rightarrow> publication_receipt list \<Rightarrow> side_effect \<Rightarrow> int \<Rightarrow> exn option \<Rightarrow>
   pystr option \<Rightarrow> (side_effect \<times> 'p \<times> int) list \<Rightarrow> 'p transaction \<Rightarrow> 'w \<Rightarrow> ('p, 'w) turn" where
  "give_up pub cursors published e attempts error cleanup pending tx w =
     (if se_action e = SkipSampleReported then
        (case mk_skipped (se_identity e) (se_consumer e) (ascii ''publish'') attempts (reason error) of
           Inl err \<Rightarrow> Stop (Raised err, tx, w)
         | Inr s \<Rightarrow>
             (let tx' = tx\<lparr>tx_skipped := tx_skipped tx @ [s]\<rparr>
              in if cleanup \<noteq> None
                 then Stop (abandon pub error (option_list cleanup) [] pending tx' w)
                 else Next cursors published pending tx' w))
      else Stop (abandon pub error (option_list cleanup)
                   (if cleanup = None then [token (se_identity e)] else []) pending tx w))"

definition accept_turn ::
  "('w, 'p) publisher \<Rightarrow> cursor_set \<Rightarrow> publication_receipt list \<Rightarrow> side_effect \<Rightarrow> 'p \<Rightarrow> int \<Rightarrow>
   (side_effect \<times> 'p \<times> int) list \<Rightarrow> 'p transaction \<Rightarrow> 'w \<Rightarrow> ('p, 'w) turn" where
  "accept_turn pub cursors published e p attempts pending tx w =
     (case publish_checked pub e p w of
        (Inr receipt, w1) \<Rightarrow>
          (let tx' = tx\<lparr>tx_accepted := tx_accepted tx @ [(e, p, receipt)]\<rparr>
           in case replace_cursor cursors (se_after e) of
                Inl err \<Rightarrow> Stop (Raised err, tx', w1)
              | Inr cursors' \<Rightarrow> Next cursors' (published @ [receipt]) pending tx' w1)
      | (Inl x, w1) \<Rightarrow>
          (let (cleanup, recs, w2) = rollback pub p (tx_recoveries tx) w1;
               tx1 = tx\<lparr>tx_recoveries := recs\<rparr>
           in if cleanup = None \<and> is_retry (se_action e) \<and> attempts < attempt_limit e then
                (case prepare_one pub e attempts None w2 of
                   ((Some replacement, attempts', _), w3) \<Rightarrow>
                     Next cursors published ((e, replacement, attempts') # pending) tx1 w3
                 | ((None, attempts', error), w3) \<Rightarrow>
                     give_up pub cursors published e attempts' error cleanup pending tx1 w3)
              else give_up pub cursors published e attempts (Some x) cleanup pending tx1 w2))"

definition attempts_left :: "(side_effect \<times> 'p \<times> int) list \<Rightarrow> nat" where
  "attempts_left pending = sum_list (map (\<lambda>(e, p, a). Suc (nat (attempt_limit e - a))) pending)"

lemma give_up_next:
  "give_up pub c pb e a x cl pending tx w = Next c' pb' pending' tx' w' \<Longrightarrow>
     c' = c \<and> pb' = pb \<and> pending' = pending \<and> w' = w \<and> cl = None \<and> se_action e = SkipSampleReported
     \<and> (\<exists>s. mk_skipped (se_identity e) (se_consumer e) (ascii ''publish'') a (reason x) = Inr s
          \<and> tx' = tx\<lparr>tx_skipped := tx_skipped tx @ [s]\<rparr>)"
  by (auto simp: give_up_def Let_def split: if_splits sum.splits)

text \<open>The ways one turn can go on.\<close>

lemma accept_turn_next:
  assumes "accept_turn pub cursors published e p a pending tx w = Next cursors' published' pending' tx' w'"
  obtains
    (published) receipt where
      "publish_checked pub e p w = (Inr receipt, w')" "replace_cursor cursors (se_after e) = Inr cursors'"
      "published' = published @ [receipt]" "pending' = pending"
      "tx' = tx\<lparr>tx_accepted := tx_accepted tx @ [(e, p, receipt)]\<rparr>"
  | (retried) x w1 recs w2 q a' y where
      "publish_checked pub e p w = (Inl x, w1)" "rollback pub p (tx_recoveries tx) w1 = (None, recs, w2)"
      "is_retry (se_action e)" "a < attempt_limit e"
      "prepare_one pub e a None w2 = ((Some q, a', y), w')"
      "cursors' = cursors" "published' = published" "pending' = (e, q, a') # pending"
      "tx' = tx\<lparr>tx_recoveries := recs\<rparr>"
  | (skipped) x w1 recs s where
      "publish_checked pub e p w = (Inl x, w1)" "rollback pub p (tx_recoveries tx) w1 = (None, recs, w')"
      "se_action e = SkipSampleReported"
      "mk_skipped (se_identity e) (se_consumer e) (ascii ''publish'') a (reason (Some x)) = Inr s"
      "cursors' = cursors" "published' = published" "pending' = pending"
      "tx' = tx\<lparr>tx_recoveries := recs, tx_skipped := tx_skipped tx @ [s]\<rparr>"
proof -
  obtain pr w1 where pr: "publish_checked pub e p w = (pr, w1)" by fastforce
  show thesis
  proof (cases pr)
    case (Inr receipt)
    then show thesis
      using assms pr published by (auto simp: accept_turn_def Let_def split: sum.splits)
  next
    case (Inl x)
    obtain cleanup recs w2 where rb: "rollback pub p (tx_recoveries tx) w1 = (cleanup, recs, w2)"
      by (metis prod_cases3)
    show thesis
    proof (cases "cleanup = None \<and> is_retry (se_action e) \<and> a < attempt_limit e")
      case True
      obtain q a' y w3 where po: "prepare_one pub e a None w2 = ((q, a', y), w3)"
        by (metis prod_cases3 surj_pair)
      show thesis
      proof (cases q)
        case None
        then have "give_up pub cursors published e a' y cleanup pending (tx\<lparr>tx_recoveries := recs\<rparr>) w3
            = Next cursors' published' pending' tx' w'"
          using assms pr rb po True Inl by (simp add: accept_turn_def Let_def)
        from give_up_next [OF this] show thesis using True by simp
      next
        case (Some q')
        then show thesis
          using assms pr rb po True Inl retried by (simp add: accept_turn_def Let_def)
      qed
    next
      case False
      then have "give_up pub cursors published e a (Some x) cleanup pending (tx\<lparr>tx_recoveries := recs\<rparr>) w2
          = Next cursors' published' pending' tx' w'"
        using assms pr rb Inl by (simp add: accept_turn_def Let_def split: if_splits)
      from give_up_next [OF this] obtain s where s: "cursors' = cursors" "published' = published"
        "pending' = pending" "w' = w2" "cleanup = None" "se_action e = SkipSampleReported"
        "mk_skipped (se_identity e) (se_consumer e) (ascii ''publish'') a (reason (Some x)) = Inr s"
        "tx' = tx\<lparr>tx_recoveries := recs, tx_skipped := tx_skipped tx @ [s]\<rparr>" by auto
      show thesis
        by (rule skipped [OF pr [unfolded Inl] _ s(6,7,1,2,3,8)]) (simp add: rb s)
    qed
  qed
qed

lemma accept_turn_measure:
  assumes "accept_turn pub cursors published e p a pending tx w = Next cursors' published' pending' tx' w'"
  shows "attempts_left pending' < attempts_left ((e, p, a) # pending)"
  using assms
proof (cases rule: accept_turn_next)
  case (retried x w1 recs w2 q a' y)
  then show ?thesis using prepare_one_attempts [OF retried(5)] by (auto simp: attempts_left_def)
qed (simp_all add: attempts_left_def)

function accept_loop ::
  "('w, 'p) publisher \<Rightarrow> cursor_set \<Rightarrow> publication_receipt list \<Rightarrow> (side_effect \<times> 'p \<times> int) list \<Rightarrow>
   'p transaction \<Rightarrow> 'w \<Rightarrow> tx_report outcome \<times> 'p transaction \<times> 'w" where
  "accept_loop pub cursors published [] tx w =
     (Returned \<lparr>rp_status = Accepted, rp_cursors = cursors, rp_staged = staged_tokens tx,
        rp_published = published, rp_skipped = tx_skipped tx, rp_rolled_back = [], rp_diagnostics = []\<rparr>,
      tx\<lparr>tx_state := Accepted, tx_updates := map (se_after \<circ> fst) (tx_accepted tx)\<rparr>, w)"
| "accept_loop pub cursors published ((e, p, attempts) # pending) tx w =
     (case accept_turn pub cursors published e p attempts pending tx w of
        Stop r \<Rightarrow> r
      | Next cursors' published' pending' tx' w' \<Rightarrow> accept_loop pub cursors' published' pending' tx' w')"
  by pat_completeness auto

termination
  by (relation "measure (\<lambda>(pub, cursors, published, pending, tx, w). attempts_left pending)")
    (auto intro: accept_turn_measure)

declare accept_loop.simps(2) [simp del]

definition accept :: "('w, 'p) publisher \<Rightarrow> 'p transaction \<Rightarrow> 'w \<Rightarrow> tx_report outcome \<times> 'p transaction \<times> 'w" where
  "accept pub tx w =
     (if tx_state tx \<noteq> Staged then (Raised already_resolved, tx, w)
      else accept_loop pub (tx_initial tx) [] (tx_prepared tx) (tx\<lparr>tx_prepared := []\<rparr>) w)"

definition cursor_updates :: "'p transaction \<Rightarrow> schedule_cursor list result" where
  "cursor_updates tx =
     bindE (raise_if (tx_state tx \<notin> {Accepted, Sealed})
              (RuntimeError ''consumer cursor updates exist only after acceptance'')) (\<lambda>_.
       Inr (tx_updates tx))"

definition rollback_accepted ::
  "('w, 'p) publisher \<Rightarrow> 'p transaction \<Rightarrow> 'w \<Rightarrow> tx_report outcome \<times> 'p transaction \<times> 'w" where
  "rollback_accepted pub tx w =
     (if tx_state tx \<noteq> Accepted
      then (Raised (RuntimeError ''ConsumerTransaction has no accepted publication to roll back''), tx, w)
      else resolve (rollback_all_accepted pub tx w))"

subsection \<open>Sealing\<close>

text \<open>
  The release loop of \<^verbatim>\<open>seal\<close>: an owner whose finalizer or recovery transfer fails stays pending, once.
\<close>

fun finalize_loop ::
  "('w, 'p) publisher \<Rightarrow> (side_effect \<times> 'p \<times> publication_receipt) list \<Rightarrow> nat list \<Rightarrow> 'w \<Rightarrow>
   (side_effect \<times> 'p \<times> publication_receipt) list \<times> pystr list \<times> nat list \<times> 'w" where
  "finalize_loop pub [] recs w = ([], [], recs, w)"
| "finalize_loop pub ((e, p, r) # rest) recs w =
     (let (x, w1) = finalize_op pub p w;
          (recovery_failure, recs1) = retain_recoveries pub p recs w1;
          (pending, failures, recs2, w2) = finalize_loop pub rest recs1 w1
      in ((if x \<noteq> None \<or> recovery_failure \<noteq> None then [(e, p, r)] else []) @ pending,
          map (\<lambda>f. se_consumer e @ ascii '': '' @ reason (Some f)) (option_list x)
            @ map (\<lambda>f. se_consumer e @ ascii '': '' @ f) (option_list recovery_failure) @ failures,
          recs2, w2))"

definition seal :: "('w, 'p) publisher \<Rightarrow> 'p transaction \<Rightarrow> 'w \<Rightarrow> pystr list outcome \<times> 'p transaction \<times> 'w" where
  "seal pub tx w =
     (if tx_state tx \<notin> {Accepted, Sealed}
      then (Raised (RuntimeError ''only an accepted ConsumerTransaction can be sealed''), tx, w)
      else
        (let tx1 = (if tx_state tx = Accepted
                    then tx\<lparr>tx_finalize_pending := tx_accepted tx, tx_accepted := [], tx_state := Sealed\<rparr>
                    else tx);
             (pending, failures, recs, w') =
               finalize_loop pub (tx_finalize_pending tx1) (tx_recoveries tx1) w
         in (Returned failures, tx1\<lparr>tx_finalize_pending := pending, tx_recoveries := recs\<rparr>, w')))"

definition abort ::
  "('w, 'p) publisher \<Rightarrow> 'p transaction \<Rightarrow> 'w \<Rightarrow> tx_report option outcome \<times> 'p transaction \<times> 'w" where
  "abort pub tx w =
     (let wrap = (\<lambda>(r, tx', w'). (case r of Returned x \<Rightarrow> Returned (Some x)
                    | Publication_error x \<Rightarrow> Publication_error x | Raised x \<Rightarrow> Raised x, tx', w'))
      in if tx_state tx = Staged then wrap (reject pub tx w)
         else if tx_state tx = Accepted then wrap (rollback_accepted pub tx w)
         else (Returned None, tx, w))"

subsection \<open>The contract of a publisher\<close>

text \<open>
  What the docstrings of \<^verbatim>\<open>PreparedPublication\<close> promise.  \<open>obs\<close> observes the published state key by
  key, a preparation \<open>p\<close> may change the keys \<open>footprint p\<close> only, and remembers in \<open>saved p\<close> what they
  held when it was prepared.  A failed \<^verbatim>\<open>publish\<close> either still owns its artifact (\<open>Live\<close>) or has
  removed it already (\<open>Dead\<close>).
\<close>

datatype pub_status = Unused | Fresh | Live | Dead

definition same_outside :: "'k set \<Rightarrow> ('k \<Rightarrow> 'v) \<Rightarrow> ('k \<Rightarrow> 'v) \<Rightarrow> bool" where
  "same_outside S f g \<longleftrightarrow> (\<forall>k. k \<notin> S \<longrightarrow> f k = g k)"

locale compensating_publisher =
  fixes pub :: "('w, 'p) publisher"
    and inv :: "'w \<Rightarrow> bool"
    and obs :: "'w \<Rightarrow> 'k \<Rightarrow> 'v"
    and status :: "'w \<Rightarrow> 'p \<Rightarrow> pub_status"
    and footprint :: "'p \<Rightarrow> 'k set"
    and saved :: "'p \<Rightarrow> 'k \<Rightarrow> 'v"
  assumes prepare_ok: "inv w \<Longrightarrow> prepare_op pub e w = (Inr p, w') \<Longrightarrow>
      inv w' \<and> obs w' = obs w \<and> status w p = Unused \<and> status w' = (status w)(p := Fresh)
      \<and> (\<forall>k\<in>footprint p. saved p k = obs w k)"
    and prepare_fail: "inv w \<Longrightarrow> prepare_op pub e w = (Inl x, w') \<Longrightarrow>
      inv w' \<and> obs w' = obs w \<and> status w' = status w"
    and publish_ok: "inv w \<Longrightarrow> status w p = Fresh \<Longrightarrow> publish_op pub p w = (Inr r, w') \<Longrightarrow>
      inv w' \<and> same_outside (footprint p) (obs w') (obs w) \<and> status w' = (status w)(p := Live)"
    and publish_fail: "inv w \<Longrightarrow> status w p = Fresh \<Longrightarrow> publish_op pub p w = (Inl x, w') \<Longrightarrow>
      inv w' \<and> same_outside (footprint p) (obs w') (obs w) \<and>
      (status w' = (status w)(p := Live) \<or>
       status w' = (status w)(p := Dead) \<and> (\<forall>k\<in>footprint p. obs w' k = saved p k))"
    and rollback_live: "inv w \<Longrightarrow> status w p = Live \<Longrightarrow> rollback_op pub p w = (None, w') \<Longrightarrow>
      inv w' \<and> obs w' = override_on (obs w) (saved p) (footprint p) \<and> status w' = (status w)(p := Dead)"
    and rollback_dead: "inv w \<Longrightarrow> status w p = Dead \<Longrightarrow> rollback_op pub p w = (y, w') \<Longrightarrow>
      inv w' \<and> obs w' = obs w \<and> status w' = status w"
    and rollback_fail: "inv w \<Longrightarrow> status w p = Live \<Longrightarrow> rollback_op pub p w = (Some x, w') \<Longrightarrow>
      inv w' \<and> same_outside (footprint p) (obs w') (obs w) \<and> (\<exists>s. s \<noteq> Unused \<and> status w' = (status w)(p := s))"
    and discard_fresh: "inv w \<Longrightarrow> status w p = Fresh \<Longrightarrow> discard_op pub p w = (y, w') \<Longrightarrow>
      inv w' \<and> obs w' = obs w \<and> (\<exists>s. s \<noteq> Unused \<and> status w' = (status w)(p := s))"
    and finalize_live: "inv w \<Longrightarrow> status w p = Live \<Longrightarrow> finalize_op pub p w = (y, w') \<Longrightarrow>
      inv w' \<and> obs w' = obs w \<and> status w' = status w"

text \<open>
  Undoing a log of publications, latest first, and the condition under which it restores \<open>before\<close>:
  the earliest entry of a key saved the value of \<open>before\<close>.
\<close>

fun undo_log :: "('p \<Rightarrow> 'k set) \<Rightarrow> ('p \<Rightarrow> 'k \<Rightarrow> 'v) \<Rightarrow> 'p list \<Rightarrow> ('k \<Rightarrow> 'v) \<Rightarrow> 'k \<Rightarrow> 'v" where
  "undo_log footprint saved [] f = f"
| "undo_log footprint saved (p # ps) f = undo_log footprint saved ps (override_on f (saved p) (footprint p))"

fun sound_log :: "('p \<Rightarrow> 'k set) \<Rightarrow> ('p \<Rightarrow> 'k \<Rightarrow> 'v) \<Rightarrow> ('k \<Rightarrow> 'v) \<Rightarrow> 'p list \<Rightarrow> bool" where
  "sound_log footprint saved before [] = True"
| "sound_log footprint saved before (p # ps) \<longleftrightarrow>
     sound_log footprint saved before ps \<and>
     (\<forall>k\<in>footprint p. k \<notin> \<Union> (footprint ` set ps) \<longrightarrow> saved p k = before k)"

lemma undo_sound_log:
  assumes "sound_log fp sv before ps" and "same_outside (\<Union> (fp ` set ps)) f before"
  shows "undo_log fp sv ps f = before"
  using assms
proof (induction ps arbitrary: f)
  case Nil
  then show ?case by (auto simp: same_outside_def)
next
  case (Cons p ps)
  have "same_outside (\<Union> (fp ` set ps)) (override_on f (sv p) (fp p)) before"
    using Cons.prems by (auto simp: same_outside_def override_on_def)
  with Cons show ?case by simp
qed

definition handles :: "(side_effect \<times> 'p \<times> 'x) list \<Rightarrow> 'p list" where
  "handles xs = map (fst \<circ> snd) xs"

lemma handles_simps [simp]:
  "handles [] = []" "handles ((e, p, x) # xs) = p # handles xs"
  "handles (xs @ ys) = handles xs @ handles ys" "handles (rev xs) = rev (handles xs)"
  by (auto simp: handles_def rev_map)

context compensating_publisher
begin

lemma prepare_one_obs:
  assumes "inv w" and "prepare_one pub e a l w = ((r, a', x), w')"
  shows "inv w' \<and> obs w' = obs w \<and> (\<forall>q. status w q \<noteq> Unused \<longrightarrow> status w' q = status w q) \<and>
     (case r of None \<Rightarrow> True
      | Some p \<Rightarrow> status w p = Unused \<and> status w' p = Fresh \<and> (\<forall>k\<in>footprint p. saved p k = obs w k))"
  using assms
proof (induction "nat (attempt_limit e - a)" arbitrary: a l w rule: less_induct)
  case less
  from less.prems(2) show ?case
  proof (cases rule: prepare_one_cases)
    case stop
    then show ?thesis using less.prems by simp
  next
    case (found p)
    then show ?thesis using prepare_ok [OF less.prems(1) found(2)] by auto
  next
    case (again l1 w1)
    have step: "inv w1 \<and> obs w1 = obs w \<and> (\<forall>q. status w q \<noteq> Unused \<longrightarrow> status w1 q = status w q)"
      using again(2) prepare_ok [OF less.prems(1)] prepare_fail [OF less.prems(1)] by fastforce
    then show ?thesis
      using less.hyps [OF _ _ again(3)] again(1) by (fastforce split: option.splits)
  qed
qed

end

lemma release_method: "release pub m label p recs w = (f, recs', w') \<Longrightarrow> \<exists>x. m p w = (x, w') \<and> (f = None \<longrightarrow> x = None)"
  by (auto simp: release_def join_failures_def Let_def split: prod.splits option.splits)

context compensating_publisher
begin

lemma discard_obs:
  assumes "inv w" "status w p = Fresh" "discard pub p recs w = (f, recs', w')"
  shows "inv w' \<and> obs w' = obs w \<and> (\<exists>s. s \<noteq> Unused \<and> status w' = (status w)(p := s))"
  using release_method [OF assms(3) [unfolded discard_def]] discard_fresh [OF assms(1,2)] by blast

lemma rollback_obs:
  assumes "inv w" "status w p = Live" "rollback pub p recs w = (f, recs', w')"
  shows "inv w' \<and> same_outside (footprint p) (obs w') (obs w)
     \<and> (\<exists>s. s \<noteq> Unused \<and> status w' = (status w)(p := s))
     \<and> (f = None \<longrightarrow> obs w' = override_on (obs w) (saved p) (footprint p))"
proof -
  obtain x where x: "rollback_op pub p w = (x, w')" "f = None \<longrightarrow> x = None"
    using release_method [OF assms(3) [unfolded rollback_def]] by blast
  show ?thesis
  proof (cases x)
    case None
    then show ?thesis
      using rollback_live [OF assms(1,2)] x by (auto simp: same_outside_def override_on_def)
  next
    case (Some y)
    then show ?thesis using rollback_fail [OF assms(1,2)] x by auto
  qed
qed

lemma release_all_discard:
  assumes "inv w" "distinct (handles xs)" "\<forall>p\<in>set (handles xs). status w p = Fresh"
    and "release_all (discard pub) xs recs w = (rb, ds, recs', w')"
  shows "inv w' \<and> obs w' = obs w"
  using assms
proof (induction xs arbitrary: recs w rb ds recs' w')
  case (Cons a xs)
  obtain e p x where a: "a = (e, p, x)" by (metis prod_cases3)
  obtain f recs1 w1 where d: "discard pub p recs w = (f, recs1, w1)" by (metis prod_cases3)
  obtain rb2 ds2 recs2 w2 where r: "release_all (discard pub) xs recs1 w1 = (rb2, ds2, recs2, w2)"
    by (metis prod_cases4)
  have "w2 = w'" using Cons.prems(4) d r unfolding a by (simp split: option.splits)
  have step: "inv w1 \<and> obs w1 = obs w \<and> (\<exists>s. s \<noteq> Unused \<and> status w1 = (status w)(p := s))"
    using Cons.prems(1,3) d by (intro discard_obs) (auto simp: a)
  then have "\<forall>q\<in>set (handles xs). status w1 q = Fresh"
    using Cons.prems(2,3) by (auto simp: a)
  then show ?case
    using Cons.IH [OF _ _ _ r] step Cons.prems(2) \<open>w2 = w'\<close> by (simp add: a)
qed simp

lemma release_all_rollback:
  assumes "inv w" "distinct (handles xs)" "\<forall>p\<in>set (handles xs). status w p = Live"
    and "release_all (rollback pub) xs recs w = (rb, ds, recs', w')"
  shows "inv w' \<and> (\<forall>q. q \<notin> set (handles xs) \<longrightarrow> status w' q = status w q)
     \<and> (ds = [] \<longrightarrow> obs w' = undo_log footprint saved (handles xs) (obs w))"
  using assms
proof (induction xs arbitrary: recs w rb ds recs' w')
  case (Cons a xs)
  obtain e p x where a: "a = (e, p, x)" by (metis prod_cases3)
  obtain f recs1 w1 where d: "rollback pub p recs w = (f, recs1, w1)" by (metis prod_cases3)
  obtain rb2 ds2 recs2 w2 where r: "release_all (rollback pub) xs recs1 w1 = (rb2, ds2, recs2, w2)"
    by (metis prod_cases4)
  have w2: "w2 = w'" "ds = [] \<Longrightarrow> ds2 = [] \<and> f = None"
    using Cons.prems(4) d r unfolding a by (auto split: option.splits)
  have step: "inv w1 \<and> (\<exists>s. s \<noteq> Unused \<and> status w1 = (status w)(p := s))
      \<and> (f = None \<longrightarrow> obs w1 = override_on (obs w) (saved p) (footprint p))"
    using rollback_obs [OF _ _ d] Cons.prems(1,3) by (simp add: a)
  then have "\<forall>q\<in>set (handles xs). status w1 q = Live"
    using Cons.prems(2,3) by (auto simp: a)
  then have ih: "inv w2 \<and> (\<forall>q. q \<notin> set (handles xs) \<longrightarrow> status w2 q = status w1 q)
      \<and> (ds2 = [] \<longrightarrow> obs w2 = undo_log footprint saved (handles xs) (obs w1))"
    using Cons.IH [OF _ _ _ r] step Cons.prems(2) by (simp add: a)
  show ?case using ih step w2 by (auto simp: a)
qed simp

end

text \<open>
  The invariant of acceptance: \<open>before\<close> is the observation at staging time, \<open>pending\<close> what is still to
  be published, \<open>accepted\<close> what has been.
\<close>

definition log_inv ::
  "('p \<Rightarrow> pub_status) \<Rightarrow> ('p \<Rightarrow> 'k set) \<Rightarrow> ('p \<Rightarrow> 'k \<Rightarrow> 'v) \<Rightarrow> ('k \<Rightarrow> 'v) \<Rightarrow> ('k \<Rightarrow> 'v) \<Rightarrow>
   'p list \<Rightarrow> 'p list \<Rightarrow> bool" where
  "log_inv st fp sv before now pending accepted \<longleftrightarrow>
     distinct (pending @ accepted) \<and> (\<forall>p\<in>set pending. st p = Fresh) \<and> (\<forall>p\<in>set accepted. st p = Live)
     \<and> same_outside (\<Union> (fp ` set accepted)) now before
     \<and> sound_log fp sv before (rev accepted)
     \<and> (\<forall>p\<in>set pending. \<forall>k\<in>fp p. k \<notin> \<Union> (fp ` set accepted) \<longrightarrow> sv p k = before k)"

lemma undo_accepted:
  "log_inv st fp sv before now pending accepted \<Longrightarrow> undo_log fp sv (rev accepted) now = before"
  by (rule undo_sound_log) (simp_all add: log_inv_def)

lemma log_inv_publish:
  assumes "log_inv st fp sv before now (p # pending) accepted"
    and "same_outside (fp p) now' now"
  shows "log_inv (st(p := Live)) fp sv before now' pending (accepted @ [p])"
  using assms by (auto simp: log_inv_def same_outside_def)

lemma log_inv_undo:
  assumes "log_inv st fp sv before now (p # pending) accepted"
    and "same_outside (fp p) now1 now" and "\<forall>k\<in>fp p. now' k = sv p k" and "same_outside (fp p) now' now1"
    and "\<forall>q. q \<noteq> p \<longrightarrow> st' q = st q"
  shows "log_inv st' fp sv before now' pending accepted"
proof -
  have "same_outside (\<Union> (fp ` set accepted)) now' before"
    unfolding same_outside_def
  proof (intro allI impI)
    fix k assume k: "k \<notin> \<Union> (fp ` set accepted)"
    show "now' k = before k"
    proof (cases "k \<in> fp p")
      case True
      then have "now' k = sv p k" using assms(3) by simp
      also have "\<dots> = before k" using True k assms(1) by (simp add: log_inv_def)
      finally show ?thesis .
    next
      case False
      then have "now' k = now k" using assms(2,4) by (simp add: same_outside_def)
      also have "\<dots> = before k" using k assms(1) by (simp add: log_inv_def same_outside_def)
      finally show ?thesis .
    qed
  qed
  moreover have "q \<noteq> p" if "q \<in> set pending \<union> set accepted" for q
    using that assms(1) by (auto simp: log_inv_def)
  ultimately show ?thesis using assms(1,5) by (auto simp: log_inv_def)
qed

lemma log_inv_prepare:
  assumes "log_inv st fp sv before now pending accepted"
    and "st p = Unused" and "st' p = Fresh" and "\<forall>q. st q \<noteq> Unused \<longrightarrow> st' q = st q"
    and "\<forall>k\<in>fp p. sv p k = now k"
  shows "log_inv st' fp sv before now (p # pending) accepted"
proof -
  have "st' q = st q" if "q \<in> set pending \<union> set accepted" for q
    using that assms(1,4) by (fastforce simp: log_inv_def)
  moreover have "p \<notin> set pending \<union> set accepted" using assms(1,2) by (fastforce simp: log_inv_def)
  moreover have "sv p k = before k" if "k \<in> fp p" "k \<notin> \<Union> (fp ` set accepted)" for k
    using that assms(1,5) by (auto simp: log_inv_def same_outside_def)
  ultimately show ?thesis using assms(1,3) by (auto simp: log_inv_def)
qed

context compensating_publisher
begin

text \<open>A failed publication followed by a successful rollback leaves the invariant to the rest.\<close>

lemma failed_publication:
  assumes "inv w" "log_inv (status w) footprint saved before (obs w) (p # pending) accepted"
    and "publish_checked pub e p w = (Inl x, w1)" "rollback pub p recs w1 = (f, recs', w2)"
  shows "inv w2 \<and> (\<forall>q. q \<noteq> p \<longrightarrow> status w2 q = status w q)
     \<and> (f = None \<longrightarrow> log_inv (status w2) footprint saved before (obs w2) pending accepted)"
proof -
  have fresh: "status w p = Fresh" using assms(2) by (simp add: log_inv_def)
  obtain pr where pr: "publish_op pub p w = (pr, w1)"
    using assms(3) by (auto simp: publish_checked_def split: sum.splits if_splits prod.splits)
  have st1: "inv w1 \<and> same_outside (footprint p) (obs w1) (obs w) \<and>
      (status w1 = (status w)(p := Live) \<or>
       status w1 = (status w)(p := Dead) \<and> (\<forall>k\<in>footprint p. obs w1 k = saved p k))"
    using publish_ok [OF assms(1) fresh] publish_fail [OF assms(1) fresh] pr by (cases pr) auto
  show ?thesis
  proof (cases "status w1 p = Live")
    case True
    from rollback_obs [OF _ True assms(4)] st1 have rb: "inv w2"
      "\<exists>s. s \<noteq> Unused \<and> status w2 = (status w1)(p := s)"
      "f = None \<longrightarrow> obs w2 = override_on (obs w1) (saved p) (footprint p)" by auto
    then have other: "\<forall>q. q \<noteq> p \<longrightarrow> status w2 q = status w q" using st1 by auto
    have "log_inv (status w2) footprint saved before (obs w2) pending accepted" if "f = None"
      using that rb(3) st1 other
      by (intro log_inv_undo [OF assms(2), of "obs w1"]) (auto simp: same_outside_def override_on_def)
    then show ?thesis using rb(1) other by blast
  next
    case False
    then have dead: "status w1 p = Dead" "\<forall>k\<in>footprint p. obs w1 k = saved p k" using st1 by auto
    obtain y where "rollback_op pub p w1 = (y, w2)"
      using release_method [OF assms(4) [unfolded rollback_def]] by blast
    then have rb: "inv w2" "obs w2 = obs w1" "status w2 = status w1"
      using rollback_dead [OF _ dead(1)] st1 by auto
    then have other: "\<forall>q. q \<noteq> p \<longrightarrow> status w2 q = status w q" using st1 by auto
    have "log_inv (status w2) footprint saved before (obs w2) pending accepted"
      using rb dead st1 other
      by (intro log_inv_undo [OF assms(2), of "obs w1"]) (auto simp: same_outside_def)
    then show ?thesis using rb(1) other by blast
  qed
qed

lemma fail_tx_obs:
  assumes "inv w" "distinct (handles (tx_prepared tx))" "\<forall>p\<in>set (handles (tx_prepared tx)). status w p = Fresh"
    and "fail_tx pub x c ds rb tx w = (r, tx', w')"
  shows "inv w' \<and> obs w' = obs w \<and> tx_state tx' = Failed \<and> tx_prepared tx' = []
     \<and> tx_accepted tx' = tx_accepted tx \<and> tx_updates tx' = tx_updates tx
     \<and> (\<exists>rep. r = Publication_error rep \<and> rp_cursors rep = c \<and> rp_published rep = []
          \<and> length ds + 1 \<le> length (rp_diagnostics rep))"
proof -
  obtain rb1 ds1 recs1 w1 where ra:
      "release_all (discard pub) (rev (tx_prepared tx)) (tx_recoveries tx) w = (rb1, ds1, recs1, w1)"
    by (metis prod_cases4)
  have "inv w1 \<and> obs w1 = obs w"
    using assms(2,3) by (intro release_all_discard [OF assms(1) _ _ ra]) auto
  then show ?thesis
    using assms(4) ra by (auto simp: fail_tx_def discard_staged_def Let_def)
qed

lemma abandon_obs:
  assumes "inv w" "distinct (handles pending @ handles (tx_accepted tx))" "tx_prepared tx = []"
    and "\<forall>p\<in>set (handles pending). status w p = Fresh" "\<forall>p\<in>set (handles (tx_accepted tx)). status w p = Live"
    and "abandon pub x cl rb pending tx w = (r, tx', w')"
  shows "\<exists>rep. r = Publication_error rep \<and> inv w' \<and> tx_state tx' = Failed \<and> tx_prepared tx' = []
     \<and> tx_accepted tx' = [] \<and> tx_updates tx' = [] \<and> rp_cursors rep = tx_initial tx \<and> rp_published rep = []
     \<and> length cl + 1 \<le> length (rp_diagnostics rep)
     \<and> (length (rp_diagnostics rep) = 1 \<longrightarrow>
          obs w' = undo_log footprint saved (rev (handles (tx_accepted tx))) (obs w))"
proof -
  obtain rb1 ds1 recs1 w1 where ra:
      "release_all (rollback pub) (rev (tx_accepted tx)) (tx_recoveries tx) w = (rb1, ds1, recs1, w1)"
    by (metis prod_cases4)
  have st: "inv w1 \<and> (\<forall>q. q \<notin> set (handles (tx_accepted tx)) \<longrightarrow> status w1 q = status w q)
      \<and> (ds1 = [] \<longrightarrow> obs w1 = undo_log footprint saved (rev (handles (tx_accepted tx))) (obs w))"
    using release_all_rollback [OF assms(1) _ _ ra] assms(2,5) by simp
  define tx1 where "tx1 = tx\<lparr>tx_prepared := pending, tx_accepted := [], tx_updates := [], tx_recoveries := recs1\<rparr>"
  have run: "fail_tx pub x (tx_initial tx) (cl @ ds1) (rb @ rb1) tx1 w1 = (r, tx', w')"
    using assms(3,6) ra by (simp add: abandon_def rollback_all_accepted_def Let_def tx1_def)
  have "\<forall>p\<in>set (handles pending). status w1 p = Fresh" using st assms(2,4) by auto
  then have "inv w' \<and> obs w' = obs w1 \<and> tx_state tx' = Failed \<and> tx_prepared tx' = []
     \<and> tx_accepted tx' = tx_accepted tx1 \<and> tx_updates tx' = tx_updates tx1
     \<and> (\<exists>rep. r = Publication_error rep \<and> rp_cursors rep = tx_initial tx \<and> rp_published rep = []
          \<and> length (cl @ ds1) + 1 \<le> length (rp_diagnostics rep))"
    using st assms(2) by (intro fail_tx_obs [OF _ _ _ run]) (auto simp: tx1_def)
  then show ?thesis using st by (auto simp: tx1_def)
qed

end

context compensating_publisher
begin

lemma accept_turn_obs:
  assumes "inv w" "tx_prepared tx = []"
    and "log_inv (status w) footprint saved before (obs w) (p # handles pending) (handles (tx_accepted tx))"
    and "accept_turn pub cursors published e p a pending tx w = Next cursors' published' pending' tx' w'"
  shows "inv w' \<and> tx_prepared tx' = [] \<and> tx_initial tx' = tx_initial tx \<and> tx_plan tx' = tx_plan tx
    \<and> log_inv (status w') footprint saved before (obs w') (handles pending') (handles (tx_accepted tx'))"
  using assms(4)
proof (cases rule: accept_turn_next)
  case (published receipt)
  have "publish_op pub p w = (Inr receipt, w')"
    using published(1) by (auto simp: publish_checked_def split: sum.splits if_splits prod.splits)
  moreover have "status w p = Fresh" using assms(3) by (simp add: log_inv_def)
  ultimately have "inv w' \<and> same_outside (footprint p) (obs w') (obs w) \<and> status w' = (status w)(p := Live)"
    using publish_ok assms(1) by blast
  then show ?thesis using log_inv_publish [OF assms(3)] published assms(2) by simp
next
  case (retried x w1 recs w2 q a' y)
  have f: "inv w2 \<and> log_inv (status w2) footprint saved before (obs w2) (handles pending) (handles (tx_accepted tx))"
    using failed_publication [OF assms(1,3) retried(1,2)] by simp
  then have "inv w' \<and> obs w' = obs w2 \<and> (\<forall>q. status w2 q \<noteq> Unused \<longrightarrow> status w' q = status w2 q)
      \<and> status w2 q = Unused \<and> status w' q = Fresh \<and> (\<forall>k\<in>footprint q. saved q k = obs w2 k)"
    using prepare_one_obs [OF _ retried(5)] by simp
  then show ?thesis
    using log_inv_prepare [of "status w2" footprint saved before "obs w2" "handles pending"
        "handles (tx_accepted tx)" q "status w'"] f retried assms(2) by simp
next
  case (skipped x w1 recs s)
  then show ?thesis
    using failed_publication [OF assms(1,3) skipped(1,2)] assms(2) by simp
qed

lemma give_up_stop:
  assumes "give_up pub c pb e a x cl pending tx w = Stop (r, tx', w')"
  shows "(\<exists>err. r = Raised err) \<or>
     (\<exists>rb sk. abandon pub x (option_list cl) rb pending (tx\<lparr>tx_skipped := sk\<rparr>) w = (r, tx', w'))"
proof (cases "se_action e = SkipSampleReported")
  case False
  have "tx\<lparr>tx_skipped := tx_skipped tx\<rparr> = tx" by simp
  with assms False show ?thesis by (metis give_up_def turn.inject(2))
qed (use assms in \<open>auto simp: give_up_def Let_def split: sum.splits if_splits\<close>)

lemma abandon_after_failure:
  assumes "inv w" "tx_prepared tx = []"
    and "log_inv (status w) footprint saved before (obs w) (p # handles pending) (handles (tx_accepted tx))"
    and "publish_checked pub e p w = (Inl x, w1)" "rollback pub p recs w1 = (cl, recs', w2)"
    and "inv w3" "obs w3 = obs w2" "\<forall>q. status w2 q \<noteq> Unused \<longrightarrow> status w3 q = status w2 q"
    and "abandon pub y (option_list cl) rb pending (tx\<lparr>tx_recoveries := recs', tx_skipped := sk\<rparr>) w3 = (r, tx', w')"
  shows "\<exists>rep. r = Publication_error rep \<and> inv w' \<and> tx_state tx' = Failed \<and> tx_prepared tx' = []
     \<and> tx_accepted tx' = [] \<and> tx_updates tx' = [] \<and> rp_cursors rep = tx_initial tx \<and> rp_published rep = []
     \<and> (length (rp_diagnostics rep) = 1 \<longrightarrow> obs w' = before)"
proof -
  have f: "inv w2 \<and> (\<forall>q. q \<noteq> p \<longrightarrow> status w2 q = status w q) \<and>
      (cl = None \<longrightarrow> log_inv (status w2) footprint saved before (obs w2) (handles pending) (handles (tx_accepted tx)))"
    by (rule failed_publication [OF assms(1,3,4,5)])
  let ?tx = "tx\<lparr>tx_recoveries := recs', tx_skipped := sk\<rparr>"
  have d: "distinct (handles pending @ handles (tx_accepted ?tx))" "p \<notin> set (handles pending @ handles (tx_accepted ?tx))"
    and st: "\<forall>q\<in>set (handles pending). status w q = Fresh" "\<forall>q\<in>set (handles (tx_accepted ?tx)). status w q = Live"
    using assms(3) by (auto simp: log_inv_def)
  have s3: "\<forall>q\<in>set (handles pending). status w3 q = Fresh" "\<forall>q\<in>set (handles (tx_accepted ?tx)). status w3 q = Live"
    using f d(2) st assms(8) by (metis Un_iff pub_status.distinct(1) set_append, metis Un_iff pub_status.distinct(3) set_append)
  obtain rep where rep: "r = Publication_error rep" "inv w'" "tx_state tx' = Failed" "tx_prepared tx' = []"
      "tx_accepted tx' = []" "tx_updates tx' = []" "rp_cursors rep = tx_initial ?tx" "rp_published rep = []"
      "length (option_list cl) + 1 \<le> length (rp_diagnostics rep)"
      "length (rp_diagnostics rep) = 1 \<longrightarrow>
          obs w' = undo_log footprint saved (rev (handles (tx_accepted ?tx))) (obs w3)"
    using abandon_obs [OF assms(6) d(1) _ s3 assms(9)] assms(2) by auto
  have "obs w' = before" if "length (rp_diagnostics rep) = 1"
  proof -
    have "cl = None" using that rep(9) by (cases cl) (auto simp: option_list_def)
    then have "undo_log footprint saved (rev (handles (tx_accepted tx))) (obs w2) = before"
      using f undo_accepted by blast
    then show ?thesis using that rep(10) assms(7) by simp
  qed
  then show ?thesis using rep by simp
qed

lemma accept_turn_stop:
  assumes "inv w" "tx_prepared tx = []"
    and "log_inv (status w) footprint saved before (obs w) (p # handles pending) (handles (tx_accepted tx))"
    and "accept_turn pub cursors published e p a pending tx w = Stop (r, tx', w')"
  shows "(\<exists>err. r = Raised err) \<or>
     (\<exists>rep. r = Publication_error rep \<and> inv w' \<and> tx_state tx' = Failed \<and> tx_prepared tx' = []
     \<and> tx_accepted tx' = [] \<and> tx_updates tx' = [] \<and> rp_cursors rep = tx_initial tx \<and> rp_published rep = []
     \<and> (length (rp_diagnostics rep) = 1 \<longrightarrow> obs w' = before))"
proof -
  obtain pr w1 where pr: "publish_checked pub e p w = (pr, w1)" by fastforce
  show ?thesis
  proof (cases pr)
    case (Inr receipt)
    then show ?thesis using assms(4) pr by (auto simp: accept_turn_def Let_def split: sum.splits)
  next
    case (Inl x)
    obtain cleanup recs w2 where rb: "rollback pub p (tx_recoveries tx) w1 = (cleanup, recs, w2)"
      by (metis prod_cases3)
    note pub1 = pr [unfolded Inl]
    have inv2: "inv w2" using failed_publication [OF assms(1,3) pub1 rb] by simp
    show ?thesis
    proof (cases "cleanup = None \<and> is_retry (se_action e) \<and> a < attempt_limit e")
      case True
      obtain q a' y w3 where po: "prepare_one pub e a None w2 = ((q, a', y), w3)"
        by (metis prod_cases3 surj_pair)
      then have w3: "inv w3" "obs w3 = obs w2" "\<forall>q. status w2 q \<noteq> Unused \<longrightarrow> status w3 q = status w2 q"
        using prepare_one_obs [OF inv2 po] by auto
      have "give_up pub cursors published e a' y cleanup pending (tx\<lparr>tx_recoveries := recs\<rparr>) w3 = Stop (r, tx', w')"
        using assms(4) pub1 rb po True by (auto simp: accept_turn_def Let_def split: option.splits)
      from give_up_stop [OF this] show ?thesis
        by (elim disjE exE) (use abandon_after_failure [OF assms(1-3) pub1 rb w3] in \<open>simp; blast\<close>)+
    next
      case False
      then have "give_up pub cursors published e a (Some x) cleanup pending (tx\<lparr>tx_recoveries := recs\<rparr>) w2 = Stop (r, tx', w')"
        using assms(4) pub1 rb by (simp add: accept_turn_def Let_def split: if_splits)
      from give_up_stop [OF this] show ?thesis
        by (elim disjE exE) (use abandon_after_failure [OF assms(1-3) pub1 rb inv2 refl] in \<open>simp; blast\<close>)+
    qed
  qed
qed

lemma accept_loop_obs:
  assumes "inv w" "tx_prepared tx = []"
    and "log_inv (status w) footprint saved before (obs w) (handles pending) (handles (tx_accepted tx))"
    and "accept_loop pub cursors published pending tx w = (r, tx', w')"
  shows "(\<exists>err. r = Raised err) \<or>
     (\<exists>rep. r = Publication_error rep \<and> inv w' \<and> tx_state tx' = Failed \<and> tx_prepared tx' = []
        \<and> tx_accepted tx' = [] \<and> tx_updates tx' = [] \<and> rp_cursors rep = tx_initial tx \<and> rp_published rep = []
        \<and> (length (rp_diagnostics rep) = 1 \<longrightarrow> obs w' = before)) \<or>
     (\<exists>rep. r = Returned rep \<and> inv w' \<and> tx_state tx' = Accepted \<and> tx_prepared tx' = []
        \<and> tx_initial tx' = tx_initial tx
        \<and> log_inv (status w') footprint saved before (obs w') [] (handles (tx_accepted tx')))"
  using assms
proof (induction "attempts_left pending" arbitrary: cursors published pending tx w rule: less_induct)
  case less
  show ?case
  proof (cases pending)
    case Nil
    then show ?thesis using less.prems by auto
  next
    case (Cons a rest)
    obtain e p k where a: "a = (e, p, k)" by (metis prod_cases3)
    have inv1: "log_inv (status w) footprint saved before (obs w) (p # handles rest) (handles (tx_accepted tx))"
      using less.prems(3) by (simp add: Cons a)
    show ?thesis
    proof (cases "accept_turn pub cursors published e p k rest tx w")
      case (Next c' pb' pending' tx1 w1)
      have step: "inv w1 \<and> tx_prepared tx1 = [] \<and> tx_initial tx1 = tx_initial tx \<and> tx_plan tx1 = tx_plan tx
          \<and> log_inv (status w1) footprint saved before (obs w1) (handles pending') (handles (tx_accepted tx1))"
        by (rule accept_turn_obs [OF less.prems(1,2) inv1 Next])
      moreover have "attempts_left pending' < attempts_left pending"
        using accept_turn_measure [OF Next] by (simp add: Cons a)
      moreover have "accept_loop pub c' pb' pending' tx1 w1 = (r, tx', w')"
        using less.prems(4) Next by (simp add: Cons a accept_loop.simps(2))
      ultimately show ?thesis using less.hyps by metis
    next
      case (Stop res)
      then have "accept_turn pub cursors published e p k rest tx w = Stop (r, tx', w')"
        using less.prems(4) by (simp add: Cons a accept_loop.simps(2))
      from accept_turn_stop [OF less.prems(1,2) inv1 this] show ?thesis by blast
    qed
  qed
qed

end

subsection \<open>Reachable transactions\<close>

text \<open>
  The exceptions a publisher raises print as canonical text: a non-empty message without a trailing
  blank.  (\<^verbatim>\<open>SkippedSampleReport\<close> refuses any other text; see \<open>skip_report_strands_publications\<close>.)
\<close>

definition canonical_exn :: "exn \<Rightarrow> bool" where
  "canonical_exn x \<longleftrightarrow> is_ok (check_text (reason (Some x)))"

locale reporting_publisher = compensating_publisher +
  assumes prepare_reports: "prepare_op pub e w = (Inl x, w') \<Longrightarrow> canonical_exn x"
    and publish_reports: "publish_op pub p w = (Inl x, w') \<Longrightarrow> canonical_exn x"

text \<open>What \<^verbatim>\<open>AcceptedSideEffect.__post_init__\<close> established.\<close>

definition effect_ok :: "side_effect \<Rightarrow> bool" where
  "effect_ok e \<longleftrightarrow> id_domain (se_identity e) = ascii ''accepted-side-effect'' \<and> is_ok (check_text (se_consumer e))
     \<and> cur_consumer (se_after e) = se_consumer e \<and> wf_action (se_action e)"

lemma attempt_limit_pos: "wf_action (se_action e) \<Longrightarrow> 1 \<le> attempt_limit e"
  by (cases "se_action e") (auto simp: attempt_limit_def)

lemma mk_skipped_ok:
  assumes "effect_ok e" "phase \<in> {ascii ''prepare'', ascii ''publish''}" "1 \<le> a" "is_ok (check_text (reason x))"
  shows "is_ok (mk_skipped (se_identity e) (se_consumer e) phase a (reason x))"
  using assms by (auto simp: mk_skipped_def effect_ok_def check_identity_def is_ok_iff)

text \<open>The public methods as steps of a transaction and its world.\<close>

inductive tx_step ::
  "('w, 'p) publisher \<Rightarrow> 'p transaction \<times> 'w \<Rightarrow> 'p transaction \<times> 'w \<Rightarrow> bool" for pub where
  step_reject: "reject pub tx w = (r, tx', w') \<Longrightarrow> tx_step pub (tx, w) (tx', w')"
| step_accept: "accept pub tx w = (r, tx', w') \<Longrightarrow> tx_step pub (tx, w) (tx', w')"
| step_rollback: "rollback_accepted pub tx w = (r, tx', w') \<Longrightarrow> tx_step pub (tx, w) (tx', w')"
| step_seal: "seal pub tx w = (r', tx', w') \<Longrightarrow> tx_step pub (tx, w) (tx', w')"
| step_abort: "abort pub tx w = (r'', tx', w') \<Longrightarrow> tx_step pub (tx, w) (tx', w')"

inductive_cases tx_stepE: "tx_step pub (tx, w) (tx', w')"

text \<open>
  The invariant of a transaction staged when \<open>before\<close> was observed: nothing is visible while it is
  staged or after it was rejected, an accepted one can be undone, a resolved one owns nothing.
\<close>

definition tx_ok ::
  "('w \<Rightarrow> bool) \<Rightarrow> ('w \<Rightarrow> 'k \<Rightarrow> 'v) \<Rightarrow> ('w \<Rightarrow> 'p \<Rightarrow> pub_status) \<Rightarrow> ('p \<Rightarrow> 'k set) \<Rightarrow> ('p \<Rightarrow> 'k \<Rightarrow> 'v) \<Rightarrow>
   ('k \<Rightarrow> 'v) \<Rightarrow> 'p transaction \<Rightarrow> 'w \<Rightarrow> bool" where
  "tx_ok good obs status fp sv before tx w \<longleftrightarrow>
     good w \<and> wf_cursors (tx_initial tx)
     \<and> (tx_state tx \<notin> {Failed, Sealed} \<longrightarrow>
          log_inv (status w) fp sv before (obs w) (handles (tx_prepared tx)) (handles (tx_accepted tx)))
     \<and> (\<forall>(e, p, a)\<in>set (tx_prepared tx). effect_ok e \<and> 1 \<le> a \<and> a \<le> attempt_limit e)
     \<and> (case tx_state tx of
          Preparing \<Rightarrow> False
        | Staged \<Rightarrow> tx_accepted tx = [] \<and> obs w = before
        | Accepted \<Rightarrow> tx_prepared tx = [] \<and> tx_updates tx = map (se_after \<circ> fst) (tx_accepted tx)
        | Rejected \<Rightarrow> tx_prepared tx = [] \<and> tx_accepted tx = [] \<and> obs w = before
        | Failed \<Rightarrow> tx_prepared tx = [] \<and> tx_accepted tx = []
        | Sealed \<Rightarrow> tx_prepared tx = [] \<and> tx_accepted tx = []
            \<and> (\<forall>p\<in>set (handles (tx_finalize_pending tx)). status w p = Live))"

lemma log_inv_snoc:
  "log_inv st fp sv before now (pending @ [p]) accepted \<longleftrightarrow> log_inv st fp sv before now (p # pending) accepted"
  by (auto simp: log_inv_def)

lemma canonical_exn_ascii:
  assumes "n \<noteq> []" "m \<noteq> []" "\<not> is_space (of_char (hd n))" "\<not> is_space (of_char (last m))"
  shows "canonical_exn (ascii n, ascii m)"
  using assms by (simp add: canonical_exn_def reason_def check_text_ok_iff hd_last_ascii) (simp add: ascii_def hd_map last_map)

lemma canonical_mismatch:
  "canonical_exn prepared_mismatch" "canonical_exn receipt_mismatch" "canonical_exn receipt_mode_mismatch"
  unfolding prepared_mismatch_def receipt_mismatch_def receipt_mode_mismatch_def
  by (rule canonical_exn_ascii; simp add: is_space_def)+

lemma canonical_no_reason: "is_ok (check_text (reason None))"
  by (simp add: reason_def check_text_ok_iff hd_last_ascii) (simp add: is_space_def ascii_def)

context reporting_publisher
begin

lemma prepare_one_reports:
  assumes "prepare_one pub e a l w = ((None, a', x), w')" and "case l of None \<Rightarrow> True | Some y \<Rightarrow> canonical_exn y"
  shows "case x of None \<Rightarrow> True | Some y \<Rightarrow> canonical_exn y"
  using assms
proof (induction "nat (attempt_limit e - a)" arbitrary: a l w rule: less_induct)
  case less
  from less.prems(1) show ?case
  proof (cases rule: prepare_one_cases)
    case (again l1 w1)
    have "case l1 of None \<Rightarrow> True | Some y \<Rightarrow> canonical_exn y"
      using again(2) prepare_reports canonical_mismatch(1) by auto
    then show ?thesis using less.hyps [OF _ again(3)] again(1) by auto
  qed (use less.prems in auto)
qed

lemma prepare_one_reason:
  assumes "prepare_one pub e a None w = ((None, a', x), w')"
  shows "is_ok (check_text (reason x))"
  using prepare_one_reports [OF assms] canonical_no_reason by (cases x) (auto simp: canonical_exn_def)

lemma publish_checked_reports:
  "publish_checked pub e p w = (Inl x, w') \<Longrightarrow> canonical_exn x"
  using publish_reports canonical_mismatch
  by (auto simp: publish_checked_def split: sum.splits if_splits prod.splits)

lemma prepare_all_staged:
  assumes "inv w" "tx_accepted tx = []" "obs w = before"
    and "log_inv (status w) footprint saved before (obs w) (handles (tx_prepared tx)) []"
    and "\<forall>(e, p, a)\<in>set (tx_prepared tx). effect_ok e \<and> 1 \<le> a \<and> a \<le> attempt_limit e"
    and "\<forall>e\<in>set es. effect_ok e"
    and "prepare_all pub es tx w = (r, tx', w')"
  shows "inv w' \<and> obs w' = before \<and> (\<forall>err. r \<noteq> Raised err) \<and> tx_initial tx' = tx_initial tx \<and>
     (r = Returned () \<longrightarrow> tx_accepted tx' = []
        \<and> log_inv (status w') footprint saved before (obs w') (handles (tx_prepared tx')) []
        \<and> (\<forall>(e, p, a)\<in>set (tx_prepared tx'). effect_ok e \<and> 1 \<le> a \<and> a \<le> attempt_limit e))"
  using assms
proof (induction es arbitrary: tx w)
  case (Cons e es)
  obtain q a' x w1 where po: "prepare_one pub e 0 None w = ((q, a', x), w1)"
    by (metis prod_cases3 surj_pair)
  have eok: "effect_ok e" "0 < attempt_limit e"
    using Cons.prems(6) attempt_limit_pos [of e] by (auto simp: effect_ok_def)
  have obs1: "inv w1 \<and> obs w1 = obs w \<and> (\<forall>q. status w q \<noteq> Unused \<longrightarrow> status w1 q = status w q)"
    and att: "0 < a' \<and> a' \<le> attempt_limit e"
    using prepare_one_obs [OF Cons.prems(1) po] prepare_one_attempts [OF po] eok(2) by auto
  have keep: "log_inv (status w1) footprint saved before (obs w1) (handles (tx_prepared tx)) []"
    using Cons.prems(4) obs1 by (fastforce simp: log_inv_def)
  show ?case
  proof (cases q)
    case (Some p)
    have "log_inv (status w1) footprint saved before (obs w1) (p # handles (tx_prepared tx)) []"
      using prepare_one_obs [OF Cons.prems(1) po] Some obs1
      by (intro log_inv_prepare [OF Cons.prems(4) [folded conjunct1 [OF conjunct2 [OF obs1]]]]) auto
    then have "log_inv (status w1) footprint saved before (obs w1)
        (handles (tx_prepared (tx\<lparr>tx_prepared := tx_prepared tx @ [(e, p, a')]\<rparr>))) []"
      by (simp add: log_inv_snoc)
    moreover have "prepare_all pub es (tx\<lparr>tx_prepared := tx_prepared tx @ [(e, p, a')]\<rparr>) w1 = (r, tx', w')"
      using Cons.prems(7) po Some by simp
    ultimately show ?thesis
      using Cons.IH [of w1 "tx\<lparr>tx_prepared := tx_prepared tx @ [(e, p, a')]\<rparr>"] Cons.prems(2,3,5,6) obs1 att eok
      by auto
  next
    case None
    have reason: "is_ok (check_text (reason x))" using prepare_one_reason po None by blast
    show ?thesis
    proof (cases "se_action e = SkipSampleReported")
      case True
      then obtain s where s: "mk_skipped (se_identity e) (se_consumer e) (ascii ''prepare'') a' (reason x) = Inr s"
        using mk_skipped_ok [OF eok(1) _ _ reason, of "ascii ''prepare''" a'] att by (auto simp: is_ok_iff)
      then have "prepare_all pub es (tx\<lparr>tx_skipped := tx_skipped tx @ [s]\<rparr>) w1 = (r, tx', w')"
        using Cons.prems(7) po None True by simp
      then show ?thesis
        using Cons.IH [of w1 "tx\<lparr>tx_skipped := tx_skipped tx @ [s]\<rparr>"] Cons.prems(2,3,5,6) obs1 keep by auto
    next
      case False
      then have run: "fail_tx pub x (tx_initial tx) [] [] tx w1 = (r, tx', w')"
        using Cons.prems(7) po None by simp
      have "tx_initial tx' = tx_initial tx"
        using run by (auto simp: fail_tx_def discard_staged_def Let_def split: prod.splits)
      then show ?thesis
        using fail_tx_obs [OF _ _ _ run] obs1 keep Cons.prems(3) by (auto simp: log_inv_def)
    qed
  qed
qed auto

end

context reporting_publisher
begin

lemma accept_turn_not_raised:
  assumes "wf_cursors cursors" "effect_ok e" "1 \<le> a"
    and "accept_turn pub cursors published e p a pending tx w = Stop (r, tx', w')"
  shows "r \<noteq> Raised err"
proof -
  obtain pr w1 where pr: "publish_checked pub e p w = (pr, w1)" by fastforce
  have give: "r \<noteq> Raised err"
    if "give_up pub cursors published e k x cl pending tx1 w2 = Stop (r, tx', w')" "1 \<le> k"
      "is_ok (check_text (reason x))" for k x cl tx1 w2
    using that mk_skipped_ok [OF assms(2) _ that(2,3), of "ascii ''publish''"]
    by (auto simp: give_up_def abandon_def fail_tx_def Let_def is_ok_iff split: if_splits prod.splits sum.splits)
  show ?thesis
  proof (cases pr)
    case (Inr receipt)
    then show ?thesis
      using assms(4) pr replace_cursor_ok [OF assms(1), of "se_after e"]
      by (auto simp: accept_turn_def Let_def split: sum.splits)
  next
    case (Inl x)
    obtain cleanup recs w2 where rb: "rollback pub p (tx_recoveries tx) w1 = (cleanup, recs, w2)"
      by (metis prod_cases3)
    have x: "is_ok (check_text (reason (Some x)))"
      using publish_checked_reports pr Inl unfolding canonical_exn_def by blast
    show ?thesis
    proof (cases "cleanup = None \<and> is_retry (se_action e) \<and> a < attempt_limit e")
      case True
      obtain q a' y w3 where po: "prepare_one pub e a None w2 = ((q, a', y), w3)"
        by (metis prod_cases3 surj_pair)
      have q: "q = None" and stop: "give_up pub cursors published e a' y cleanup pending
          (tx\<lparr>tx_recoveries := recs\<rparr>) w3 = Stop (r, tx', w')"
        using assms(4) pr Inl rb po True by (auto simp: accept_turn_def Let_def split: option.splits)
      show ?thesis
        using give [OF stop] prepare_one_attempts [OF po] prepare_one_reason po q assms(3) by simp
    next
      case False
      then have "give_up pub cursors published e a (Some x) cleanup pending
          (tx\<lparr>tx_recoveries := recs\<rparr>) w2 = Stop (r, tx', w')"
        using assms(4) pr Inl rb by (simp add: accept_turn_def Let_def split: if_splits)
      then show ?thesis using give x assms(3) by blast
    qed
  qed
qed

lemma accept_loop_not_raised:
  assumes "wf_cursors cursors" "\<forall>(e, p, a)\<in>set pending. effect_ok e \<and> 1 \<le> a"
    and "accept_loop pub cursors published pending tx w = (r, tx', w')"
  shows "r \<noteq> Raised err"
  using assms
proof (induction "attempts_left pending" arbitrary: cursors published pending tx w rule: less_induct)
  case less
  show ?case
  proof (cases pending)
    case (Cons a rest)
    obtain e p k where a: "a = (e, p, k)" by (metis prod_cases3)
    have ok: "effect_ok e" "1 \<le> k" "\<forall>(e, p, a)\<in>set rest. effect_ok e \<and> 1 \<le> a"
      using less.prems(2) by (auto simp: Cons a)
    show ?thesis
    proof (cases "accept_turn pub cursors published e p k rest tx w")
      case (Next c' pb' pending' tx1 w1)
      have "wf_cursors c' \<and> (\<forall>(e, p, a)\<in>set pending'. effect_ok e \<and> 1 \<le> a)"
        using Next
      proof (cases rule: accept_turn_next)
        case (published receipt)
        then show ?thesis using replace_cursor_ok [OF less.prems(1), of "se_after e"] ok by auto
      next
        case (retried x w1 recs w2 q a' y)
        then show ?thesis using prepare_one_attempts [OF retried(5)] ok less.prems(1) by auto
      next
        case (skipped x w1 recs s)
        then show ?thesis using ok less.prems(1) by simp
      qed
      moreover have "attempts_left pending' < attempts_left pending"
        using accept_turn_measure [OF Next] by (simp add: Cons a)
      moreover have "accept_loop pub c' pb' pending' tx1 w1 = (r, tx', w')"
        using less.prems(3) Next by (simp add: Cons a accept_loop.simps(2))
      ultimately show ?thesis using less.hyps by blast
    next
      case (Stop res)
      then have "accept_turn pub cursors published e p k rest tx w = Stop (r, tx', w')"
        using less.prems(3) by (simp add: Cons a accept_loop.simps(2))
      then show ?thesis using accept_turn_not_raised less.prems(1) ok by blast
    qed
  qed (use less.prems in auto)
qed

end

lemma accept_loop_frame:
  "accept_loop pub cursors published pending tx w = (r, tx', w') \<Longrightarrow> tx_initial tx' = tx_initial tx \<and> tx_plan tx' = tx_plan tx"
proof (induction "attempts_left pending" arbitrary: cursors published pending tx w rule: less_induct)
  case less
  show ?case
  proof (cases pending)
    case (Cons a rest)
    obtain e p k where a: "a = (e, p, k)" by (metis prod_cases3)
    show ?thesis
    proof (cases "accept_turn pub cursors published e p k rest tx w")
      case (Next c' pb' pending' tx1 w1)
      have "tx_initial tx1 = tx_initial tx \<and> tx_plan tx1 = tx_plan tx"
        using Next by (cases rule: accept_turn_next) auto
      moreover have "attempts_left pending' < attempts_left pending"
        using accept_turn_measure [OF Next] by (simp add: Cons a)
      moreover have "accept_loop pub c' pb' pending' tx1 w1 = (r, tx', w')"
        using less.prems Next by (simp add: Cons a accept_loop.simps(2))
      ultimately show ?thesis using less.hyps by metis
    next
      case (Stop res)
      then have "accept_turn pub cursors published e p k rest tx w = Stop (r, tx', w')"
        using less.prems by (simp add: Cons a accept_loop.simps(2))
      then show ?thesis
        by (auto simp: accept_turn_def give_up_def abandon_def fail_tx_def discard_staged_def
            rollback_all_accepted_def Let_def split: sum.splits prod.splits if_splits option.splits)
    qed
  qed (use less.prems in auto)
qed

lemma accept_loop_updates:
  "accept_loop pub cursors published pending tx w = (Returned rep, tx', w') \<Longrightarrow>
     tx_updates tx' = map (se_after \<circ> fst) (tx_accepted tx')
     \<and> (map (\<lambda>(e, p, r). r) (tx_accepted tx) = published \<longrightarrow> rp_published rep = map (\<lambda>(e, p, r). r) (tx_accepted tx'))
     \<and> (\<exists>new. tx_accepted tx' = tx_accepted tx @ new
           \<and> foldE replace_cursor (map (se_after \<circ> fst) new) cursors = Inr (rp_cursors rep))"
proof (induction "attempts_left pending" arbitrary: cursors published pending tx w rule: less_induct)
  case less
  show ?case
  proof (cases pending)
    case Nil
    then show ?thesis using less.prems by auto
  next
    case (Cons a rest)
    obtain e p k where a: "a = (e, p, k)" by (metis prod_cases3)
    show ?thesis
    proof (cases "accept_turn pub cursors published e p k rest tx w")
      case (Next c' pb' pending' tx1 w1)
      have m: "attempts_left pending' < attempts_left pending"
        using accept_turn_measure [OF Next] by (simp add: Cons a)
      have run: "accept_loop pub c' pb' pending' tx1 w1 = (Returned rep, tx', w')"
        using less.prems Next by (simp add: Cons a accept_loop.simps(2))
      note ih = less.hyps [OF m run]
      from Next show ?thesis
      proof (cases rule: accept_turn_next)
        case (published receipt)
        from ih obtain new where "tx_accepted tx' = tx_accepted tx1 @ new"
          "foldE replace_cursor (map (se_after \<circ> fst) new) c' = Inr (rp_cursors rep)" by blast
        then have "tx_accepted tx' = tx_accepted tx @ ((e, p, receipt) # new)
            \<and> foldE replace_cursor (map (se_after \<circ> fst) ((e, p, receipt) # new)) cursors = Inr (rp_cursors rep)"
          using published by simp
        then show ?thesis using ih published by auto
      qed (use ih in auto)
    next
      case (Stop res)
      then have "accept_turn pub cursors published e p k rest tx w = Stop (Returned rep, tx', w')"
        using less.prems by (simp add: Cons a accept_loop.simps(2))
      then show ?thesis
        by (auto simp: accept_turn_def give_up_def abandon_def fail_tx_def Let_def
            split: sum.splits prod.splits if_splits option.splits)
    qed
  qed
qed

context reporting_publisher
begin

lemma finalize_loop_obs:
  assumes "inv w" "\<forall>p\<in>set (handles xs). status w p = Live"
    and "finalize_loop pub xs recs w = (pending, fs, recs', w')"
  shows "inv w' \<and> obs w' = obs w \<and> status w' = status w \<and> set (handles pending) \<subseteq> set (handles xs)"
  using assms
proof (induction xs arbitrary: recs w pending fs recs' w')
  case (Cons a xs)
  obtain e p r where a: "a = (e, p, r)" by (metis prod_cases3)
  obtain x w1 where f: "finalize_op pub p w = (x, w1)" by fastforce
  obtain rf recs1 where rr: "retain_recoveries pub p recs w1 = (rf, recs1)" by fastforce
  obtain pend2 fs2 recs2 w2 where r: "finalize_loop pub xs recs1 w1 = (pend2, fs2, recs2, w2)"
    by (metis prod_cases4)
  have step: "inv w1 \<and> obs w1 = obs w \<and> status w1 = status w"
    using finalize_live [OF Cons.prems(1) _ f] Cons.prems(2) by (simp add: a)
  then have "inv w2 \<and> obs w2 = obs w1 \<and> status w2 = status w1 \<and> set (handles pend2) \<subseteq> set (handles xs)"
    using Cons.IH [OF _ _ r] Cons.prems(2) by (simp add: a)
  then show ?case using step Cons.prems(3) f rr r by (auto simp: a split: if_splits)
qed simp

abbreviation ok where "ok \<equiv> tx_ok inv obs status footprint saved"

lemma reject_ok:
  assumes "ok before tx w" "reject pub tx w = (r, tx', w')"
  shows "ok before tx' w'"
proof (cases "tx_state tx = Staged")
  case True
  obtain rb ds recs w1 where ra:
      "release_all (discard pub) (rev (tx_prepared tx)) (tx_recoveries tx) w = (rb, ds, recs, w1)"
    by (metis prod_cases4)
  have "inv w1 \<and> obs w1 = obs w"
    using assms(1) True by (intro release_all_discard [OF _ _ _ ra]) (auto simp: tx_ok_def log_inv_def)
  then show ?thesis
    using assms True ra
    by (auto simp: reject_def discard_staged_def resolve_def resolved_report_def tx_ok_def log_inv_def
        same_outside_def Let_def)
qed (use assms in \<open>auto simp: reject_def\<close>)

lemma rollback_accepted_ok:
  assumes "ok before tx w" "rollback_accepted pub tx w = (r, tx', w')"
  shows "ok before tx' w'"
proof (cases "tx_state tx = Accepted")
  case True
  obtain rb ds recs w1 where ra:
      "release_all (rollback pub) (rev (tx_accepted tx)) (tx_recoveries tx) w = (rb, ds, recs, w1)"
    by (metis prod_cases4)
  have log: "log_inv (status w) footprint saved before (obs w) [] (handles (tx_accepted tx))"
    using assms(1) True by (auto simp: tx_ok_def)
  then have "inv w1 \<and> (ds = [] \<longrightarrow> obs w1 = undo_log footprint saved (rev (handles (tx_accepted tx))) (obs w))"
    using release_all_rollback [OF _ _ _ ra] assms(1) by (auto simp: tx_ok_def log_inv_def)
  then have "inv w1 \<and> (ds = [] \<longrightarrow> obs w1 = before)" using undo_accepted [OF log] by simp
  then show ?thesis
    using assms True ra
    by (auto simp: rollback_accepted_def rollback_all_accepted_def resolve_def resolved_report_def tx_ok_def
        log_inv_def same_outside_def Let_def)
qed (use assms in \<open>auto simp: rollback_accepted_def\<close>)

lemma accept_ok:
  assumes "ok before tx w" "accept pub tx w = (r, tx', w')"
  shows "ok before tx' w'"
proof (cases "tx_state tx = Staged")
  case True
  let ?tx = "tx\<lparr>tx_prepared := []\<rparr>"
  have run: "accept_loop pub (tx_initial tx) [] (tx_prepared tx) ?tx w = (r, tx', w')"
    using assms(2) True by (simp add: accept_def)
  have pre: "inv w" "tx_accepted tx = []" "wf_cursors (tx_initial tx)"
    "\<forall>(e, p, a)\<in>set (tx_prepared tx). effect_ok e \<and> 1 \<le> a"
    "log_inv (status w) footprint saved before (obs w) (handles (tx_prepared tx)) (handles (tx_accepted ?tx))"
    using assms(1) True by (auto simp: tx_ok_def)
  have notraised: "r \<noteq> Raised err" for err
    using accept_loop_not_raised [OF pre(3,4) run] .
  have init: "tx_initial tx' = tx_initial tx" using accept_loop_frame [OF run] by simp
  from accept_loop_obs [OF pre(1) _ pre(5) run] notraised consider
      (failed) "inv w'" "tx_state tx' = Failed" "tx_prepared tx' = []" "tx_accepted tx' = []"
    | (accepted) rep where "r = Returned rep" "inv w'" "tx_state tx' = Accepted" "tx_prepared tx' = []"
        "log_inv (status w') footprint saved before (obs w') [] (handles (tx_accepted tx'))"
    by auto
  then show ?thesis
  proof cases
    case failed
    then show ?thesis using pre(3) init by (simp add: tx_ok_def)
  next
    case accepted
    then show ?thesis
      using accept_loop_updates [OF run [unfolded accepted(1)]] pre(3) init by (simp add: tx_ok_def)
  qed
qed (use assms in \<open>auto simp: accept_def\<close>)

lemma seal_ok:
  assumes "ok before tx w" "seal pub tx w = (r, tx', w')"
  shows "ok before tx' w' \<and> obs w' = obs w"
proof (cases "tx_state tx \<in> {Accepted, Sealed}")
  case True
  define tx1 where "tx1 = (if tx_state tx = Accepted
      then tx\<lparr>tx_finalize_pending := tx_accepted tx, tx_accepted := [], tx_state := Sealed\<rparr> else tx)"
  obtain pending fs recs w1 where fl:
      "finalize_loop pub (tx_finalize_pending tx1) (tx_recoveries tx1) w = (pending, fs, recs, w1)"
    by (metis prod_cases4)
  have t: "tx' = tx1\<lparr>tx_finalize_pending := pending, tx_recoveries := recs\<rparr>" "w' = w1"
    using assms(2) True fl unfolding seal_def tx1_def by (auto simp: Let_def)
  have live: "\<forall>p\<in>set (handles (tx_finalize_pending tx1)). status w p = Live"
    and pre: "inv w" "wf_cursors (tx_initial tx1)" "tx_prepared tx1 = []" "tx_accepted tx1 = []" "tx_state tx1 = Sealed"
    using assms(1) True by (auto simp: tx1_def tx_ok_def log_inv_def)
  have "inv w1 \<and> obs w1 = obs w \<and> status w1 = status w \<and> set (handles pending) \<subseteq> set (handles (tx_finalize_pending tx1))"
    by (rule finalize_loop_obs [OF pre(1) live fl])
  then show ?thesis using t live pre by (auto simp: tx_ok_def)
qed (use assms in \<open>auto simp: seal_def\<close>)

lemma abort_ok:
  assumes "ok before tx w" "abort pub tx w = (r, tx', w')"
  shows "ok before tx' w'"
proof -
  obtain r1 tx1 w1 where rj: "reject pub tx w = (r1, tx1, w1)" by (metis prod_cases3)
  obtain r2 tx2 w2 where rb: "rollback_accepted pub tx w = (r2, tx2, w2)" by (metis prod_cases3)
  consider (staged) "tx_state tx = Staged" | (accepted) "tx_state tx = Accepted"
    | (other) "tx_state tx \<noteq> Staged" "tx_state tx \<noteq> Accepted" by blast
  then show ?thesis
  proof cases
    case staged
    then have "tx' = tx1" "w' = w1" using assms(2) rj by (simp_all add: abort_def)
    then show ?thesis using reject_ok [OF assms(1) rj] by simp
  next
    case accepted
    then have "tx' = tx2" "w' = w2" using assms(2) rb by (simp_all add: abort_def)
    then show ?thesis using rollback_accepted_ok [OF assms(1) rb] by simp
  next
    case other
    then show ?thesis using assms by (simp add: abort_def)
  qed
qed

lemma tx_step_ok:
  assumes "tx_step pub (tx, w) (tx', w')" "ok before tx w"
  shows "ok before tx' w'"
  using assms(1)
proof (rule tx_stepE)
  show "ok before tx' w'" if "reject pub tx w = (r, tx', w')" for r
    using that by (rule reject_ok [OF assms(2)])
  show "ok before tx' w'" if "accept pub tx w = (r, tx', w')" for r
    using that by (rule accept_ok [OF assms(2)])
  show "ok before tx' w'" if "rollback_accepted pub tx w = (r, tx', w')" for r
    using that by (rule rollback_accepted_ok [OF assms(2)])
  show "ok before tx' w'" if "seal pub tx w = (r, tx', w')" for r
    using that by (rule seal_ok [OF assms(2), THEN conjunct1])
  show "ok before tx' w'" if "abort pub tx w = (r, tx', w')" for r
    using that by (rule abort_ok [OF assms(2)])
qed

lemma new_transaction_ok:
  assumes "inv w" "wf_cursors cursors" "\<forall>e\<in>set (ep_effects plan). effect_ok e"
    and "new_transaction pub plan cursors w = (Returned (), tx, w')"
  shows "ok (obs w) tx w' \<and> tx_state tx = Staged"
proof -
  let ?e = "empty_transaction plan cursors"
  obtain r1 tx1 w1 where r1: "prepare_all pub (ep_effects plan) ?e w = (r1, tx1, w1)"
    by (metis prod_cases3)
  have "is_ok (mapE (stale_effect cursors) (ep_effects plan))"
    using assms(4) by (cases "mapE (stale_effect cursors) (ep_effects plan)") (simp_all add: new_transaction_def)
  then obtain us where us: "mapE (stale_effect cursors) (ep_effects plan) = Inr us" by (auto simp: is_ok_iff)
  have "r1 = Returned () \<and> w1 = w' \<and> tx1\<lparr>tx_state := Staged\<rparr> = tx"
    using assms(4) by (cases r1) (simp_all add: new_transaction_def us r1)
  then have run: "prepare_all pub (ep_effects plan) ?e w = (Returned (), tx1, w')"
    and tx: "tx = tx1\<lparr>tx_state := Staged\<rparr>" using r1 by (simp_all only: simp_thms)
  have "inv w' \<and> obs w' = obs w \<and> tx_initial tx1 = cursors \<and> tx_accepted tx1 = []
      \<and> log_inv (status w') footprint saved (obs w) (obs w') (handles (tx_prepared tx1)) []
      \<and> (\<forall>(e, p, a)\<in>set (tx_prepared tx1). effect_ok e \<and> 1 \<le> a \<and> a \<le> attempt_limit e)"
    using prepare_all_staged [OF assms(1) _ refl _ _ assms(3) run]
    by (simp add: empty_transaction_def log_inv_def same_outside_def)
  then show ?thesis using assms(2) by (elim conjE) (simp add: tx tx_ok_def)
qed

lemma reachable_ok:
  assumes "(tx_step pub)\<^sup>*\<^sup>* (tx0, w0) (tx, w)" "ok before tx0 w0"
  shows "ok before tx w"
proof -
  have "ok before (fst s) (snd s)" if "(tx_step pub)\<^sup>*\<^sup>* (tx0, w0) s" for s
    using that
  proof (induction rule: rtranclp_induct)
    case base
    then show ?case using assms(2) by simp
  next
    case (step y z)
    then show ?case using tx_step_ok [of "fst y" "snd y" "fst z" "snd z" before] by simp
  qed
  from this [OF assms(1)] show ?thesis by simp
qed

end

lemma prepare_all_initial: "prepare_all pub es tx w = (r, tx', w') \<Longrightarrow> tx_initial tx' = tx_initial tx"
proof (induction es arbitrary: tx w)
  case (Cons e es)
  obtain q a x w1 where po: "prepare_one pub e 0 None w = ((q, a, x), w1)" by (metis prod_cases3 surj_pair)
  show ?case
  proof (cases q)
    case (Some p)
    then have "prepare_all pub es (tx\<lparr>tx_prepared := tx_prepared tx @ [(e, p, a)]\<rparr>) w1 = (r, tx', w')"
      using Cons.prems po by simp
    from Cons.IH [OF this] show ?thesis by simp
  next
    case None
    show ?thesis
    proof (cases "se_action e = SkipSampleReported")
      case False
      then have "fail_tx pub x (tx_initial tx) [] [] tx w1 = (r, tx', w')" using Cons.prems po None by simp
      then show ?thesis by (auto simp: fail_tx_def discard_staged_def Let_def split: prod.splits)
    next
      case True
      show ?thesis
      proof (cases "mk_skipped (se_identity e) (se_consumer e) (ascii ''prepare'') a (reason x)")
        case (Inl err)
        then show ?thesis using Cons.prems po None True by simp
      next
        case (Inr s)
        then have "prepare_all pub es (tx\<lparr>tx_skipped := tx_skipped tx @ [s]\<rparr>) w1 = (r, tx', w')"
          using Cons.prems po None True by simp
        from Cons.IH [OF this] show ?thesis by simp
      qed
    qed
  qed
qed simp

lemma new_transaction_initial:
  assumes "new_transaction pub plan cursors w = (r, tx, w')"
  shows "tx_initial tx = cursors"
proof (cases "mapE (stale_effect cursors) (ep_effects plan)")
  case (Inl err)
  then show ?thesis using assms by (auto simp: new_transaction_def empty_transaction_def)
next
  case (Inr us)
  obtain r1 tx1 w1 where p: "prepare_all pub (ep_effects plan) (empty_transaction plan cursors) w = (r1, tx1, w1)"
    by (metis prod_cases3)
  have "tx_initial tx = tx_initial tx1" using assms Inr p by (cases r1) (auto simp: new_transaction_def)
  then show ?thesis using prepare_all_initial [OF p] by (simp add: empty_transaction_def)
qed

lemma release_all_clean:
  assumes "\<forall>p recs w. fst (rel p recs w) = None" "release_all rel xs recs w = (rb, ds, recs', w')"
  shows "ds = []"
  using assms(2)
proof (induction xs arbitrary: recs w rb ds recs' w')
  case (Cons a xs)
  obtain e p x where a: "a = (e, p, x)" by (metis prod_cases3)
  obtain recs1 w1 where "rel p recs w = (None, recs1, w1)" using assms(1) by (metis prod.collapse)
  moreover obtain rb2 ds2 recs2 w2 where "release_all rel xs recs1 w1 = (rb2, ds2, recs2, w2)"
    by (metis prod_cases4)
  ultimately show ?case using Cons by (auto simp: a)
qed simp

text \<open>When no release can fail, the report of a failed acceptance holds the reason only.\<close>

lemma accept_loop_clean:
  assumes "\<forall>p recs w. fst (discard pub p recs w) = None" "\<forall>p recs w. fst (rollback pub p recs w) = None"
    and "accept_loop pub cursors published pending tx w = (Publication_error rep, tx', w')"
  shows "length (rp_diagnostics rep) = 1"
  using assms(3)
proof (induction "attempts_left pending" arbitrary: cursors published pending tx w rule: less_induct)
  case less
  have abandon: "length (rp_diagnostics rep) = 1"
    if "abandon pub x [] rb rest tx1 w1 = (Publication_error rep, tx', w')" for x rb rest tx1 w1
    using that release_all_clean [OF assms(1)] release_all_clean [OF assms(2)]
    by (fastforce simp: abandon_def fail_tx_def discard_staged_def rollback_all_accepted_def Let_def
        split: prod.splits)
  have give: "length (rp_diagnostics rep) = 1"
    if "give_up pub c pb e k x None rest tx1 w1 = Stop (Publication_error rep, tx', w')" for c pb e k x rest tx1 w1
    using that abandon by (auto simp: give_up_def option_list_def Let_def split: if_splits sum.splits)
  show ?case
  proof (cases pending)
    case (Cons a rest)
    obtain e p k where a: "a = (e, p, k)" by (metis prod_cases3)
    show ?thesis
    proof (cases "accept_turn pub cursors published e p k rest tx w")
      case (Next c' pb' pending' tx1 w1)
      then have "accept_loop pub c' pb' pending' tx1 w1 = (Publication_error rep, tx', w')"
        using less.prems by (simp add: Cons a accept_loop.simps(2))
      then show ?thesis using less.hyps accept_turn_measure [OF Next] by (simp add: Cons a)
    next
      case (Stop res)
      then have stop: "accept_turn pub cursors published e p k rest tx w = Stop (Publication_error rep, tx', w')"
        using less.prems by (simp add: Cons a accept_loop.simps(2))
      obtain pr w1 where pr: "publish_checked pub e p w = (pr, w1)" by fastforce
      obtain recs w2 where rb: "rollback pub p (tx_recoveries tx) w1 = (None, recs, w2)"
        using assms(2) by (metis prod.collapse)
      obtain q a' y w3 where po: "prepare_one pub e k None w2 = ((q, a', y), w3)"
        by (metis prod_cases3 surj_pair)
      show ?thesis
        using stop pr rb po give
        by (cases pr; cases q) (auto simp: accept_turn_def Let_def split: sum.splits if_splits)
    qed
  qed (use less.prems in auto)
qed

context reporting_publisher
begin

lemma accept_outcome:
  assumes "inv w" "wf_cursors cursors" "\<forall>e\<in>set (ep_effects plan). effect_ok e"
    and "new_transaction pub plan cursors w = (Returned (), tx, w1)" "accept pub tx w1 = (r, tx', w2)"
  shows "case r of
     Raised err \<Rightarrow> False
   | Returned rep \<Rightarrow>
       tx_state tx' = Accepted \<and> rp_published rep = map (\<lambda>(e, p, x). x) (tx_accepted tx')
       \<and> same_outside (\<Union> (footprint ` set (handles (tx_accepted tx')))) (obs w2) (obs w)
       \<and> foldE replace_cursor (tx_updates tx') cursors = Inr (rp_cursors rep)
   | Publication_error rep \<Rightarrow>
       tx_state tx' = Failed \<and> rp_cursors rep = cursors \<and> rp_published rep = []
       \<and> (length (rp_diagnostics rep) = 1 \<longrightarrow> obs w2 = obs w)"
proof -
  have staged: "ok (obs w) tx w1" "tx_state tx = Staged"
    using new_transaction_ok [OF assms(1-4)] by simp_all
  have init: "tx_initial tx = cursors" using new_transaction_initial [OF assms(4)] .
  let ?tx = "tx\<lparr>tx_prepared := []\<rparr>"
  have run: "accept_loop pub cursors [] (tx_prepared tx) ?tx w1 = (r, tx', w2)"
    using assms(5) staged(2) init by (simp add: accept_def)
  have pre: "inv w1" "tx_accepted tx = []" "\<forall>(e, p, a)\<in>set (tx_prepared tx). effect_ok e \<and> 1 \<le> a"
    "log_inv (status w1) footprint saved (obs w) (obs w1) (handles (tx_prepared tx)) (handles (tx_accepted ?tx))"
    using staged by (auto simp: tx_ok_def)
  show ?thesis
  proof (cases r)
    case (Returned rep)
    from accept_loop_obs [OF pre(1) _ pre(4) run]
    have "tx_state tx' = Accepted" "log_inv (status w2) footprint saved (obs w) (obs w2) [] (handles (tx_accepted tx'))"
      by (auto simp: Returned)
    moreover from accept_loop_updates [OF run [unfolded Returned]] pre(2)
    have "rp_published rep = map (\<lambda>(e, p, x). x) (tx_accepted tx')"
      "foldE replace_cursor (tx_updates tx') cursors = Inr (rp_cursors rep)" by auto
    ultimately show ?thesis by (simp add: Returned log_inv_def)
  next
    case (Publication_error rep)
    from accept_loop_obs [OF pre(1) _ pre(4) run] show ?thesis
      by (auto simp: Publication_error init)
  next
    case (Raised err)
    then show ?thesis using accept_loop_not_raised [OF assms(2) pre(3) run, of err] by simp
  qed
qed

end

end
