(* ===== verification/Diagnostic_Publisher.thy ===== *)
theory Diagnostic_Publisher
  imports Consumer_Transaction
begin

text \<open>
  The diagnostic publisher of \<^verbatim>\<open>pops/runtime/_runtime_consumers.py\<close>: \<^verbatim>\<open>RuntimeConsumerPublisher\<close> restricted
  to diagnostics (\<^verbatim>\<open>_prepare_diagnostic\<close>, \<^verbatim>\<open>_publish_diagnostics\<close>, \<^verbatim>\<open>_discard_diagnostics\<close>) and the prepared
  objects \<^verbatim>\<open>_PreparedDiagnostic\<close>.  It is the provider on which the publisher contract of
  \<open>Consumer_Transaction\<close> is discharged.

  \<^item> The world holds the registries of accepted diagnostics and baselines, the two pending tables and
    a heap of prepared objects with their mutable flags.
  \<^item> The native reductions, the native recorder and the console are the record \<open>native\<close>, a parameter;
    a call that raises returns the exception.
\<close>

subsection \<open>State\<close>

record 'v prepared_diagnostic =
  pd_id :: nat
  pd_effect :: side_effect
  pd_values :: "(pystr \<times> 'v) list"
  pd_updates :: "(pystr \<times> 'v) list"
  pd_previous :: "(pystr \<times> 'v option) list"
  pd_previous_baselines :: "(pystr \<times> 'v option) list"

record 'v diag_world =
  dw_diagnostics :: "pystr \<rightharpoonup> 'v"
  dw_baselines :: "pystr \<rightharpoonup> 'v"
  dw_pending :: "pystr \<rightharpoonup> (pystr \<times> 'v) list"
  dw_pending_baselines :: "pystr \<rightharpoonup> (pystr \<times> 'v) list"
  dw_objects :: "nat \<rightharpoonup> 'v prepared_diagnostic \<times> bool \<times> bool"
  dw_next :: nat

record 'v native =
  nat_values :: "side_effect \<Rightarrow> bool \<Rightarrow> (pystr \<rightharpoonup> 'v) \<Rightarrow> exn + (pystr \<times> 'v) list \<times> (pystr \<times> 'v) list"
  nat_record :: "pystr \<Rightarrow> 'v \<Rightarrow> exn option"
  nat_console :: "side_effect \<Rightarrow> bool"
  nat_emit :: "side_effect \<Rightarrow> (pystr \<times> 'v) list \<Rightarrow> exn option"
  nat_artifact :: "side_effect \<Rightarrow> (pystr \<times> 'v) list \<Rightarrow> pystr"

definition effect_token :: "'v prepared_diagnostic \<Rightarrow> pystr" where
  "effect_token p = token (se_identity (pd_effect p))"

subsection \<open>Preparation\<close>

fun contains :: "pystr \<Rightarrow> pystr \<Rightarrow> bool" where
  "contains needle [] = (needle = [])"
| "contains needle (c # cs) = (take (length needle) (c # cs) = needle \<or> contains needle cs)"

definition step_change_unavailable :: "exn \<Rightarrow> bool" where
  "step_change_unavailable x =
     (fst x = ascii ''RuntimeError''
      \<and> (contains (ascii ''step-change L2 unavailable after an AMR topology change'') (snd x)
         \<or> contains (ascii ''step_change_l2 requires an active external step transaction'') (snd x)))"

text \<open>The values: a console diagnostic is measured again without \<^verbatim>\<open>step_change_l2\<close> when that is unavailable.\<close>

definition diagnostic_values ::
  "'v native \<Rightarrow> side_effect \<Rightarrow> (pystr \<rightharpoonup> 'v) \<Rightarrow> exn + (pystr \<times> 'v) list \<times> (pystr \<times> 'v) list" where
  "diagnostic_values nv e baselines =
     (case nat_values nv e False baselines of
        Inr v \<Rightarrow> Inr v
      | Inl x \<Rightarrow> if nat_console nv e \<and> step_change_unavailable x then nat_values nv e True baselines else Inl x)"

definition prepare_diagnostic ::
  "'v native \<Rightarrow> side_effect \<Rightarrow> 'v diag_world \<Rightarrow> (exn + 'v prepared_diagnostic) \<times> 'v diag_world" where
  "prepare_diagnostic nv e w =
     (case diagnostic_values nv e (dw_baselines w) of
        Inl x \<Rightarrow> (Inl x, w)
      | Inr (values, updates) \<Rightarrow>
          (let p = \<lparr>pd_id = dw_next w, pd_effect = e, pd_values = values, pd_updates = updates,
                    pd_previous = map (\<lambda>(t, _). (t, dw_diagnostics w t)) values,
                    pd_previous_baselines = map (\<lambda>(t, _). (t, dw_baselines w t)) updates\<rparr>
           in (Inr p, w\<lparr>dw_pending := (dw_pending w)(token (se_identity e) \<mapsto> values),
                        dw_pending_baselines := (dw_pending_baselines w)(token (se_identity e) \<mapsto> updates),
                        dw_objects := (dw_objects w)(dw_next w \<mapsto> (p, False, False)),
                        dw_next := dw_next w + 1\<rparr>)))"

definition object_flags :: "'v prepared_diagnostic \<Rightarrow> 'v diag_world \<Rightarrow> bool \<times> bool" where
  "object_flags p w = (case dw_objects w (pd_id p) of Some (_, f) \<Rightarrow> f | None \<Rightarrow> (False, False))"

definition set_flags :: "bool \<times> bool \<Rightarrow> 'v prepared_diagnostic \<Rightarrow> 'v diag_world \<Rightarrow> 'v diag_world" where
  "set_flags f p w = w\<lparr>dw_objects := (dw_objects w)(pd_id p \<mapsto> (p, f))\<rparr>"

subsection \<open>The callbacks\<close>

definition pop_pending :: "pystr \<Rightarrow> 'v diag_world \<Rightarrow> 'v diag_world" where
  "pop_pending t w =
     w\<lparr>dw_pending := (dw_pending w)(t := None), dw_pending_baselines := (dw_pending_baselines w)(t := None)\<rparr>"

definition discard_diagnostics :: "'v prepared_diagnostic \<Rightarrow> 'v diag_world \<Rightarrow> 'v diag_world" where
  "discard_diagnostics p w = pop_pending (effect_token p) w"

text \<open>\<^verbatim>\<open>for key, value in updates: baselines.setdefault(key, value)\<close>.\<close>

definition set_defaults :: "(pystr \<times> 'v) list \<Rightarrow> (pystr \<rightharpoonup> 'v) \<Rightarrow> (pystr \<rightharpoonup> 'v)" where
  "set_defaults us m = foldl (\<lambda>m (k, v). if m k = None then m(k \<mapsto> v) else m) m us"

text \<open>Store and record each value; the first recorder failure ends the loop.\<close>

fun store_values ::
  "'v native \<Rightarrow> (pystr \<times> 'v) list \<Rightarrow> (pystr \<rightharpoonup> 'v) \<Rightarrow> exn option \<times> (pystr \<rightharpoonup> 'v)" where
  "store_values nv [] m = (None, m)"
| "store_values nv ((t, v) # vs) m =
     (case nat_record nv t v of
        Some x \<Rightarrow> (Some x, m(t \<mapsto> v))
      | None \<Rightarrow> store_values nv vs (m(t \<mapsto> v)))"

definition publish_diagnostics ::
  "'v native \<Rightarrow> 'v prepared_diagnostic \<Rightarrow> 'v diag_world \<Rightarrow> exn option \<times> 'v diag_world" where
  "publish_diagnostics nv p w =
     (let updates = (case dw_pending_baselines w (effect_token p) of Some us \<Rightarrow> us | None \<Rightarrow> []);
          w1 = w\<lparr>dw_baselines := set_defaults updates (dw_baselines w)\<rparr>;
          (x, m) = store_values nv (pd_values p) (dw_diagnostics w1);
          w2 = w1\<lparr>dw_diagnostics := m\<rparr>
      in case x of
           Some e \<Rightarrow> (Some e, w2)
         | None \<Rightarrow> (None, pop_pending (effect_token p) w2))"

definition publish_callback ::
  "'v native \<Rightarrow> 'v prepared_diagnostic \<Rightarrow> 'v diag_world \<Rightarrow> exn option \<times> 'v diag_world" where
  "publish_callback nv p w =
     (case publish_diagnostics nv p w of
        (Some x, w') \<Rightarrow> (Some x, w')
      | (None, w') \<Rightarrow>
          (if nat_console nv (pd_effect p) then nat_emit nv (pd_effect p) (pd_values p) else None, w'))"

text \<open>
  The closure \<^verbatim>\<open>rollback\<close> of \<^verbatim>\<open>_prepare_diagnostic\<close>: put back what \<^verbatim>\<open>previous\<close> remembers, or remove the
  entry that did not exist.
\<close>

fun put_back :: "(pystr \<times> 'v option) list \<Rightarrow> (pystr \<rightharpoonup> 'v) \<Rightarrow> (pystr \<rightharpoonup> 'v)" where
  "put_back [] m = m"
| "put_back ((t, old) # previous) m = put_back previous (m(t := old))"

definition rollback_callback :: "'v prepared_diagnostic \<Rightarrow> 'v diag_world \<Rightarrow> 'v diag_world" where
  "rollback_callback p w =
     pop_pending (effect_token p)
       (w\<lparr>dw_diagnostics := put_back (pd_previous p) (dw_diagnostics w),
          dw_baselines := put_back (pd_previous_baselines p) (dw_baselines w)\<rparr>)"

subsection \<open>The prepared object\<close>

definition exn_of :: "py_error \<Rightarrow> exn" where
  "exn_of e = (case e of
      TypeError s \<Rightarrow> (ascii ''TypeError'', ascii s) | ValueError s \<Rightarrow> (ascii ''ValueError'', ascii s)
    | KeyError s \<Rightarrow> (ascii ''KeyError'', ascii s) | IndexError s \<Rightarrow> (ascii ''IndexError'', ascii s)
    | OverflowError s \<Rightarrow> (ascii ''OverflowError'', ascii s)
    | ZeroDivisionError s \<Rightarrow> (ascii ''ZeroDivisionError'', ascii s)
    | RuntimeError s \<Rightarrow> (ascii ''RuntimeError'', ascii s)
    | NotImplementedError s \<Rightarrow> (ascii ''NotImplementedError'', ascii s))"

definition diagnostic_receipt ::
  "'v native \<Rightarrow> 'v prepared_diagnostic \<Rightarrow> exn + publication_receipt" where
  "diagnostic_receipt nv p =
     (case mk_receipt (se_identity (pd_effect p)) (cp_identity (se_payload (pd_effect p)))
             (ascii ''pops.runtime-diagnostic.v1'') (nat_artifact nv (pd_effect p) (pd_values p)) SERIAL [] of
        Inl err \<Rightarrow> Inl (exn_of err)
      | Inr r \<Rightarrow> Inr r)"

definition publish_prepared ::
  "'v native \<Rightarrow> 'v prepared_diagnostic \<Rightarrow> 'v diag_world \<Rightarrow> (exn + publication_receipt) \<times> 'v diag_world" where
  "publish_prepared nv p w =
     (let (published, discarded) = object_flags p w
      in if discarded
         then (Inl (ascii ''RuntimeError'', ascii ''discarded diagnostic cannot be published''), w)
         else if published then (diagnostic_receipt nv p, w)
         else case publish_callback nv p (set_flags (True, False) p w) of
                (Some x, w') \<Rightarrow> (Inl x, set_flags (False, True) p (rollback_callback p w'))
              | (None, w') \<Rightarrow> (diagnostic_receipt nv p, w'))"

definition discard_prepared ::
  "'v prepared_diagnostic \<Rightarrow> 'v diag_world \<Rightarrow> exn option \<times> 'v diag_world" where
  "discard_prepared p w =
     (let (published, discarded) = object_flags p w
      in (None, if \<not> published \<and> \<not> discarded then set_flags (False, True) p (discard_diagnostics p w) else w))"

definition rollback_prepared ::
  "'v prepared_diagnostic \<Rightarrow> 'v diag_world \<Rightarrow> exn option \<times> 'v diag_world" where
  "rollback_prepared p w =
     (let (published, discarded) = object_flags p w
      in (None, if discarded then w
                else set_flags (False, True) p
                       (if published then rollback_callback p w else discard_diagnostics p w)))"

definition diagnostic_publisher :: "'v native \<Rightarrow> ('v diag_world, 'v prepared_diagnostic) publisher" where
  "diagnostic_publisher nv =
     \<lparr>prepare_op = prepare_diagnostic nv,
      effect_of = (\<lambda>p. se_identity (pd_effect p)),
      payload_of = (\<lambda>p. cp_identity (se_payload (pd_effect p))),
      publish_op = publish_prepared nv,
      discard_op = discard_prepared,
      rollback_op = rollback_prepared,
      finalize_op = (\<lambda>p w. (None, w)),
      recoveries_op = (\<lambda>p w. Inr [])\<rparr>"

subsection \<open>The contract holds\<close>

text \<open>
  What the registry relies on: the baseline keys a measurement returns are determined by the effect
  (they are built of its quantities and operation names), and native failures carry a message.
\<close>

locale diagnostic_native =
  fixes nv :: "'v native" and keys :: "pystr \<Rightarrow> pystr list"
  assumes update_keys: "nat_values nv e s b = Inr (vs, us) \<Longrightarrow> map fst us = keys (token (se_identity e))"
    and values_canonical: "nat_values nv e s b = Inl x \<Longrightarrow> canonical_exn x"
    and record_canonical: "nat_record nv t v = Some y \<Longrightarrow> canonical_exn y"
    and emit_canonical: "nat_emit nv e vs = Some y \<Longrightarrow> canonical_exn y"

definition object_ok :: "(pystr \<Rightarrow> pystr list) \<Rightarrow> nat \<Rightarrow> nat \<Rightarrow> 'v prepared_diagnostic \<Rightarrow> bool" where
  "object_ok keys next_id i q \<longleftrightarrow> i < next_id \<and> pd_id q = i
     \<and> map fst (pd_previous q) = map fst (pd_values q)
     \<and> map fst (pd_previous_baselines q) = map fst (pd_updates q)
     \<and> map fst (pd_updates q) = keys (effect_token q)"

definition diag_inv :: "(pystr \<Rightarrow> pystr list) \<Rightarrow> 'v diag_world \<Rightarrow> bool" where
  "diag_inv keys w \<longleftrightarrow>
     (\<forall>i q f. dw_objects w i = Some (q, f) \<longrightarrow> object_ok keys (dw_next w) i q)
     \<and> (\<forall>i q. dw_objects w i \<noteq> Some (q, True, True))
     \<and> (\<forall>t us. dw_pending_baselines w t = Some us \<longrightarrow> map fst us = keys t)"

definition diag_obs :: "'v diag_world \<Rightarrow> pystr + pystr \<Rightarrow> 'v option" where
  "diag_obs w k = (case k of Inl t \<Rightarrow> dw_diagnostics w t | Inr t \<Rightarrow> dw_baselines w t)"

definition diag_footprint :: "'v prepared_diagnostic \<Rightarrow> (pystr + pystr) set" where
  "diag_footprint p = Inl ` fst ` set (pd_previous p) \<union> Inr ` fst ` set (pd_previous_baselines p)"

definition diag_saved :: "'v prepared_diagnostic \<Rightarrow> pystr + pystr \<Rightarrow> 'v option" where
  "diag_saved p k = (case k of Inl t \<Rightarrow> put_back (pd_previous p) Map.empty t
                     | Inr t \<Rightarrow> put_back (pd_previous_baselines p) Map.empty t)"

definition diag_status :: "'v diag_world \<Rightarrow> 'v prepared_diagnostic \<Rightarrow> pub_status" where
  "diag_status w p = (case dw_objects w (pd_id p) of
      None \<Rightarrow> Unused
    | Some (q, published, discarded) \<Rightarrow>
        if q \<noteq> p then Unused else if discarded then Dead else if published then Live else Fresh)"

lemma put_back_outside: "t \<notin> fst ` set xs \<Longrightarrow> put_back xs m t = m t"
  by (induction xs m rule: put_back.induct) auto

lemma put_back_inside: "t \<in> fst ` set xs \<Longrightarrow> put_back xs m t = put_back xs m' t"
proof (induction xs arbitrary: m m')
  case (Cons x xs)
  then show ?case
    by (cases x; cases "t \<in> fst ` set xs") (auto simp: put_back_outside)
qed simp

lemma put_back_const:
  "\<forall>(t, old)\<in>set xs. old = m t \<Longrightarrow> t \<in> fst ` set xs \<Longrightarrow> put_back xs m' t = m t"
proof (induction xs arbitrary: m')
  case (Cons x xs)
  then show ?case
    by (cases x; cases "t \<in> fst ` set xs") (auto simp: put_back_outside)
qed simp

lemma set_defaults_outside: "t \<notin> fst ` set us \<Longrightarrow> set_defaults us m t = m t"
  by (induction us arbitrary: m) (auto simp: set_defaults_def split: prod.splits)

lemma store_values_outside: "t \<notin> fst ` set vs \<Longrightarrow> snd (store_values nv vs m) t = m t"
  by (induction nv vs m rule: store_values.induct) (auto split: option.splits)

lemma store_values_exn: "store_values nv vs m = (Some x, m') \<Longrightarrow> \<exists>t v. nat_record nv t v = Some x"
  by (induction nv vs m rule: store_values.induct) (auto split: option.splits)

lemma set_flags_simps [simp]:
  "dw_objects (set_flags f p w) = (dw_objects w)(pd_id p \<mapsto> (p, f))"
  "dw_diagnostics (set_flags f p w) = dw_diagnostics w" "dw_baselines (set_flags f p w) = dw_baselines w"
  "dw_pending_baselines (set_flags f p w) = dw_pending_baselines w" "dw_next (set_flags f p w) = dw_next w"
  by (simp_all add: set_flags_def)

lemma pop_pending_simps [simp]:
  "dw_objects (pop_pending t w) = dw_objects w" "dw_diagnostics (pop_pending t w) = dw_diagnostics w"
  "dw_baselines (pop_pending t w) = dw_baselines w" "dw_next (pop_pending t w) = dw_next w"
  "dw_pending_baselines (pop_pending t w) = (dw_pending_baselines w)(t := None)"
  by (simp_all add: pop_pending_def)

lemma diag_status_flags:
  assumes "diag_status w p \<noteq> Unused"
  obtains f where "dw_objects w (pd_id p) = Some (p, f)" "object_flags p w = f"
    "diag_status w p = (if snd f then Dead else if fst f then Live else Fresh)"
  using assms by (auto simp: diag_status_def object_flags_def split: option.splits if_splits prod.splits)

lemma diag_status_set_flags:
  assumes "dw_objects w (pd_id p) = Some (p, f0)"
  shows "diag_status (set_flags f p w) =
     (diag_status w)(p := if snd f then Dead else if fst f then Live else Fresh)"
  using assms by (intro ext) (auto simp: diag_status_def split: option.splits prod.splits)

lemma diag_status_cong: "dw_objects w' = dw_objects w \<Longrightarrow> diag_status w' = diag_status w"
  by (intro ext) (simp add: diag_status_def)

lemma diag_inv_set_flags:
  assumes "diag_inv keys w" "dw_objects w (pd_id p) = Some (p, f0)" "f \<noteq> (True, True)"
  shows "diag_inv keys (set_flags f p w)"
  using assms by (auto simp: diag_inv_def split: if_splits)

lemma diag_inv_pop: "diag_inv keys w \<Longrightarrow> diag_inv keys (pop_pending t w)"
  by (auto simp: diag_inv_def split: if_splits)

lemma rollback_callback_obs:
  assumes "diag_inv keys w" "dw_objects w (pd_id p) = Some (p, f)"
  shows "diag_obs (rollback_callback p w) = override_on (diag_obs w) (diag_saved p) (diag_footprint p)"
    and "diag_inv keys (rollback_callback p w)" "dw_objects (rollback_callback p w) = dw_objects w"
proof -
  have o: "dw_diagnostics (rollback_callback p w) = put_back (pd_previous p) (dw_diagnostics w)"
    "dw_baselines (rollback_callback p w) = put_back (pd_previous_baselines p) (dw_baselines w)"
    by (simp_all add: rollback_callback_def)
  show "diag_obs (rollback_callback p w) = override_on (diag_obs w) (diag_saved p) (diag_footprint p)"
  proof
    fix k
    show "diag_obs (rollback_callback p w) k = override_on (diag_obs w) (diag_saved p) (diag_footprint p) k"
      using put_back_inside [of _ "pd_previous p" "dw_diagnostics w" Map.empty]
        put_back_inside [of _ "pd_previous_baselines p" "dw_baselines w" Map.empty]
      by (cases k) (auto simp: diag_obs_def o override_on_def diag_saved_def diag_footprint_def
          put_back_outside image_iff)
  qed
  show "diag_inv keys (rollback_callback p w)" "dw_objects (rollback_callback p w) = dw_objects w"
    using assms(1) by (auto simp: rollback_callback_def diag_inv_def split: if_splits)
qed

lemma publish_diagnostics_obs:
  assumes "diag_inv keys w" "dw_objects w (pd_id p) = Some (p, f)" "publish_diagnostics nv p w = (x, w')"
  shows "diag_inv keys w' \<and> dw_objects w' = dw_objects w \<and> same_outside (diag_footprint p) (diag_obs w') (diag_obs w)"
proof -
  define us where "us = (case dw_pending_baselines w (effect_token p) of Some us \<Rightarrow> us | None \<Rightarrow> [])"
  obtain y m where s: "store_values nv (pd_values p) (dw_diagnostics w) = (y, m)" by fastforce
  have p: "object_ok keys (dw_next w) (pd_id p) p" using assms(1,2) unfolding diag_inv_def by blast
  have keys: "fst ` set us \<subseteq> fst ` set (pd_previous_baselines p)"
  proof (cases "dw_pending_baselines w (effect_token p)")
    case (Some vs)
    then have "map fst vs = map fst (pd_previous_baselines p)"
      using assms(1) p unfolding diag_inv_def object_ok_def by metis
    then show ?thesis using Some by (simp add: us_def flip: set_map)
  qed (simp add: us_def)
  have vals: "fst ` set (pd_values p) = fst ` set (pd_previous p)"
    using p unfolding object_ok_def by (metis set_map)
  have w': "dw_objects w' = dw_objects w" "dw_next w' = dw_next w" "dw_diagnostics w' = m"
      "dw_baselines w' = set_defaults us (dw_baselines w)"
      "dw_pending_baselines w' \<in> {dw_pending_baselines w, (dw_pending_baselines w)(effect_token p := None)}"
    using assms(3) s by (auto simp: publish_diagnostics_def Let_def us_def [symmetric] split: option.splits)
  have "same_outside (diag_footprint p) (diag_obs w') (diag_obs w)"
    unfolding same_outside_def
  proof (intro allI impI)
    fix k assume k: "k \<notin> diag_footprint p"
    show "diag_obs w' k = diag_obs w k"
    proof (cases k)
      case (Inl t)
      then have "t \<notin> fst ` set (pd_values p)" using k vals by (auto simp: diag_footprint_def)
      from store_values_outside [OF this, of nv "dw_diagnostics w"] show ?thesis
        using Inl w'(3) s by (simp add: diag_obs_def)
    next
      case (Inr t)
      then have "t \<notin> fst ` set (pd_previous_baselines p)" using k unfolding diag_footprint_def by blast
      then have "t \<notin> fst ` set us" using keys by blast
      then show ?thesis using Inr w'(4) by (simp add: diag_obs_def set_defaults_outside)
    qed
  qed
  moreover have "diag_inv keys w'"
    using assms(1) w' unfolding diag_inv_def by (auto split: if_splits)
  ultimately show ?thesis using w'(1) by simp
qed

lemma publish_callback_obs:
  assumes "diag_inv keys w" "dw_objects w (pd_id p) = Some (p, f)" "publish_callback nv p w = (x, w')"
  shows "diag_inv keys w' \<and> dw_objects w' = dw_objects w \<and> same_outside (diag_footprint p) (diag_obs w') (diag_obs w)"
proof -
  obtain y w1 where "publish_diagnostics nv p w = (y, w1)" by fastforce
  moreover from this have "w' = w1" using assms(3) by (auto simp: publish_callback_def split: option.splits)
  ultimately show ?thesis using publish_diagnostics_obs [OF assms(1,2)] by simp
qed

lemma diag_obs_eq:
  "diag_obs w = diag_obs w' \<longleftrightarrow> dw_diagnostics w = dw_diagnostics w' \<and> dw_baselines w = dw_baselines w'"
  by (auto simp: diag_obs_def fun_eq_iff split: sum.splits)

lemma diag_obs_cong [simp]:
  "diag_obs (set_flags f p w) = diag_obs w" "diag_obs (pop_pending t w) = diag_obs w"
  by (auto simp: diag_obs_def fun_eq_iff split: sum.splits)

text \<open>Publication from the fresh state, with either outcome.\<close>

lemma publish_prepared_obs:
  assumes "diag_inv keys w" "diag_status w p = Fresh" "publish_prepared nv p w = (r, w')"
  shows "diag_inv keys w' \<and> same_outside (diag_footprint p) (diag_obs w') (diag_obs w) \<and>
     (diag_status w' = (diag_status w)(p := Live) \<or>
      (\<exists>x. r = Inl x) \<and> diag_status w' = (diag_status w)(p := Dead)
        \<and> (\<forall>k\<in>diag_footprint p. diag_obs w' k = diag_saved p k))"
proof -
  obtain f where f: "dw_objects w (pd_id p) = Some (p, f)" "object_flags p w = f" "f = (False, False)"
    by (rule diag_status_flags [of w p]) (use assms(2) in \<open>auto split: if_splits\<close>)
  let ?w0 = "set_flags (True, False) p w"
  obtain x w1 where pc: "publish_callback nv p ?w0 = (x, w1)" by fastforce
  have i0: "diag_inv keys ?w0" "dw_objects ?w0 (pd_id p) = Some (p, True, False)"
    using diag_inv_set_flags [OF assms(1) f(1)] by auto
  have w1: "diag_inv keys w1" "dw_objects w1 = dw_objects ?w0" "same_outside (diag_footprint p) (diag_obs w1) (diag_obs w)"
    using publish_callback_obs [OF i0 pc] by simp_all
  have o1: "dw_objects w1 (pd_id p) = Some (p, True, False)" using w1(2) i0(2) by simp
  have st1: "diag_status w1 = (diag_status w)(p := Live)"
    using diag_status_set_flags [OF f(1), of "(True, False)"] diag_status_cong [OF w1(2)] by simp
  show ?thesis
  proof (cases x)
    case None
    then have "w' = w1" using assms(3) f pc by (simp add: publish_prepared_def)
    then show ?thesis using w1 st1 by simp
  next
    case (Some y)
    then have w': "w' = set_flags (False, True) p (rollback_callback p w1)" "r = Inl y"
      using assms(3) f pc by (auto simp: publish_prepared_def)
    have rb: "diag_obs (rollback_callback p w1) = override_on (diag_obs w1) (diag_saved p) (diag_footprint p)"
      "diag_inv keys (rollback_callback p w1)" "dw_objects (rollback_callback p w1) = dw_objects w1"
      using rollback_callback_obs [OF w1(1) o1] by simp_all
    have "diag_status w' = (diag_status w)(p := Dead)"
      using diag_status_set_flags [of "rollback_callback p w1" p "(True, False)" "(False, True)"] o1 rb(3)
        diag_status_cong [OF rb(3)] st1 by (simp add: w')
    moreover have "diag_inv keys w'"
      using diag_inv_set_flags [OF rb(2)] o1 rb(3) by (simp add: w')
    ultimately show ?thesis using rb(1) w1(3) w' by (auto simp: same_outside_def override_on_def)
  qed
qed

lemma rollback_prepared_obs:
  assumes "diag_inv keys w" "diag_status w p = Live" "rollback_prepared p w = (x, w')"
  shows "diag_inv keys w' \<and> diag_obs w' = override_on (diag_obs w) (diag_saved p) (diag_footprint p)
     \<and> diag_status w' = (diag_status w)(p := Dead)"
proof -
  obtain f where f: "dw_objects w (pd_id p) = Some (p, f)" "object_flags p w = f" "f = (True, False)"
    by (rule diag_status_flags [of w p]) (use assms(2) in \<open>auto split: if_splits\<close>)
  have w': "w' = set_flags (False, True) p (rollback_callback p w)"
    using assms(3) f by (simp add: rollback_prepared_def)
  have rb: "diag_obs (rollback_callback p w) = override_on (diag_obs w) (diag_saved p) (diag_footprint p)"
    "diag_inv keys (rollback_callback p w)" "dw_objects (rollback_callback p w) = dw_objects w"
    using rollback_callback_obs [OF assms(1) f(1)] by simp_all
  then show ?thesis
    using diag_status_set_flags [of "rollback_callback p w" p f "(False, True)"] f(1) diag_status_cong [OF rb(3)]
      diag_inv_set_flags [OF rb(2), of p f "(False, True)"] by (simp add: w')
qed

lemma discard_prepared_obs:
  assumes "diag_inv keys w" "diag_status w p = Fresh" "discard_prepared p w = (x, w')"
  shows "diag_inv keys w' \<and> diag_obs w' = diag_obs w \<and> diag_status w' = (diag_status w)(p := Dead)"
proof -
  obtain f where f: "dw_objects w (pd_id p) = Some (p, f)" "object_flags p w = f" "f = (False, False)"
    by (rule diag_status_flags [of w p]) (use assms(2) in \<open>auto split: if_splits\<close>)
  have w': "w' = set_flags (False, True) p (discard_diagnostics p w)"
    using assms(3) f by (simp add: discard_prepared_def)
  have o: "dw_objects (discard_diagnostics p w) = dw_objects w" by (simp add: discard_diagnostics_def)
  show ?thesis
    using diag_status_set_flags [of "discard_diagnostics p w" p f "(False, True)"] f(1) diag_status_cong [OF o]
      diag_inv_set_flags [OF diag_inv_pop [OF assms(1), of "effect_token p"], of p f "(False, True)"]
    by (simp add: w' discard_diagnostics_def)
qed

lemma rollback_prepared_dead:
  assumes "diag_status w p = Dead" "rollback_prepared p w = (x, w')"
  shows "w' = w"
proof -
  obtain f where "object_flags p w = f" "snd f"
    by (rule diag_status_flags [of w p]) (use assms(1) in \<open>auto split: if_splits\<close>)
  then show ?thesis using assms(2) by (auto simp: rollback_prepared_def split: prod.splits)
qed

lemma exn_of_canonical:
  assumes "err = TypeError s \<or> err = ValueError s" "s \<noteq> []" "\<not> is_space (of_char (last s))"
  shows "canonical_exn (exn_of err)"
proof -
  have "\<not> is_space (of_char CHR ''T'')" "\<not> is_space (of_char CHR ''V'')" by (simp_all add: is_space_def)
  then show ?thesis using assms canonical_exn_ascii by (auto simp: exn_of_def)
qed

lemma mapE_Inl: "mapE f xs = Inl e \<Longrightarrow> \<exists>x\<in>set xs. f x = Inl e"
  by (induction xs) (auto split: sum.splits)

lemma check_text_error: "check_text s = Inl err \<Longrightarrow> err = TypeError ''must be non-empty canonical text''"
  by (simp add: check_text_def split: if_splits)

lemma mk_receipt_error:
  assumes "mk_receipt e p publisher artifact mode rows = Inl err"
  obtains s where "err = TypeError s \<or> err = ValueError s" "s \<noteq> []" "\<not> is_space (of_char (last s))"
proof -
  have "err \<in> {TypeError ''must be an exact Identity'', TypeError ''must be non-empty canonical text'',
      TypeError ''PublicationReceipt artifact rank must be an integer >= 0'',
      ValueError ''PublicationReceipt contains duplicate rank artifacts'',
      ValueError ''PER_RANK receipt must aggregate one artifact for every contiguous rank'',
      ValueError ''receipt must authenticate the sole shared rank-0 artifact''}"
    using assms
    by (auto simp: mk_receipt_def bindE_eq_Inl check_identity_def check_rank_row_def Let_def
        split: if_splits dest!: check_text_error mapE_Inl)
  then show thesis using that by (auto simp: is_space_def)
qed

context diagnostic_native
begin

lemma prepare_diagnostic_obs:
  assumes "diag_inv keys w" "prepare_diagnostic nv e w = (Inr p, w')"
  shows "diag_inv keys w' \<and> diag_obs w' = diag_obs w \<and> diag_status w p = Unused
     \<and> diag_status w' = (diag_status w)(p := Fresh) \<and> (\<forall>k\<in>diag_footprint p. diag_saved p k = diag_obs w k)"
proof -
  obtain vs us where v: "diagnostic_values nv e (dw_baselines w) = Inr (vs, us)"
    and p: "p = \<lparr>pd_id = dw_next w, pd_effect = e, pd_values = vs, pd_updates = us,
                    pd_previous = map (\<lambda>(t, _). (t, dw_diagnostics w t)) vs,
                    pd_previous_baselines = map (\<lambda>(t, _). (t, dw_baselines w t)) us\<rparr>"
    and w': "w' = w\<lparr>dw_pending := (dw_pending w)(token (se_identity e) \<mapsto> vs),
                    dw_pending_baselines := (dw_pending_baselines w)(token (se_identity e) \<mapsto> us),
                    dw_objects := (dw_objects w)(dw_next w \<mapsto> (p, False, False)),
                    dw_next := dw_next w + 1\<rparr>"
    using assms(2) by (auto simp: prepare_diagnostic_def Let_def split: sum.splits)
  have k: "map fst us = keys (token (se_identity e))"
    using v update_keys by (auto simp: diagnostic_values_def split: sum.splits if_splits)
  have new: "dw_objects w (dw_next w) = None"
  proof (rule ccontr)
    assume "dw_objects w (dw_next w) \<noteq> None"
    then obtain q f where "dw_objects w (dw_next w) = Some (q, f)" by fastforce
    then have "object_ok keys (dw_next w) (dw_next w) q" using assms(1) unfolding diag_inv_def by blast
    then show False by (simp add: object_ok_def)
  qed
  have old: "object_ok keys (dw_next w + 1) i q" if "dw_objects w i = Some (q, f)" for i q f
  proof -
    have "object_ok keys (dw_next w) i q" using assms(1) that unfolding diag_inv_def by blast
    then show ?thesis by (simp add: object_ok_def)
  qed
  have "object_ok keys (dw_next w + 1) (dw_next w) p"
    using k by (simp add: object_ok_def p effect_token_def case_prod_unfold comp_def)
  then have "diag_inv keys w'"
    using assms(1) old k by (auto simp: diag_inv_def w' split: if_splits)
  moreover have "diag_obs w' = diag_obs w" by (auto simp: diag_obs_def w' split: sum.splits)
  moreover have "diag_status w p = Unused" using new by (simp add: diag_status_def p)
  moreover have "diag_status w' = (diag_status w)(p := Fresh)"
    using new by (intro ext) (auto simp: diag_status_def w' p split: option.splits)
  moreover have "diag_saved p k = diag_obs w k" if "k \<in> diag_footprint p" for k
  proof (cases k)
    case (Inl t)
    then have "t \<in> fst ` set (pd_previous p)" using that unfolding diag_footprint_def by blast
    moreover have "\<forall>(t, old)\<in>set (pd_previous p). old = dw_diagnostics w t" by (auto simp: p)
    ultimately show ?thesis using put_back_const Inl by (simp add: diag_saved_def diag_obs_def)
  next
    case (Inr t)
    then have "t \<in> fst ` set (pd_previous_baselines p)" using that unfolding diag_footprint_def by blast
    moreover have "\<forall>(t, old)\<in>set (pd_previous_baselines p). old = dw_baselines w t" by (auto simp: p)
    ultimately show ?thesis using put_back_const Inr by (simp add: diag_saved_def diag_obs_def)
  qed
  ultimately show ?thesis by blast
qed

lemma publish_prepared_canonical:
  assumes "publish_prepared nv p w = (Inl x, w')"
  shows "canonical_exn x"
proof -
  have "canonical_exn (ascii ''RuntimeError'', ascii ''discarded diagnostic cannot be published'')"
    by (rule canonical_exn_ascii) (simp_all add: is_space_def)
  moreover have "canonical_exn y" if "publish_callback nv p w1 = (Some y, w2)" for y w1 w2
  proof -
    obtain z w3 where z: "publish_diagnostics nv p w1 = (z, w3)" by fastforce
    show ?thesis
    proof (cases z)
      case None
      then show ?thesis
        using that z emit_canonical [of "pd_effect p" "pd_values p" y] by (auto simp: publish_callback_def split: if_splits)
    next
      case (Some z')
      then have "fst (store_values nv (pd_values p) (dw_diagnostics w1)) = Some z'"
        using z by (auto simp: publish_diagnostics_def Let_def split: prod.splits option.splits)
      then have "\<exists>t v. nat_record nv t v = Some z'" using store_values_exn by (metis prod.collapse)
      then have "canonical_exn z'" using record_canonical by blast
      then show ?thesis using that z Some by (simp add: publish_callback_def)
    qed
  qed
  moreover have "canonical_exn y" if "diagnostic_receipt nv p = Inl y" for y
    using that by (auto simp: diagnostic_receipt_def split: sum.splits elim!: mk_receipt_error intro: exn_of_canonical)
  ultimately show ?thesis
    using assms by (auto simp: publish_prepared_def Let_def split: prod.splits option.splits if_splits)
qed

end

sublocale diagnostic_native \<subseteq> diag: reporting_publisher "diagnostic_publisher nv" "diag_inv keys"
  diag_obs diag_status diag_footprint diag_saved
proof (unfold_locales, goal_cases)
  case (1 w e p w')
  then show ?case using prepare_diagnostic_obs by (simp add: diagnostic_publisher_def)
next
  case (2 w e x w')
  then show ?case
    by (auto simp: diagnostic_publisher_def prepare_diagnostic_def Let_def split: sum.splits)
next
  case (3 w p r w')
  then show ?case using publish_prepared_obs [of keys w p nv "Inr r" w'] by (simp add: diagnostic_publisher_def)
next
  case (4 w p x w')
  then show ?case using publish_prepared_obs [of keys w p nv "Inl x" w'] by (auto simp: diagnostic_publisher_def)
next
  case (5 w p w')
  then show ?case using rollback_prepared_obs [of keys w p None w'] by (simp add: diagnostic_publisher_def)
next
  case (6 w p y w')
  then show ?case using rollback_prepared_dead [of w p y w'] by (simp add: diagnostic_publisher_def)
next
  case (7 w p x w')
  then show ?case by (simp add: diagnostic_publisher_def rollback_prepared_def split: prod.splits)
next
  case (8 w p y w')
  then show ?case using discard_prepared_obs [of keys w p y w'] by (auto simp: diagnostic_publisher_def)
next
  case (9 w p y w')
  then show ?case by (simp add: diagnostic_publisher_def)
next
  case (10 e w x w')
  then show ?case
    using values_canonical
    by (auto simp: diagnostic_publisher_def prepare_diagnostic_def diagnostic_values_def Let_def
        split: sum.splits if_splits)
next
  case (11 p w x w')
  then show ?case using publish_prepared_canonical by (simp add: diagnostic_publisher_def)
qed

context diagnostic_native
begin

lemma publisher_contract:
  "reporting_publisher (diagnostic_publisher nv) (diag_inv keys) diag_obs diag_status diag_footprint diag_saved"
  by unfold_locales

end

text \<open>
  Measurements without conservation checks: no baselines, and neither the recorder nor the console fails.
\<close>

definition plain_native ::
  "(side_effect \<Rightarrow> exn + (pystr \<times> 'v) list) \<Rightarrow> (side_effect \<Rightarrow> pystr) \<Rightarrow> 'v native" where
  "plain_native measured artifact =
     \<lparr>nat_values = (\<lambda>e s b. case measured e of
          Inr vs \<Rightarrow> Inr (vs, [])
        | Inl (name, message) \<Rightarrow> Inl (ascii ''RuntimeError'', ascii ''native reduction failed'')),
      nat_record = (\<lambda>t v. None), nat_console = (\<lambda>e. False), nat_emit = (\<lambda>e vs. None),
      nat_artifact = (\<lambda>e vs. artifact e)\<rparr>"

interpretation plain: diagnostic_native "plain_native measured artifact" "\<lambda>t. []" for measured artifact
proof (unfold_locales, goal_cases)
  case (2 e s b x)
  then show ?case
    by (auto simp: plain_native_def is_space_def intro!: canonical_exn_ascii split: sum.splits)
qed (auto simp: plain_native_def split: sum.splits)

subsection \<open>A concrete transaction\<close>

text \<open>Two consumers \<^verbatim>\<open>a\<close> and \<^verbatim>\<open>b\<close>, each with one diagnostic value stored under its own name.\<close>

definition sample_identity :: "string \<Rightarrow> nat \<Rightarrow> identity" where
  "sample_identity d n =
     \<lparr>id_domain = ascii d, id_schema_version = 1, id_algorithm = algorithm_name,
      id_digest = replicate 32 (word_of_nat n)\<rparr>"

definition sample_effect :: "int \<Rightarrow> string \<Rightarrow> failure_action \<Rightarrow> side_effect" where
  "sample_effect n c action =
     \<lparr>se_ordinal = n, se_consumer = ascii c, se_manifest = sample_identity ''consumer-manifest'' 0,
      se_target = \<lparr>pt_uri = ascii c, pt_format = None, pt_operation = None, pt_mode = SERIAL\<rparr>,
      se_payload = \<lparr>cp_runtime_plan = sample_identity ''runtime-plan-bundle'' 0,
        cp_occurrence = sample_identity ''consumer-occurrence'' (nat n), cp_resources = [], cp_fields = [],
        cp_identity = sample_identity ''consumer-payload'' (nat n)\<rparr>,
      se_action = action,
      se_before = \<lparr>cur_consumer = ascii c, cur_last = None, cur_samples = 0\<rparr>,
      se_after = \<lparr>cur_consumer = ascii c,
        cur_last = Some (token (sample_identity ''consumer-occurrence'' (nat n))), cur_samples = 1\<rparr>,
      se_identity = sample_identity ''accepted-side-effect'' (nat n)\<rparr>"

definition sample_plan :: "side_effect list \<Rightarrow> effect_plan" where
  "sample_plan es = \<lparr>ep_graph = sample_identity ''consumer-graph'' 0,
     ep_runtime_plan = sample_identity ''runtime-plan-bundle'' 0, ep_effects = es\<rparr>"

definition empty_world :: "'v diag_world" where
  "empty_world = \<lparr>dw_diagnostics = Map.empty, dw_baselines = Map.empty, dw_pending = Map.empty,
     dw_pending_baselines = Map.empty, dw_objects = Map.empty, dw_next = 0\<rparr>"

text \<open>The recorder refuses the values of consumer \<^verbatim>\<open>b\<close> with message \<open>m\<close>.\<close>

definition sample_native :: "pystr \<Rightarrow> int native" where
  "sample_native m =
     \<lparr>nat_values = (\<lambda>e s b. Inr ([(se_consumer e, 7)], [])),
      nat_record = (\<lambda>t v. if t = ascii ''b'' then Some (ascii ''OSError'', m) else None),
      nat_console = (\<lambda>e. False), nat_emit = (\<lambda>e vs. None), nat_artifact = (\<lambda>e vs. se_consumer e)\<rparr>"

lemma sample_native_contract:
  "m \<noteq> [] \<Longrightarrow> \<not> is_space (of_char (last m)) \<Longrightarrow> diagnostic_native (sample_native (ascii m)) (\<lambda>t. [])"
proof (unfold_locales, goal_cases)
  case (3 t v y)
  moreover have "\<not> is_space (of_char CHR ''O'')" by (simp add: is_space_def)
  ultimately show ?case
    by (auto simp: sample_native_def intro!: canonical_exn_ascii split: if_splits)
qed (auto simp: sample_native_def)

lemma empty_world_inv: "diag_inv keys empty_world"
  by (simp add: diag_inv_def empty_world_def)

lemma wf_no_cursors: "wf_cursors []"
  by (simp add: wf_cursors_def)

lemma check_text_letter: "c \<in> {CHR ''a'', CHR ''b''} \<Longrightarrow> check_text (ascii [c]) = Inr (ascii [c])"
  using check_text_ok_iff [of "ascii [c]"]
  by (auto simp: ascii_def is_space_def check_text_def split: if_splits)

lemma sample_effect_ok: "c \<in> {CHR ''a'', CHR ''b''} \<Longrightarrow> wf_action act \<Longrightarrow> effect_ok (sample_effect n [c] act)"
  by (simp add: effect_ok_def sample_effect_def sample_identity_def check_text_letter)

lemma sample_not_stale:
  "c \<in> {CHR ''a'', CHR ''b''} \<Longrightarrow> stale_effect [] (sample_effect n [c] act) = Inr ()"
  by (simp add: stale_effect_def for_consumer_def by_id_def mk_cursor_def check_index_def sample_effect_def
      check_text_letter)

definition sample_handle :: "nat \<Rightarrow> side_effect \<Rightarrow> int prepared_diagnostic" where
  "sample_handle i e = \<lparr>pd_id = i, pd_effect = e, pd_values = [(se_consumer e, 7)], pd_updates = [],
     pd_previous = [(se_consumer e, None)], pd_previous_baselines = []\<rparr>"

lemma sample_prepare:
  assumes "dw_diagnostics w (se_consumer e) = None" "0 < attempt_limit e"
  shows "\<exists>w'. prepare_one (diagnostic_publisher (sample_native m)) e 0 None w
       = ((Some (sample_handle (dw_next w) e), 1, None), w')
     \<and> dw_diagnostics w' = dw_diagnostics w \<and> dw_next w' = dw_next w + 1
     \<and> dw_objects w' = (dw_objects w)(dw_next w \<mapsto> (sample_handle (dw_next w) e, False, False))"
  using assms
  by (subst prepare_one.simps)
    (simp add: diagnostic_publisher_def prepare_diagnostic_def diagnostic_values_def sample_native_def
      authenticates_def sample_handle_def Let_def)

text \<open>Staging the two effects.\<close>

lemma sample_staged:
  assumes "wf_action act"
  shows "\<exists>tx w1. new_transaction (diagnostic_publisher (sample_native m))
       (sample_plan [sample_effect 0 ''a'' FailRun, sample_effect 1 ''b'' act]) [] empty_world
     = (Returned (), tx, w1) \<and> tx_state tx = Staged \<and> tx_accepted tx = [] \<and> tx_initial tx = []
     \<and> tx_recoveries tx = []
     \<and> tx_prepared tx = [(sample_effect 0 ''a'' FailRun, sample_handle 0 (sample_effect 0 ''a'' FailRun), 1),
          (sample_effect 1 ''b'' act, sample_handle 1 (sample_effect 1 ''b'' act), 1)]
     \<and> dw_diagnostics w1 = Map.empty
     \<and> dw_objects w1 = [0 \<mapsto> (sample_handle 0 (sample_effect 0 ''a'' FailRun), False, False),
          1 \<mapsto> (sample_handle 1 (sample_effect 1 ''b'' act), False, False)]"
proof -
  let ?pub = "diagnostic_publisher (sample_native m)"
  let ?a = "sample_effect 0 ''a'' FailRun" and ?b = "sample_effect 1 ''b'' act"
  have lim: "0 < attempt_limit ?a" "0 < attempt_limit ?b"
    using attempt_limit_pos [of ?a] attempt_limit_pos [of ?b] assms by (auto simp: sample_effect_def)
  obtain wa where wa: "prepare_one ?pub ?a 0 None empty_world = ((Some (sample_handle 0 ?a), 1, None), wa)"
      "dw_diagnostics wa = Map.empty" "dw_next wa = 1"
      "dw_objects wa = [0 \<mapsto> (sample_handle 0 ?a, False, False)]"
    using sample_prepare [of empty_world ?a m] lim by (auto simp: empty_world_def)
  obtain wb where wb: "prepare_one ?pub ?b 0 None wa = ((Some (sample_handle 1 ?b), 1, None), wb)"
      "dw_diagnostics wb = Map.empty"
      "dw_objects wb = [0 \<mapsto> (sample_handle 0 ?a, False, False), 1 \<mapsto> (sample_handle 1 ?b, False, False)]"
    using sample_prepare [of wa ?b m] lim wa by auto
  show ?thesis
    using wa(1) wb by (simp add: new_transaction_def sample_plan_def sample_not_stale empty_transaction_def)
qed

text \<open>Publishing them.\<close>

lemma sample_receipt: "\<exists>r. diagnostic_receipt (sample_native m) (sample_handle 0 (sample_effect 0 ''a'' FailRun)) = Inr r
    \<and> pr_effect r = sample_identity ''accepted-side-effect'' 0
    \<and> pr_payload r = sample_identity ''consumer-payload'' 0 \<and> pr_mode r = SERIAL"
proof -
  have "check_text (ascii ''pops.runtime-diagnostic.v1'') = Inr (ascii ''pops.runtime-diagnostic.v1'')"
    using check_text_ok_iff [of "ascii ''pops.runtime-diagnostic.v1''"]
    by (auto simp: ascii_def is_space_def check_text_def split: if_splits)
  then show ?thesis
    by (simp add: diagnostic_receipt_def mk_receipt_def sample_handle_def sample_effect_def sample_native_def
        check_identity_def check_text_letter check_rank_row_def sample_identity_def)
qed

lemma sample_publish_a:
  assumes "dw_diagnostics w = Map.empty"
    and "dw_objects w = [0 \<mapsto> (sample_handle 0 (sample_effect 0 ''a'' FailRun), False, False), 1 \<mapsto> y]"
  shows "\<exists>r w'. publish_checked (diagnostic_publisher (sample_native m)) (sample_effect 0 ''a'' FailRun)
       (sample_handle 0 (sample_effect 0 ''a'' FailRun)) w = (Inr r, w')
     \<and> dw_diagnostics w' = [ascii ''a'' \<mapsto> 7]
     \<and> dw_objects w' = (dw_objects w)(0 \<mapsto> (sample_handle 0 (sample_effect 0 ''a'' FailRun), True, False))"
proof -
  obtain r where r: "diagnostic_receipt (sample_native m) (sample_handle 0 (sample_effect 0 ''a'' FailRun)) = Inr r"
      "pr_effect r = sample_identity ''accepted-side-effect'' 0"
      "pr_payload r = sample_identity ''consumer-payload'' 0" "pr_mode r = SERIAL"
    using sample_receipt by blast
  have f: "object_flags (sample_handle 0 (sample_effect 0 ''a'' FailRun)) w = (False, False)"
    using assms(2) by (simp add: object_flags_def sample_handle_def)
  obtain w' where "publish_callback (sample_native m) (sample_handle 0 (sample_effect 0 ''a'' FailRun))
       (set_flags (True, False) (sample_handle 0 (sample_effect 0 ''a'' FailRun)) w) = (None, w')"
      "dw_diagnostics w' = [ascii ''a'' \<mapsto> 7]"
      "dw_objects w' = (dw_objects w)(0 \<mapsto> (sample_handle 0 (sample_effect 0 ''a'' FailRun), True, False))"
    using assms
    by (simp add: publish_callback_def publish_diagnostics_def sample_native_def sample_handle_def
        sample_effect_def ascii_def Let_def)
  then show ?thesis
    using r f
    by (simp add: publish_checked_def diagnostic_publisher_def publish_prepared_def sample_effect_def)
qed

lemma sample_publish_b:
  assumes "dw_objects w 1 = Some (sample_handle 1 (sample_effect 1 ''b'' act), False, False)"
  shows "\<exists>w'. publish_checked (diagnostic_publisher (sample_native m)) (sample_effect 1 ''b'' act)
       (sample_handle 1 (sample_effect 1 ''b'' act)) w = (Inl (ascii ''OSError'', m), w')
     \<and> dw_diagnostics w' (ascii ''a'') = dw_diagnostics w (ascii ''a'')
     \<and> dw_objects w' 1 = Some (sample_handle 1 (sample_effect 1 ''b'' act), False, True)"
  using assms
  by (simp add: publish_checked_def diagnostic_publisher_def publish_prepared_def object_flags_def
      publish_callback_def publish_diagnostics_def rollback_callback_def sample_native_def sample_handle_def
      sample_effect_def Let_def) (simp add: ascii_def)

subsection \<open>What a transaction promises\<close>



text \<open>
  C15. Every reachable state of a transaction is consistent.  From the staged state, whatever sequence of
  \<^verbatim>\<open>reject\<close>, \<^verbatim>\<open>accept\<close>, \<^verbatim>\<open>rollback_accepted\<close>, \<^verbatim>\<open>seal\<close> and \<^verbatim>\<open>abort\<close> is called: while it is staged and after it
  was rejected the published state is the one before staging; publications it still owns exist in the
  accepted state only, and cursor updates are those of exactly these; failed, rejected and sealed
  transactions own no temporary.
\<close>

theorem reachable_transaction_consistent:
  assumes "reporting_publisher pub good obs status footprint saved" "good w" "wf_cursors cursors"
    and "\<forall>e\<in>set (ep_effects plan). effect_ok e"
    and "new_transaction pub plan cursors w = (Returned (), tx0, w0)"
    and "(tx_step pub)\<^sup>*\<^sup>* (tx0, w0) (tx, w')"
  shows "(tx_state tx \<in> {Staged, Rejected} \<longrightarrow> obs w' = obs w)
     \<and> (tx_accepted tx \<noteq> [] \<longrightarrow> tx_state tx = Accepted)
     \<and> (tx_state tx = Accepted \<longrightarrow> tx_updates tx = map (se_after \<circ> fst) (tx_accepted tx)
          \<and> same_outside (\<Union> (footprint ` set (handles (tx_accepted tx)))) (obs w') (obs w))
     \<and> (tx_prepared tx \<noteq> [] \<longrightarrow> tx_state tx = Staged)
     \<and> (\<forall>(e, p, a)\<in>set (tx_prepared tx). a \<le> attempt_limit e)"
proof -
  have "tx_ok good obs status footprint saved (obs w) tx0 w0"
    using reporting_publisher.new_transaction_ok [OF assms(1-5)] by simp
  then have "tx_ok good obs status footprint saved (obs w) tx w'"
    using reporting_publisher.reachable_ok [OF assms(1,6)] by blast
  then show ?thesis by (cases "tx_state tx") (auto simp: tx_ok_def log_inv_def)
qed

theorem reachable_transaction_consistent_witness:
  "\<exists>tx w1. new_transaction (diagnostic_publisher (sample_native (ascii ''disk full'')))
       (sample_plan [sample_effect 0 ''a'' FailRun, sample_effect 1 ''b'' FailRun]) [] empty_world
         = (Returned (), tx, w1)
     \<and> (\<forall>(e, p, a)\<in>set (tx_prepared tx). a \<le> attempt_limit e)"
proof -
  obtain tx w1 where tx: "new_transaction (diagnostic_publisher (sample_native (ascii ''disk full'')))
       (sample_plan [sample_effect 0 ''a'' FailRun, sample_effect 1 ''b'' FailRun]) [] empty_world
         = (Returned (), tx, w1)"
    using sample_staged [of FailRun] by fastforce
  have nv: "diagnostic_native (sample_native (ascii ''disk full'')) (\<lambda>t. [])"
    by (rule sample_native_contract) (simp_all add: is_space_def)
  have "\<forall>e\<in>set (ep_effects (sample_plan [sample_effect 0 ''a'' FailRun, sample_effect 1 ''b'' FailRun])). effect_ok e"
    by (simp add: sample_plan_def sample_effect_ok)
  from reachable_transaction_consistent
    [OF diagnostic_native.publisher_contract [OF nv] empty_world_inv wf_no_cursors this tx rtranclp.rtrancl_refl] tx
  show ?thesis by blast
qed

text \<open>
  Sealing is final.  Once sealed, no method reopens compensation: the published state is unchanged by
  every further call, the transaction stays sealed, a repeated \<^verbatim>\<open>seal\<close> only retries the releases that
  failed, and \<^verbatim>\<open>abort\<close> returns \<^verbatim>\<open>None\<close>.
\<close>

theorem sealed_is_final:
  assumes "reporting_publisher pub good obs status footprint saved"
    and "tx_ok good obs status footprint saved before tx w" "tx_state tx = Sealed"
    and "tx_step pub (tx, w) (tx', w')"
  shows "tx_state tx' = Sealed \<and> obs w' = obs w \<and> tx_updates tx' = tx_updates tx
     \<and> set (handles (tx_finalize_pending tx')) \<subseteq> set (handles (tx_finalize_pending tx))
     \<and> abort pub tx w = (Returned None, tx, w)"
proof -
  have "tx' = tx \<and> w' = w \<or> (\<exists>r. seal pub tx w = (r, tx', w'))"
    using assms(3)
    by (auto intro: tx_stepE [OF assms(4)] simp: reject_def accept_def rollback_accepted_def abort_def)
  then show ?thesis
  proof
    assume "\<exists>r. seal pub tx w = (r, tx', w')"
    then obtain r where seal: "seal pub tx w = (r, tx', w')" by blast
    obtain pending fs recs w1 where fl:
        "finalize_loop pub (tx_finalize_pending tx) (tx_recoveries tx) w = (pending, fs, recs, w1)"
      by (metis prod_cases4)
    have live: "\<forall>p\<in>set (handles (tx_finalize_pending tx)). status w p = Live" "good w"
      using assms(2,3) by (auto simp: tx_ok_def)
    have "obs w1 = obs w \<and> set (handles pending) \<subseteq> set (handles (tx_finalize_pending tx))"
      using reporting_publisher.finalize_loop_obs [OF assms(1) live(2,1) fl] by simp
    then show ?thesis using seal assms(3) fl by (auto simp: seal_def abort_def)
  qed (use assms(3) in \<open>simp add: abort_def\<close>)
qed

theorem sealed_is_final_witness:
  "\<exists>tx :: int prepared_diagnostic transaction. tx_state tx = Sealed
     \<and> abort (diagnostic_publisher (sample_native (ascii ''disk full''))) tx empty_world = (Returned None, tx, empty_world)"
proof -
  have nv: "diagnostic_native (sample_native (ascii ''disk full'')) (\<lambda>t. [])"
    by (rule sample_native_contract) (simp_all add: is_space_def)
  define tx :: "int prepared_diagnostic transaction" where
    "tx = (empty_transaction (sample_plan []) [])\<lparr>tx_state := Sealed\<rparr>"
  have ok: "tx_ok (diag_inv (\<lambda>t. [])) diag_obs diag_status diag_footprint diag_saved (diag_obs empty_world) tx empty_world"
    by (simp add: tx_ok_def tx_def empty_transaction_def empty_world_inv wf_no_cursors)
  have sealed: "tx_state tx = Sealed" by (simp add: tx_def)
  have "tx_step (diagnostic_publisher (sample_native (ascii ''disk full''))) (tx, empty_world) (tx, empty_world)"
    by (rule step_abort [where r'' = "Returned None"]) (simp add: abort_def sealed)
  from sealed_is_final [OF diagnostic_native.publisher_contract [OF nv] ok sealed this] sealed
  show ?thesis by blast
qed

text \<open>
  C17. A skip report can strand publications.  If, after a first effect was published, the publication of
  a second one under \<^verbatim>\<open>SkipSampleReported\<close> fails with an exception without message, \<^verbatim>\<open>accept\<close> raises the
  \<^verbatim>\<open>TypeError\<close> of \<^verbatim>\<open>SkippedSampleReport\<close> (the reason text ends in a blank) instead of skipping the
  sample.  The transaction is still \<open>Staged\<close> and owns the first publication in \<^verbatim>\<open>_accepted\<close>, and
  \<^verbatim>\<open>abort\<close> then reports a clean rejection without rolling it back.
\<close>

theorem skip_report_strands_publications:
  assumes "tx_state tx = Staged" "tx_prepared tx = [(e1, p1, a1), (e2, p2, a2)]" "tx_accepted tx = []"
    and "publish_checked pub e1 p1 w = (Inr receipt, w1)" "publish_checked pub e2 p2 w1 = (Inl (name, []), w2)"
    and "rollback pub p2 (tx_recoveries tx) w2 = (cl, recs, w3)"
    and "se_action e2 = SkipSampleReported" "effect_ok e2" "1 \<le> a2" "wf_cursors (tx_initial tx)"
  shows "\<exists>tx'. accept pub tx w = (Raised (TypeError ''must be non-empty canonical text''), tx', w3)
     \<and> tx_state tx' = Staged \<and> tx_accepted tx' = [(e1, p1, receipt)]
     \<and> (\<exists>rep tx''. abort pub tx' w3 = (Returned (Some rep), tx'', w3) \<and> rp_status rep = Rejected
          \<and> rp_rolled_back rep = [] \<and> rp_diagnostics rep = [])"
proof -
  obtain c1 where c1: "replace_cursor (tx_initial tx) (se_after e1) = Inr c1"
    using replace_cursor_ok [OF assms(10)] by blast
  have "last (reason (Some (name, []))) = 32" "reason (Some (name, [])) \<noteq> []"
    by (simp_all add: reason_def ascii_def)
  then have "\<not> is_ok (check_text (reason (Some (name, []))))" by (simp add: check_text_ok_iff is_space_def)
  then have sk: "mk_skipped (se_identity e2) (se_consumer e2) (ascii ''publish'') a2 (reason (Some (name, [])))
      = Inl (TypeError ''must be non-empty canonical text'')"
    using assms(8,9) by (auto simp: mk_skipped_def effect_ok_def check_identity_def is_ok_iff check_text_def
        split: if_splits)
  define tx1 where "tx1 = tx\<lparr>tx_prepared := [], tx_accepted := [(e1, p1, receipt)]\<rparr>"
  have t1: "accept_turn pub (tx_initial tx) [] e1 p1 a1 [(e2, p2, a2)] (tx\<lparr>tx_prepared := []\<rparr>) w
      = Next c1 [receipt] [(e2, p2, a2)] tx1 w1"
    using assms(3,4) c1 by (simp add: accept_turn_def tx1_def)
  have t2: "accept_turn pub c1 [receipt] e2 p2 a2 [] tx1 w1
      = Stop (Raised (TypeError ''must be non-empty canonical text''), tx1\<lparr>tx_recoveries := recs\<rparr>, w3)"
    using assms(5-7) sk by (simp add: accept_turn_def give_up_def tx1_def)
  have "accept pub tx w
      = (Raised (TypeError ''must be non-empty canonical text''), tx1\<lparr>tx_recoveries := recs\<rparr>, w3)"
    using assms(1,2) t1 t2 by (simp add: accept_def accept_loop.simps(2))
  then show ?thesis
    using assms(1) by (simp add: tx1_def abort_def reject_def discard_staged_def resolve_def resolved_report_def)
qed

theorem skip_report_strands_publications_witness:
  "\<exists>tx w1 tx' w3. new_transaction (diagnostic_publisher (sample_native []))
       (sample_plan [sample_effect 0 ''a'' FailRun, sample_effect 1 ''b'' SkipSampleReported]) [] empty_world
         = (Returned (), tx, w1)
     \<and> accept (diagnostic_publisher (sample_native [])) tx w1
         = (Raised (TypeError ''must be non-empty canonical text''), tx', w3)
     \<and> tx_state tx' = Staged \<and> dw_diagnostics w3 (ascii ''a'') = Some 7"
proof -
  let ?pub = "diagnostic_publisher (sample_native [])"
  let ?a = "sample_effect 0 ''a'' FailRun" and ?b = "sample_effect 1 ''b'' SkipSampleReported"
  obtain tx w1 where tx: "new_transaction ?pub (sample_plan [?a, ?b]) [] empty_world = (Returned (), tx, w1)"
    and st: "tx_state tx = Staged" "tx_prepared tx = [(?a, sample_handle 0 ?a, 1), (?b, sample_handle 1 ?b, 1)]"
      "tx_accepted tx = []" "tx_initial tx = []" "dw_diagnostics w1 = Map.empty"
      "dw_objects w1 = [0 \<mapsto> (sample_handle 0 ?a, False, False), 1 \<mapsto> (sample_handle 1 ?b, False, False)]"
    using sample_staged [of SkipSampleReported "[]"] by auto
  obtain r wa where pa: "publish_checked ?pub ?a (sample_handle 0 ?a) w1 = (Inr r, wa)"
      "dw_diagnostics wa = [ascii ''a'' \<mapsto> 7]"
      "dw_objects wa = (dw_objects w1)(0 \<mapsto> (sample_handle 0 ?a, True, False))"
    using sample_publish_a [OF st(5,6)] by blast
  obtain wb where pb: "publish_checked ?pub ?b (sample_handle 1 ?b) wa = (Inl (ascii ''OSError'', []), wb)"
      "dw_diagnostics wb (ascii ''a'') = Some 7" "dw_objects wb 1 = Some (sample_handle 1 ?b, False, True)"
    using sample_publish_b [of wa SkipSampleReported "[]"] pa st(6) by auto
  have rb: "rollback ?pub (sample_handle 1 ?b) (tx_recoveries tx) wb = (None, tx_recoveries tx, wb)"
    using pb(3) by (simp add: rollback_def release_def diagnostic_publisher_def rollback_prepared_def
        object_flags_def retain_recoveries_def join_failures_def sample_handle_def)
  have "effect_ok ?b" "se_action ?b = SkipSampleReported" by (simp_all add: sample_effect_ok) (simp add: sample_effect_def)
  with skip_report_strands_publications [OF st(1,2,3) pa(1) pb(1) rb] wf_no_cursors st(4)
  show ?thesis using tx pb(2) by fastforce
qed

lemma diagnostic_release:
  "fst (discard (diagnostic_publisher nv) p recs w) = None"
  "fst (rollback (diagnostic_publisher nv) p recs w) = None"
  by (auto simp: discard_def rollback_def release_def diagnostic_publisher_def retain_recoveries_def
      discard_prepared_def rollback_prepared_def join_failures_def Let_def split: prod.splits)

lemma abandon_raises: "\<exists>rep tx' w'. abandon pub x cl rb pending tx w = (Publication_error rep, tx', w')"
  by (simp add: abandon_def fail_tx_def split_beta)

text \<open>
  The diagnostic registries survive a failed transaction.  For the runtime's diagnostic publisher no
  cleanup can fail, so whenever acceptance raises \<^verbatim>\<open>ConsumerPublicationError\<close> the accepted diagnostics and
  the conservation baselines are exactly those before the transaction was staged.
\<close>

theorem failed_acceptance_restores_diagnostics:
  assumes "diagnostic_native nv keys" "diag_inv keys w" "wf_cursors cursors"
    and "\<forall>e\<in>set (ep_effects plan). effect_ok e"
    and "new_transaction (diagnostic_publisher nv) plan cursors w = (Returned (), tx, w1)"
    and "accept (diagnostic_publisher nv) tx w1 = (Publication_error rep, tx', w2)"
  shows "dw_diagnostics w2 = dw_diagnostics w \<and> dw_baselines w2 = dw_baselines w \<and> rp_cursors rep = cursors"
proof -
  note pub = diagnostic_native.publisher_contract [OF assms(1)]
  have "accept_loop (diagnostic_publisher nv) (tx_initial tx) [] (tx_prepared tx) (tx\<lparr>tx_prepared := []\<rparr>) w1
      = (Publication_error rep, tx', w2)"
    using assms(6) by (simp add: accept_def split: if_splits)
  then have "length (rp_diagnostics rep) = 1"
    by (rule accept_loop_clean [rotated 2]) (simp_all add: diagnostic_release)
  then have "diag_obs w2 = diag_obs w" "rp_cursors rep = cursors"
    using reporting_publisher.accept_outcome [OF pub assms(2-6)] by simp_all
  then show ?thesis by (simp add: diag_obs_eq)
qed

theorem failed_acceptance_restores_diagnostics_witness:
  "\<exists>tx w1 rep tx' w2. new_transaction (diagnostic_publisher (sample_native (ascii ''disk full'')))
       (sample_plan [sample_effect 0 ''a'' FailRun, sample_effect 1 ''b'' FailRun]) [] empty_world
         = (Returned (), tx, w1)
     \<and> accept (diagnostic_publisher (sample_native (ascii ''disk full''))) tx w1 = (Publication_error rep, tx', w2)
     \<and> dw_diagnostics w2 = Map.empty"
proof -
  let ?m = "ascii ''disk full''"
  let ?pub = "diagnostic_publisher (sample_native ?m)"
  let ?a = "sample_effect 0 ''a'' FailRun" and ?b = "sample_effect 1 ''b'' FailRun"
  obtain tx w1 where tx: "new_transaction ?pub (sample_plan [?a, ?b]) [] empty_world = (Returned (), tx, w1)"
    and st: "tx_state tx = Staged" "tx_prepared tx = [(?a, sample_handle 0 ?a, 1), (?b, sample_handle 1 ?b, 1)]"
      "tx_accepted tx = []" "tx_initial tx = []" "dw_diagnostics w1 = Map.empty"
      "dw_objects w1 = [0 \<mapsto> (sample_handle 0 ?a, False, False), 1 \<mapsto> (sample_handle 1 ?b, False, False)]"
    using sample_staged [of FailRun ?m] by auto
  obtain r wa where pa: "publish_checked ?pub ?a (sample_handle 0 ?a) w1 = (Inr r, wa)"
      "dw_objects wa = (dw_objects w1)(0 \<mapsto> (sample_handle 0 ?a, True, False))"
    using sample_publish_a [OF st(5,6)] by blast
  obtain wb where pb: "publish_checked ?pub ?b (sample_handle 1 ?b) wa = (Inl (ascii ''OSError'', ?m), wb)"
    using sample_publish_b [of wa FailRun ?m] pa st(6) by auto
  obtain c1 where c1: "replace_cursor [] (se_after ?a) = Inr c1" using replace_cursor_ok [OF wf_no_cursors] by blast
  have noretry: "\<not> is_retry (se_action ?b)" "se_action ?b \<noteq> SkipSampleReported" by (simp_all add: sample_effect_def)
  obtain f recs w3 where rb: "rollback ?pub (sample_handle 1 ?b) (tx_recoveries tx) wb = (f, recs, w3)"
    by (metis prod_cases3)
  have "\<exists>rep tx' w2. accept ?pub tx w1 = (Publication_error rep, tx', w2)"
    using st(1-4) pa(1) pb c1 rb noretry
    by (simp add: accept_def accept_loop.simps(2) accept_turn_def give_up_def abandon_raises Let_def)
  then obtain rep tx' w2 where ac: "accept ?pub tx w1 = (Publication_error rep, tx', w2)" by blast
  have nv: "diagnostic_native (sample_native ?m) (\<lambda>t. [])"
    by (rule sample_native_contract) (simp_all add: is_space_def)
  have "\<forall>e\<in>set (ep_effects (sample_plan [?a, ?b])). effect_ok e"
    by (simp add: sample_plan_def sample_effect_ok)
  from failed_acceptance_restores_diagnostics [OF nv empty_world_inv wf_no_cursors this tx ac]
  have "dw_diagnostics w2 = Map.empty" by (simp add: empty_world_def)
  then show ?thesis using tx ac by blast
qed

end
