(* ===== verification/Program_IR.thy ===== *)
theory Program_IR
  imports Prelude
begin

text \<open>
  The time Program's SSA graph and its optimization passes: \<^verbatim>\<open>pops/time/values.py\<close> (the record
  \<^verbatim>\<open>ProgramValue\<close>), \<^verbatim>\<open>pops/time/_program/constants.py\<close> (the operation tables),
  \<^verbatim>\<open>pops/time/_program/passes.py\<close> (liveness, dead-node elimination, common-subexpression elimination,
  redundant field solves, the pipeline, definition-before-use) and the graph part of
  \<^verbatim>\<open>pops/time/_program/rebuild.py\<close> (cloning, aliasing, renumbering).

  \<^item> A reference to another value is its SSA id: \<^verbatim>\<open>rebuild.py\<close> indexes every rewrite map by the id, and
    two records of one Program with the same id are the same value.
  \<^item> \<open>pv_refs\<close> are the attributes that hold a value or an affine expression, \<open>pv_when\<close> the condition of a
    \<^verbatim>\<open>when(cond)\<close> schedule, \<open>pv_blocks\<close> the recorded sub-blocks; \<open>pv_data\<close> is the canonical projection of
    everything else (block, state, space, evaluation point, scalar attributes).
  \<^item> Provenance, clocks, handle tables and field-context source ids are not part of the model.
\<close>

subsection \<open>Values and Programs\<close>

datatype attr_ref = RefValue nat | RefAffine "nat list"

datatype 'a pvalue = PValue (pv_id: nat) (pv_vtype: string) (pv_op: string) (pv_inputs: "nat list")
  (pv_name: string) (pv_region: nat) (pv_refs: "(string \<times> attr_ref) list") (pv_when: "nat option")
  (pv_blocks: "(string \<times> 'a pvalue list) list") (pv_data: 'a)

record 'a program =
  pr_values :: "'a pvalue list"
  pr_commits :: "(string \<times> nat) list"
  pr_post_sync :: "(string \<times> nat) list"
  pr_dt_bound :: "('a pvalue list \<times> nat) option"
  pr_imports :: "(nat \<times> nat list) list"

fun ref_ids :: "attr_ref \<Rightarrow> nat list" where
  "ref_ids (RefValue i) = [i]"
| "ref_ids (RefAffine is) = is"

subsection \<open>Operation tables\<close>

definition removable_ops :: "string list" where
  "removable_ops =
     [''rhs'', ''diffusive_rhs'', ''source'', ''implicit_source'', ''apply'', ''local_transform'', ''linear_combine'',
      ''linear_source'', ''solve_local_linear'',
      ''cell_compare'', ''where'', ''reduce'', ''scalar_op'', ''compare'']"

definition subblock_ops :: "string list" where
  "subblock_ops =
     [''while'', ''branch'', ''range'', ''subcycle'', ''matrix_free_operator'', ''solve_local_nonlinear'',
      ''post_synchronization'', ''solve_spatial_nonlinear'']"

definition pure_ops :: "string list" where
  "pure_ops = [''linear_combine'', ''linear_source'', ''cell_compare'', ''where'', ''scalar_op'', ''compare'']"

definition state_barrier_ops :: "string list" where
  "state_barrier_ops =
     [''project'', ''fill_boundary'', ''store_history'', ''input_fields'',
      ''solve_fields'', ''solve_fields_from_blocks'', ''solve_coupled_implicit'',
      ''solve_implicit_source'', ''solve_spatial_nonlinear'']"

definition scratch_ops :: "string list" where
  "scratch_ops =
     [''rhs'', ''diffusive_rhs'', ''source'', ''implicit_source'', ''apply'', ''local_transform'', ''linear_combine'',
      ''linear_source'', ''solve_local_linear'',
      ''solve_local_nonlinear'', ''solve_coupled_implicit'', ''solve_implicit_source'', ''solve_spatial_nonlinear'',
      ''cell_compare'', ''where'', ''coupled_rate'']"

text \<open>The attribute keys \<^verbatim>\<open>_subblock_value_refs\<close> walks, in its order.\<close>

definition live_ref_keys :: "string list" where
  "live_ref_keys =
     [''cond'', ''body'', ''true_result'', ''false_result'',
      ''residual'', ''iterate'', ''guess'',
      ''apply_result'', ''apply_in'', ''apply_out'']"

definition live_block_keys :: "string list" where
  "live_block_keys =
     [''cond_block'', ''body_block'', ''true_block'', ''false_block'', ''apply_block'', ''residual_block'']"

subsection \<open>References through attributes\<close>

text \<open>What the generator \<^verbatim>\<open>_subblock_value_refs\<close> yields: a referenced value, or a node nested in a sub-block.\<close>

datatype 'a yielded = YRef nat | YNode "'a pvalue"

fun yield_id :: "'a yielded \<Rightarrow> nat" where
  "yield_id (YRef i) = i"
| "yield_id (YNode v) = pv_id v"

lemma size_block_element:
  "map_of blocks k = Some b \<Longrightarrow> w \<in> set b \<Longrightarrow> size w < size_list (size_prod (\<lambda>x. 0) (size_list size)) blocks"
proof (induction blocks)
  case (Cons p blocks)
  then show ?case
    using size_list_estimation' [of w b "size w" size] by (cases p) (auto split: if_splits)
qed simp

lemma size_nested: "map_of (pv_blocks v) k = Some b \<Longrightarrow> w \<in> set b \<Longrightarrow> size w < size v"
  using size_block_element [of "pv_blocks v" k b w] by (cases v) simp

function subblock_refs :: "'a pvalue \<Rightarrow> 'a yielded list" where
  "subblock_refs v =
     concat (map (\<lambda>k. case map_of (pv_refs v) k of None \<Rightarrow> [] | Some r \<Rightarrow> map YRef (ref_ids r)) live_ref_keys)
     @ (case pv_when v of None \<Rightarrow> [] | Some i \<Rightarrow> [YRef i])
     @ concat (map (\<lambda>k. case map_of (pv_blocks v) k of None \<Rightarrow> []
         | Some b \<Rightarrow> concat (map (\<lambda>w. YNode w # map YRef (pv_inputs w) @ subblock_refs w) b)) live_block_keys)"
  by auto
termination
  by (relation "measure size") (auto intro: size_nested)

declare subblock_refs.simps [simp del]

definition ref_id_list :: "'a pvalue \<Rightarrow> nat list" where
  "ref_id_list v = pv_inputs v @ map yield_id (subblock_refs v)"


text \<open>The value table: the flat values, then what the sub-blocks add (\<^verbatim>\<open>setdefault\<close>: the first entry wins).\<close>

fun yield_node :: "'a yielded \<Rightarrow> (nat \<times> 'a pvalue) list" where
  "yield_node (YRef i) = []"
| "yield_node (YNode v) = [(pv_id v, v)]"

definition value_table :: "'a program \<Rightarrow> (nat \<times> 'a pvalue) list" where
  "value_table p =
     rev (map (\<lambda>v. (pv_id v, v)) (pr_values p))
     @ concat (map (\<lambda>v. concat (map yield_node (subblock_refs v))) (pr_values p))"

subsection \<open>Liveness and dead nodes\<close>

definition live_roots :: "'a program \<Rightarrow> nat list" where
  "live_roots p = map snd (pr_commits p) @ map pv_id (filter (\<lambda>v. pv_op v \<notin> set removable_ops) (pr_values p))"

text \<open>The worklist loop; the head of the list is the end of the Python list, where \<^verbatim>\<open>pop\<close> and \<^verbatim>\<open>append\<close> work.\<close>

function live_loop :: "(nat \<times> 'a pvalue) list \<Rightarrow> nat set \<Rightarrow> nat list \<Rightarrow> nat set" where
  "live_loop table live [] = live"
| "live_loop table live (i # stack) =
     (if i \<in> live then live_loop table live stack
      else case map_of table i of
        None \<Rightarrow> live_loop table live stack
      | Some v \<Rightarrow> live_loop table (insert i live) (rev (ref_id_list v) @ stack))"
  by pat_completeness auto
termination
proof (relation "(\<lambda>(table, live, stack). card (fst ` set table - live)) <*mlex*>
    measure (\<lambda>(table, live, stack). length stack)", goal_cases)
  case (4 table live i stack v)
  then have "i \<in> fst ` set table - live" by (force dest: map_of_SomeD)
  then have "card (fst ` set table - insert i live) < card (fst ` set table - live)"
    by (intro psubset_card_mono) auto
  then show ?case by (simp add: mlex_prod_def)
qed (auto intro: mlex_leq simp: wf_mlex)

definition live_value_ids :: "'a program \<Rightarrow> nat set" where
  "live_value_ids p = live_loop (value_table p) {} (rev (live_roots p))"

subsection \<open>Rebuilding a Program\<close>

definition unmapped :: py_error where
  "unmapped = KeyError ''value id is not mapped''"

text \<open>\<^verbatim>\<open>rep\<close>: follow the alias chain; \<^verbatim>\<open>seen\<close> stops a cyclic map.\<close>

function rep_loop :: "(nat \<times> 'a pvalue) list \<Rightarrow> (nat \<times> nat) list \<Rightarrow> nat set \<Rightarrow> nat \<Rightarrow> nat result" where
  "rep_loop table alias seen i =
     (case map_of alias i of
        None \<Rightarrow> Inr i
      | Some j \<Rightarrow>
          if j = i \<or> i \<in> seen then Inr i
          else if map_of table j = None then Inl unmapped
          else rep_loop table alias (insert i seen) j)"
  by pat_completeness auto
termination
proof (relation "measure (\<lambda>(table, alias, seen, i). card (fst ` set alias - seen))", goal_cases)
  case (2 table al seen i j)
  then have "i \<in> fst ` set al - seen" by (force dest: map_of_SomeD)
  then have "card (fst ` set al - insert i seen) < card (fst ` set al - seen)"
    by (intro psubset_card_mono) auto
  then show ?case by simp
qed simp

declare rep_loop.simps [simp del]

definition rep :: "(nat \<times> 'a pvalue) list \<Rightarrow> (nat \<times> nat) list \<Rightarrow> nat \<Rightarrow> nat result" where
  "rep table alias i = rep_loop table alias {} i"

record 'a clone_state =
  cs_idmap :: "(nat \<times> 'a pvalue) list"
  cs_next :: nat

definition idmap_id :: "'a clone_state \<Rightarrow> nat \<Rightarrow> nat result" where
  "idmap_id st i = (case map_of (cs_idmap st) i of None \<Rightarrow> Inl unmapped | Some v \<Rightarrow> Inr (pv_id v))"

text \<open>\<^verbatim>\<open>idmap[rep(ref).id]\<close> and \<^verbatim>\<open>remap\<close>.\<close>

definition remap_id ::
  "(nat \<times> 'a pvalue) list \<Rightarrow> (nat \<times> nat) list \<Rightarrow> 'a clone_state \<Rightarrow> nat \<Rightarrow> nat result" where
  "remap_id table alias st i = bindE (rep table alias i) (idmap_id st)"

fun remap_ref ::
  "(nat \<times> 'a pvalue) list \<Rightarrow> (nat \<times> nat) list \<Rightarrow> 'a clone_state \<Rightarrow> attr_ref \<Rightarrow> attr_ref result" where
  "remap_ref table alias st (RefValue i) = bindE (remap_id table alias st i) (\<lambda>j. Inr (RefValue j))"
| "remap_ref table alias st (RefAffine is) =
     bindE (mapE (remap_id table alias st) is) (\<lambda>js. Inr (RefAffine js))"

text \<open>\<^verbatim>\<open>deps\<close>: the representatives of the inputs and the nested nodes, with smaller ids, by ascending id.\<close>

definition lookup :: "(nat \<times> 'a pvalue) list \<Rightarrow> nat \<Rightarrow> 'a pvalue result" where
  "lookup table i = (case map_of table i of None \<Rightarrow> Inl unmapped | Some v \<Rightarrow> Inr v)"

definition clone_block_keys :: "string list" where
  "clone_block_keys =
     [''cond_block'', ''body_block'', ''apply_block'', ''residual_block'', ''true_block'', ''false_block'']"

definition deps ::
  "(nat \<times> 'a pvalue) list \<Rightarrow> (nat \<times> nat) list \<Rightarrow> 'a pvalue \<Rightarrow> 'a pvalue list result" where
  "deps table alias v =
     bindE (mapE (\<lambda>i. bindE (rep table alias i) (lookup table)) (pv_inputs v)) (\<lambda>ins.
     let nested = concat (map (\<lambda>k. case map_of (pv_blocks v) k of None \<Rightarrow> [] | Some b \<Rightarrow> b) clone_block_keys)
     in Inr (sort_key pv_id (filter (\<lambda>w. pv_id w < pv_id v) (ins @ nested))))"

text \<open>
  \<^verbatim>\<open>clone\<close>.  The first argument is the recursion depth that is left; the interpreter raises
  \<^verbatim>\<open>RecursionError\<close>, a \<^verbatim>\<open>RuntimeError\<close>, when it is used up.  Sub-blocks are cloned before the value
  references that may point into them, which is the order of the attributes of \<^verbatim>\<open>matrix_free_operator\<close>,
  the only operation whose nested nodes are created after it.
\<close>

definition recursion_error :: py_error where
  "recursion_error = RuntimeError ''maximum recursion depth exceeded''"

text \<open>\<^verbatim>\<open>[clone(w) for w in block]\<close>: the state is threaded, the clones are collected.\<close>

definition clone_list ::
  "('a pvalue \<Rightarrow> 'a clone_state \<Rightarrow> 'a clone_state result) \<Rightarrow> 'a clone_state \<Rightarrow> 'a pvalue list \<Rightarrow>
   ('a clone_state \<times> 'a pvalue list) result" where
  "clone_list cl st block =
     bindE (foldE (\<lambda>st w. cl w st) block st) (\<lambda>st'.
     bindE (mapE (\<lambda>w. lookup (cs_idmap st') (pv_id w)) block) (\<lambda>copied. Inr (st', copied)))"

definition clone_blocks ::
  "('a pvalue \<Rightarrow> 'a clone_state \<Rightarrow> 'a clone_state result) \<Rightarrow> 'a clone_state \<Rightarrow> (string \<times> 'a pvalue list) list \<Rightarrow>
   ('a clone_state \<times> (string \<times> 'a pvalue list) list) result" where
  "clone_blocks cl st blocks =
     foldE (\<lambda>(st, done) (k, b). bindE (clone_list cl st b) (\<lambda>(st', b'). Inr (st', done @ [(k, b')]))) blocks (st, [])"

fun clone ::
  "nat \<Rightarrow> (nat \<times> 'a pvalue) list \<Rightarrow> (nat \<times> nat) list \<Rightarrow> 'a pvalue \<Rightarrow> 'a clone_state \<Rightarrow> 'a clone_state result" where
  "clone 0 table alias v st = Inl recursion_error"
| "clone (Suc depth) table alias v st =
     (if map_of (cs_idmap st) (pv_id v) \<noteq> None then Inr st
      else
        bindE (deps table alias v) (\<lambda>ds.
        bindE (foldE (\<lambda>st w. clone depth table alias w st) ds st) (\<lambda>st1.
        let vid = cs_next st1; st2 = st1\<lparr>cs_next := vid + 1\<rparr> in
        bindE (mapE (remap_id table alias st2) (pv_inputs v)) (\<lambda>ins.
        bindE (clone_blocks (clone depth table alias) st2 (pv_blocks v)) (\<lambda>(st3, blocks).
        bindE (mapE (\<lambda>(k, r). bindE (remap_ref table alias st3 r) (\<lambda>r'. Inr (k, r'))) (pv_refs v)) (\<lambda>refs.
        bindE (case pv_when v of None \<Rightarrow> Inr None
               | Some i \<Rightarrow> bindE (remap_id table alias st3 i) (\<lambda>j. Inr (Some j))) (\<lambda>cond.
        Inr (st3\<lparr>cs_idmap := cs_idmap st3 @
               [(pv_id v, PValue vid (pv_vtype v) (pv_op v) ins (pv_name v) (pv_region v) refs cond blocks
                   (pv_data v))]\<rparr>))))))))"

declare clone.simps [simp del]

definition rebuild ::
  "nat \<Rightarrow> ('a pvalue \<Rightarrow> bool) \<Rightarrow> (nat \<times> nat) list \<Rightarrow> 'a program \<Rightarrow> 'a program result" where
  "rebuild depth keep alias p =
     (let table = value_table p; kept = sort_key pv_id (filter keep (pr_values p)) in
      bindE (foldE (\<lambda>st v. clone depth table alias v st) kept \<lparr>cs_idmap = [], cs_next = 0\<rparr>) (\<lambda>st.
      bindE (mapE (\<lambda>v. lookup (cs_idmap st) (pv_id v)) kept) (\<lambda>values.
      bindE (mapE (\<lambda>(s, i). bindE (remap_id table alias st i) (\<lambda>j. Inr (s, j))) (pr_commits p)) (\<lambda>commits.
      bindE (mapE (\<lambda>(s, i). bindE (remap_id table alias st i) (\<lambda>j. Inr (s, j))) (pr_post_sync p)) (\<lambda>post.
      let active = map (pv_region \<circ> snd) (cs_idmap st);
          imports = map (\<lambda>(d, ss). (d, filter (\<lambda>s. s \<in> set active) ss))
                      (filter (\<lambda>(d, ss). d \<in> set active) (pr_imports p)) in
      bindE (case pr_dt_bound p of None \<Rightarrow> Inr None
             | Some (sub, result) \<Rightarrow>
                 bindE (clone_list (clone depth table alias) st sub) (\<lambda>(st', sub').
                 bindE (remap_id table alias st' result) (\<lambda>r. Inr (Some (sub', r))))) (\<lambda>bound.
      Inr \<lparr>pr_values = values, pr_commits = commits, pr_post_sync = post, pr_dt_bound = bound,
           pr_imports = imports\<rparr>))))))"

definition eliminate_dead_nodes :: "nat \<Rightarrow> 'a program \<Rightarrow> 'a program result" where
  "eliminate_dead_nodes depth p = rebuild depth (\<lambda>v. pv_id v \<in> live_value_ids p) [] p"

subsection \<open>Common subexpressions\<close>

text \<open>
  \<^verbatim>\<open>_cse_key\<close>: operation, type, the inputs mapped to their representatives, and the serialized rest.  The
  node id and the name are no part of it.
\<close>

type_synonym 'a subexpression_key =
  "string \<times> string \<times> nat list \<times> (string \<times> attr_ref) list \<times> nat option \<times> (string \<times> 'a pvalue list) list \<times> 'a"

definition canon_get :: "(nat \<times> nat) list \<Rightarrow> nat \<Rightarrow> nat" where
  "canon_get canon i = (case map_of canon i of None \<Rightarrow> i | Some j \<Rightarrow> j)"

definition cse_key :: "(nat \<times> nat) list \<Rightarrow> 'a pvalue \<Rightarrow> 'a subexpression_key" where
  "cse_key canon v =
     (pv_op v, pv_vtype v, map (canon_get canon) (pv_inputs v), pv_refs v, pv_when v, pv_blocks v, pv_data v)"

fun cse_loop ::
  "'a pvalue list \<Rightarrow> (nat \<times> nat) list \<Rightarrow> ('a subexpression_key \<times> nat) list \<Rightarrow> nat list \<Rightarrow> (nat \<times> nat) list \<times> nat list" where
  "cse_loop [] canon reps dropped = (canon, dropped)"
| "cse_loop (v # vs) canon reps dropped =
     (if pv_op v \<notin> set pure_ops then cse_loop vs canon reps dropped
      else
        let key = cse_key canon v in
        case map_of reps key of
          Some r \<Rightarrow> cse_loop vs ((pv_id v, r) # canon) reps (pv_id v # dropped)
        | None \<Rightarrow> cse_loop vs ((pv_id v, pv_id v) # canon) ((key, pv_id v) # reps) dropped)"

definition eliminate_common_subexpressions :: "nat \<Rightarrow> 'a program \<Rightarrow> 'a program result" where
  "eliminate_common_subexpressions depth p =
     (let (canon, dropped) = cse_loop (pr_values p) [] [] []
      in if dropped = [] then rebuild depth (\<lambda>v. True) [] p
         else rebuild depth (\<lambda>v. pv_id v \<notin> set dropped) canon p)"

subsection \<open>Redundant field solves\<close>

text \<open>
  The field of a solve is part of \<open>pv_data\<close>; \<open>field_of\<close> projects it.  A \<^verbatim>\<open>solve_fields\<close> has exactly one
  input, unpacking another number of inputs is a \<^verbatim>\<open>ValueError\<close>.
\<close>

fun redundant_loop ::
  "('a \<Rightarrow> string option) \<Rightarrow> nat set \<Rightarrow> 'a pvalue list \<Rightarrow> ((nat \<times> string option) \<times> nat) list \<Rightarrow>
   (nat \<times> nat) list \<Rightarrow> nat list \<Rightarrow> ((nat \<times> nat) list \<times> nat list) result" where
  "redundant_loop field_of commits [] active canon dropped = Inr (canon, dropped)"
| "redundant_loop field_of commits (v # vs) active canon dropped =
     (if pv_op v = ''solve_fields'' then
        (case pv_inputs v of
           [state_in] \<Rightarrow>
             let sig = (state_in, field_of (pv_data v)) in
             (case map_of active sig of
                Some prior \<Rightarrow>
                  redundant_loop field_of commits vs active ((pv_id v, prior) # canon) (pv_id v # dropped)
              | None \<Rightarrow> redundant_loop field_of commits vs [(sig, pv_id v)] canon dropped)
         | _ \<Rightarrow> Inl (ValueError ''solve_fields takes one state''))
      else if pv_op v \<in> set state_barrier_ops \<or> pv_id v \<in> commits
      then redundant_loop field_of commits vs [] canon dropped
      else redundant_loop field_of commits vs active canon dropped)"

definition eliminate_redundant_field_solves ::
  "nat \<Rightarrow> ('a \<Rightarrow> string option) \<Rightarrow> 'a program \<Rightarrow> 'a program result" where
  "eliminate_redundant_field_solves depth field_of p =
     bindE (redundant_loop field_of (set (map snd (pr_commits p))) (pr_values p) [] [] []) (\<lambda>(canon, dropped).
       if dropped = [] then rebuild depth (\<lambda>v. True) [] p
       else rebuild depth (\<lambda>v. pv_id v \<notin> set dropped) canon p)"

text \<open>\<^verbatim>\<open>optimize\<close>: the three passes in the order of \<^verbatim>\<open>_OPTIMIZE_PASSES\<close>.\<close>

definition optimize :: "nat \<Rightarrow> ('a \<Rightarrow> string option) \<Rightarrow> 'a program \<Rightarrow> 'a program result" where
  "optimize depth field_of p =
     bindE (eliminate_dead_nodes depth p) (\<lambda>p1.
     bindE (eliminate_common_subexpressions depth p1)
       (eliminate_redundant_field_solves depth field_of))"

subsection \<open>Definition before use\<close>

definition used_before :: py_error where
  "used_before = ValueError ''IR value used before definition''"

text \<open>\<^verbatim>\<open>_validate_block\<close>: an input is defined earlier or belongs to a region the node's region imports from.\<close>

fun validate_block ::
  "(nat \<times> nat list) list \<Rightarrow> (nat \<Rightarrow> nat) \<Rightarrow> 'a pvalue list \<Rightarrow> nat set \<Rightarrow> unit result" where
  "validate_block imports region_of [] seen = Inr ()"
| "validate_block imports region_of (v # vs) seen =
     (if \<exists>i\<in>set (pv_inputs v). i \<notin> seen
           \<and> region_of i \<notin> set (case map_of imports (pv_region v) of None \<Rightarrow> [] | Some ss \<Rightarrow> ss)
      then Inl used_before
      else validate_block imports region_of vs (insert (pv_id v) seen))"

definition missing_block :: py_error where
  "missing_block = KeyError ''sub-block''"

definition block_of :: "'a pvalue \<Rightarrow> string \<Rightarrow> 'a pvalue list result" where
  "block_of v k = (case map_of (pv_blocks v) k of None \<Rightarrow> Inl missing_block | Some b \<Rightarrow> Inr b)"

definition validate_nested ::
  "(nat \<times> nat list) list \<Rightarrow> (nat \<Rightarrow> nat) \<Rightarrow> 'a pvalue \<Rightarrow> nat set \<Rightarrow> unit result" where
  "validate_nested imports region_of v seen =
     (let check = (\<lambda>k s. bindE (block_of v k) (\<lambda>b. validate_block imports region_of b s)) in
      if pv_op v = ''while'' then bindE (check ''cond_block'' seen) (\<lambda>_. check ''body_block'' seen)
      else if pv_op v \<in> {''range'', ''subcycle'', ''post_synchronization''} then check ''body_block'' seen
      else if pv_op v = ''branch'' then bindE (check ''true_block'' seen) (\<lambda>_. check ''false_block'' seen)
      else if pv_op v = ''matrix_free_operator'' then
        (case map_of (pv_blocks v) ''apply_block'' of
           None \<Rightarrow> Inr ()
         | Some b \<Rightarrow> if b = [] then Inr () else validate_block imports region_of b seen)
      else if pv_op v = ''solve_spatial_nonlinear'' then check ''residual_block'' seen
      else if pv_op v = ''solve_local_nonlinear'' then check ''residual_block'' {}
      else Inr ())"

fun validate_values ::
  "(nat \<times> nat list) list \<Rightarrow> (nat \<Rightarrow> nat) \<Rightarrow> 'a pvalue list \<Rightarrow> nat set \<Rightarrow> unit result" where
  "validate_values imports region_of [] seen = Inr ()"
| "validate_values imports region_of (v # vs) seen =
     (if \<exists>i\<in>set (pv_inputs v). i \<notin> seen then Inl used_before
      else
        bindE (validate_nested imports region_of v (insert (pv_id v) seen)) (\<lambda>_.
        validate_values imports region_of vs (insert (pv_id v) seen)))"

text \<open>
  The body of \<^verbatim>\<open>validate\<close> between the region check and the history check, which belong to other modules.
  The region of a value is read from the value table.
\<close>

definition table_region :: "(nat \<times> 'a pvalue) list \<Rightarrow> nat \<Rightarrow> nat" where
  "table_region table i = (case map_of table i of None \<Rightarrow> 0 | Some v \<Rightarrow> pv_region v)"

definition validate_order :: "'a program \<Rightarrow> unit result" where
  "validate_order p =
     bindE (raise_if (pr_commits p = []) (ValueError ''no block was committed'')) (\<lambda>_.
       validate_values (pr_imports p) (table_region (value_table p)) (pr_values p) {})"

end
