(* ===== verification/Program_Passes.thy ===== *)
theory Program_Passes
  imports Program_IR
begin

text \<open>
  What the passes of \<open>Program_IR\<close> guarantee: the worklist computes reachability, and on straight-line
  Programs rebuilding is renumbering, dead-node elimination preserves the run, and common-subexpression
  elimination preserves it when no operation writes a buffer in place.

  A run executes the flat nodes in order over C++ buffers, the way \<^verbatim>\<open>_emit_op\<close> of
  \<^verbatim>\<open>pops/codegen/program_emit_ops.py\<close> names them: a node owns the buffer of its id, or aliases the buffer
  of one of its references (\<^verbatim>\<open>project\<close>, \<^verbatim>\<open>fill_boundary\<close>, \<^verbatim>\<open>laplacian\<close>, ...), and may write the buffers it
  reads.  What an operation computes is native code and a parameter, the record \<open>machine\<close>.
\<close>

subsection \<open>The worklist computes reachability\<close>

inductive reachable :: "(nat \<times> 'a pvalue) list \<Rightarrow> nat set \<Rightarrow> nat \<Rightarrow> bool" for table roots where
  root: "i \<in> roots \<Longrightarrow> map_of table i \<noteq> None \<Longrightarrow> reachable table roots i"
| ref: "reachable table roots i \<Longrightarrow> map_of table i = Some v \<Longrightarrow> j \<in> set (ref_id_list v) \<Longrightarrow>
    map_of table j \<noteq> None \<Longrightarrow> reachable table roots j"

inductive_cases reachableE: "reachable table roots i"

definition closed_upto :: "(nat \<times> 'a pvalue) list \<Rightarrow> nat set \<Rightarrow> nat set \<Rightarrow> bool" where
  "closed_upto table live stack \<longleftrightarrow>
     (\<forall>i\<in>live. \<forall>v. map_of table i = Some v \<longrightarrow>
        (\<forall>j\<in>set (ref_id_list v). map_of table j \<noteq> None \<longrightarrow> j \<in> live \<union> stack))"

lemma live_loop_sound:
  "live \<subseteq> Collect (reachable table roots) \<Longrightarrow>
   (\<forall>i\<in>set stack. map_of table i \<noteq> None \<longrightarrow> reachable table roots i) \<Longrightarrow>
   live_loop table live stack \<subseteq> Collect (reachable table roots)"
proof (induction table live stack rule: live_loop.induct)
  case (2 table live i stack)
  show ?case
  proof (cases "i \<in> live \<or> map_of table i = None")
    case True
    then show ?thesis using 2 by (auto split: option.splits)
  next
    case False
    then obtain v where v: "i \<notin> live" "map_of table i = Some v" by auto
    then have i: "reachable table roots i" using 2(5) by simp
    then have "\<forall>j\<in>set (rev (ref_id_list v) @ stack). map_of table j \<noteq> None \<longrightarrow> reachable table roots j"
      using v(2) 2(5) by (auto intro: reachable.ref)
    then show ?thesis using v i 2(3,4) by simp
  qed
qed simp

lemma live_loop_mono: "live \<subseteq> live_loop table live stack"
  by (induction table live stack rule: live_loop.induct) (auto split: option.splits)

lemma live_loop_complete:
  "closed_upto table live (set stack) \<Longrightarrow>
   {i \<in> set stack. map_of table i \<noteq> None} \<subseteq> live_loop table live stack
   \<and> closed_upto table (live_loop table live stack) {}"
proof (induction table live stack rule: live_loop.induct)
  case (2 table live i stack)
  show ?case
  proof (cases "i \<in> live \<or> map_of table i = None")
    case True
    then have "closed_upto table live (set stack)"
      using 2(4) by (fastforce simp: closed_upto_def)
    then show ?thesis
      using True 2(1,2) live_loop_mono [of live table stack] by (auto split: option.splits)
  next
    case False
    then obtain v where v: "i \<notin> live" "map_of table i = Some v" by auto
    then have "closed_upto table (insert i live) (set (rev (ref_id_list v) @ stack))"
      using 2(4) by (auto simp: closed_upto_def)
    then show ?thesis
      using v 2(3) live_loop_mono [of "insert i live" table "rev (ref_id_list v) @ stack"] by auto
  qed
qed (simp add: closed_upto_def)

lemma live_value_ids_eq_reachable:
  "live_value_ids p = {i. reachable (value_table p) (set (live_roots p)) i}" (is "?L = ?R")
proof
  show "?L \<subseteq> ?R"
    unfolding live_value_ids_def by (rule live_loop_sound) (auto intro: reachable.root)
  have c: "{i \<in> set (live_roots p). map_of (value_table p) i \<noteq> None} \<subseteq> ?L" "closed_upto (value_table p) ?L {}"
    using live_loop_complete [of "value_table p" "{}" "rev (live_roots p)"]
    by (auto simp: live_value_ids_def closed_upto_def)
  show "?R \<subseteq> ?L"
  proof
    fix i assume "i \<in> ?R"
    then have "reachable (value_table p) (set (live_roots p)) i" by simp
    then show "i \<in> ?L" using c by induction (auto simp: closed_upto_def)
  qed
qed

subsection \<open>Straight-line Programs\<close>

definition all_refs :: "'a pvalue \<Rightarrow> nat list" where
  "all_refs v =
     pv_inputs v @ concat (map (ref_ids \<circ> snd) (pv_refs v)) @ (case pv_when v of None \<Rightarrow> [] | Some i \<Rightarrow> [i])"

text \<open>
  A validated Program without sub-blocks: the flat values in creation order, every reference to an earlier
  flat value, the commits on flat values.
\<close>

definition straight_line :: "'a program \<Rightarrow> bool" where
  "straight_line p \<longleftrightarrow>
     sorted_wrt (<) (map pv_id (pr_values p)) \<and> pr_dt_bound p = None \<and> pr_post_sync p = []
     \<and> (\<forall>v\<in>set (pr_values p). pv_blocks v = [] \<and> distinct (map fst (pv_refs v))
          \<and> set (map fst (pv_refs v)) \<subseteq> set live_ref_keys
          \<and> (\<forall>i\<in>set (all_refs v). i < pv_id v \<and> i \<in> pv_id ` set (pr_values p)))
     \<and> (\<forall>(s, i)\<in>set (pr_commits p). i \<in> pv_id ` set (pr_values p))"

lemma sorted_lt_distinct: "sorted_wrt (<) (xs :: nat list) \<Longrightarrow> distinct xs"
  by (induction xs) auto

lemma flat_yields:
  assumes "pv_blocks v = []"
  shows "subblock_refs v = map YRef (concat (map (\<lambda>k. case map_of (pv_refs v) k of None \<Rightarrow> [] | Some r \<Rightarrow> ref_ids r)
      live_ref_keys) @ (case pv_when v of None \<Rightarrow> [] | Some i \<Rightarrow> [i]))"
proof -
  have e: "map YRef (case x of None \<Rightarrow> [] | Some r \<Rightarrow> ref_ids r) = (case x of None \<Rightarrow> [] | Some r \<Rightarrow> map YRef (ref_ids r))"
    for x by (cases x) auto
  show ?thesis
    using assms by (simp add: subblock_refs.simps [of v] map_concat comp_def e split: option.splits)
qed

lemma flat_refs:
  assumes "pv_blocks v = []" "distinct (map fst (pv_refs v))" "set (map fst (pv_refs v)) \<subseteq> set live_ref_keys"
  shows "set (ref_id_list v) = set (all_refs v)" "concat (map yield_node (subblock_refs v)) = []"
proof -
  have "x \<in> (\<Union>k\<in>set live_ref_keys. set (case map_of (pv_refs v) k of None \<Rightarrow> [] | Some r \<Rightarrow> ref_ids r))
      \<longleftrightarrow> x \<in> (\<Union>kr\<in>set (pv_refs v). set (ref_ids (snd kr)))" for x
  proof
    assume "x \<in> (\<Union>k\<in>set live_ref_keys. set (case map_of (pv_refs v) k of None \<Rightarrow> [] | Some r \<Rightarrow> ref_ids r))"
    then obtain k r where "map_of (pv_refs v) k = Some r" "x \<in> set (ref_ids r)"
      by (auto split: option.splits) (metis empty_iff list.set(1) option.exhaust option.simps(4,5))
    then show "x \<in> (\<Union>kr\<in>set (pv_refs v). set (ref_ids (snd kr)))"
      by (force dest: map_of_SomeD)
  next
    assume "x \<in> (\<Union>kr\<in>set (pv_refs v). set (ref_ids (snd kr)))"
    then obtain k r where kr: "(k, r) \<in> set (pv_refs v)" "x \<in> set (ref_ids r)" by auto
    then have "k \<in> set live_ref_keys" "map_of (pv_refs v) k = Some r"
      using assms(2,3) by (force, simp)
    then show "x \<in> (\<Union>k\<in>set live_ref_keys. set (case map_of (pv_refs v) k of None \<Rightarrow> [] | Some r \<Rightarrow> ref_ids r))"
      using kr(2) by force
  qed
  then show "set (ref_id_list v) = set (all_refs v)"
    by (auto simp: ref_id_list_def all_refs_def flat_yields [OF assms(1)] comp_def)
  show "concat (map yield_node (subblock_refs v)) = []"
    by (simp add: flat_yields [OF assms(1)])
qed

lemma straight_line_ref:
  "straight_line p \<Longrightarrow> v \<in> set (pr_values p) \<Longrightarrow> i \<in> set (all_refs v) \<Longrightarrow>
   i < pv_id v \<and> (\<exists>u\<in>set (pr_values p). pv_id u = i)"
  unfolding straight_line_def by (metis image_iff)

lemma straight_line_commit:
  "straight_line p \<Longrightarrow> (s, i) \<in> set (pr_commits p) \<Longrightarrow> \<exists>u\<in>set (pr_values p). pv_id u = i"
  unfolding straight_line_def by fastforce

lemma straight_line_table:
  assumes "straight_line p"
  shows "map_of (value_table p) i = Some v \<longleftrightarrow> v \<in> set (pr_values p) \<and> pv_id v = i"
proof -
  have d: "distinct (map pv_id (pr_values p))"
    using assms by (auto simp: straight_line_def intro: sorted_lt_distinct)
  have "value_table p = rev (map (\<lambda>v. (pv_id v, v)) (pr_values p))"
    using assms flat_refs(2) by (auto simp: value_table_def straight_line_def)
  moreover have "distinct (map fst (rev (map (\<lambda>v. (pv_id v, v)) (pr_values p))))"
    using d by (simp flip: rev_map add: comp_def)
  ultimately show ?thesis by (auto simp: map_of_eq_Some_iff)
qed

subsection \<open>Rebuilding is renumbering\<close>

fun map_ref :: "(nat \<Rightarrow> nat) \<Rightarrow> attr_ref \<Rightarrow> attr_ref" where
  "map_ref f (RefValue i) = RefValue (f i)"
| "map_ref f (RefAffine is) = RefAffine (map f is)"

definition rename_node :: "(nat \<Rightarrow> nat) \<Rightarrow> nat \<Rightarrow> 'a pvalue \<Rightarrow> 'a pvalue" where
  "rename_node f i v = PValue i (pv_vtype v) (pv_op v) (map f (pv_inputs v)) (pv_name v) (pv_region v)
     (map (\<lambda>(k, r). (k, map_ref f r)) (pv_refs v)) (map_option f (pv_when v)) (pv_blocks v) (pv_data v)"

definition position :: "nat list \<Rightarrow> nat \<Rightarrow> nat" where
  "position ids i = length (takeWhile (\<lambda>j. j \<noteq> i) ids)"

lemma position_append: "i \<in> set xs \<Longrightarrow> position (xs @ ys) i = position xs i"
  by (auto simp: position_def)

lemma position_middle: "i \<notin> set xs \<Longrightarrow> position (xs @ i # ys) i = length xs"
  by (subst position_def, subst takeWhile_append2) auto

lemma position_less: "i \<in> set xs \<Longrightarrow> position xs i < length xs"
  unfolding position_def by (induction xs) auto

lemma nth_position: "i \<in> set xs \<Longrightarrow> xs ! position xs i = i"
  unfolding position_def by (induction xs) auto

lemma inj_on_position: "inj_on (position xs) (set xs)"
  by (metis inj_on_def nth_position)

definition done_state :: "(nat \<Rightarrow> nat) \<Rightarrow> nat list \<Rightarrow> 'a pvalue list \<Rightarrow> 'a clone_state" where
  "done_state f ids vs =
     \<lparr>cs_idmap = map (\<lambda>v. (pv_id v, rename_node f (position ids (pv_id v)) v)) vs, cs_next = length vs\<rparr>"

lemma done_state_lookup:
  assumes "distinct (map pv_id vs)" "v \<in> set vs"
  shows "map_of (cs_idmap (done_state f ids vs)) (pv_id v) = Some (rename_node f (position ids (pv_id v)) v)"
  using assms by (force simp: done_state_def comp_def)

lemma done_state_missing: "i \<notin> pv_id ` set vs \<Longrightarrow> map_of (cs_idmap (done_state f ids vs)) i = None"
  by (force simp: done_state_def map_of_eq_None_iff)

text \<open>One turn of the cloning loop: the dependencies are done, the node gets the next id.\<close>

lemma remap_id_done:
  assumes "rep table al i = Inr j" "j \<in> pv_id ` set vs" "distinct (map pv_id vs)"
    and "cs_idmap st = cs_idmap (done_state f ids vs)"
  shows "remap_id table al st i = Inr (position ids j)"
proof -
  obtain v where v: "v \<in> set vs" "j = pv_id v" using assms(2) by blast
  show ?thesis
    using done_state_lookup [OF assms(3) v(1), of f ids] assms(1,4) v(2)
    by (simp add: remap_id_def idmap_id_def rename_node_def)
qed

lemma remap_ref_done:
  assumes "\<And>i. i \<in> set (ref_ids r) \<Longrightarrow> remap_id table al st i = Inr (g i)"
  shows "remap_ref table al st r = Inr (map_ref g r)"
  using assms by (cases r) (auto simp: mapE_all)

lemma clone_next:
  assumes "pv_blocks v = []" "pv_id v \<notin> pv_id ` set vs" "distinct (map pv_id vs)"
    and "position ids (pv_id v) = length vs"
    and "\<And>i. i \<in> set (all_refs v) \<Longrightarrow> rep table al i = Inr (r i) \<and> r i \<in> pv_id ` set vs"
    and "\<And>w. w \<in> set vs \<Longrightarrow> map_of table (pv_id w) = Some w"
  shows "clone (Suc (Suc d)) table al v (done_state (position ids \<circ> r) ids vs)
     = Inr (done_state (position ids \<circ> r) ids (vs @ [v]))"
proof -
  let ?f = "position ids \<circ> r" and ?st = "done_state (position ids \<circ> r) ids vs"
  have "\<exists>w\<in>set vs. bindE (rep table al i) (lookup table) = Inr w" if "i \<in> set (pv_inputs v)" for i
  proof -
    from that have "i \<in> set (all_refs v)" by (simp add: all_refs_def)
    with assms(5) obtain w where "w \<in> set vs" "rep table al i = Inr (pv_id w)" by force
    then show ?thesis using assms(6) by (auto simp: lookup_def)
  qed
  then obtain h where h: "\<And>i. i \<in> set (pv_inputs v) \<Longrightarrow> h i \<in> set vs \<and> bindE (rep table al i) (lookup table) = Inr (h i)"
    by metis
  obtain ds where ds: "deps table al v = Inr ds" "set ds \<subseteq> set vs"
    using h assms(1) by (auto simp: deps_def mapE_all [of _ _ h] Let_def comp_def)
  have cl: "clone (Suc d) table al w ?st = Inr ?st" if "w \<in> set vs" for w
    using done_state_lookup [OF assms(3) that, of ?f ids] by (simp add: clone.simps)
  have fold: "foldE (\<lambda>st w. clone (Suc d) table al w st) ds ?st = Inr ?st"
    by (rule foldE_stays) (use cl ds(2) in blast)
  have re: "remap_id table al st i = Inr (?f i)" if "i \<in> set (all_refs v)" "cs_idmap st = cs_idmap ?st" for i st
    using remap_id_done [OF _ _ assms(3) that(2)] assms(5) [OF that(1)] by simp
  have ins: "mapE (remap_id table al (?st\<lparr>cs_next := Suc (cs_next ?st)\<rparr>)) (pv_inputs v) = Inr (map ?f (pv_inputs v))"
    by (rule mapE_all) (rule re, simp_all add: all_refs_def)
  have refs: "mapE (\<lambda>(k, x). bindE (remap_ref table al (?st\<lparr>cs_next := Suc (cs_next ?st)\<rparr>) x) (\<lambda>r'. Inr (k, r'))) (pv_refs v)
      = Inr (map (\<lambda>(k, x). (k, map_ref ?f x)) (pv_refs v))"
  proof (rule mapE_all)
    fix kx assume kx: "kx \<in> set (pv_refs v)"
    then have "remap_ref table al (?st\<lparr>cs_next := Suc (cs_next ?st)\<rparr>) (snd kx) = Inr (map_ref ?f (snd kx))"
      by (intro remap_ref_done re) (auto simp: all_refs_def)
    then show "(case kx of (k, x) \<Rightarrow> bindE (remap_ref table al (?st\<lparr>cs_next := Suc (cs_next ?st)\<rparr>) x) (\<lambda>r'. Inr (k, r')))
        = Inr (case kx of (k, x) \<Rightarrow> (k, map_ref ?f x))" by (cases kx) simp
  qed
  have cond: "(case pv_when v of None \<Rightarrow> Inr None
      | Some i \<Rightarrow> bindE (remap_id table al (?st\<lparr>cs_next := Suc (cs_next ?st)\<rparr>) i) (\<lambda>j. Inr (Some j)))
      = Inr (map_option ?f (pv_when v))"
    using re by (auto simp: all_refs_def split: option.splits)
  show ?thesis
    using assms(1,4) ds(1) fold ins refs cond done_state_missing [OF assms(2), of ?f ids]
    by (simp add: clone.simps(2) clone_blocks_def Let_def) (simp add: done_state_def rename_node_def)
qed

lemma clone_fold:
  assumes "sorted_wrt (<) (map pv_id (vs @ us))" "ids = map pv_id (vs @ us)"
    and "\<And>v. v \<in> set us \<Longrightarrow> pv_blocks v = []"
    and "\<And>v i. v \<in> set us \<Longrightarrow> i \<in> set (all_refs v) \<Longrightarrow>
           rep table al i = Inr (r i) \<and> r i < pv_id v \<and> r i \<in> set ids"
    and "\<And>w. w \<in> set (vs @ us) \<Longrightarrow> map_of table (pv_id w) = Some w"
  shows "foldE (\<lambda>st v. clone (Suc (Suc d)) table al v st) us (done_state (position ids \<circ> r) ids vs)
     = Inr (done_state (position ids \<circ> r) ids (vs @ us))"
  using assms
proof (induction us arbitrary: vs)
  case (Cons v us)
  have le: "\<forall>w\<in>set vs. pv_id w < pv_id v" "\<forall>w\<in>set us. pv_id v < pv_id w"
    using Cons.prems(1) by (auto simp: sorted_wrt_append)
  have d: "distinct (map pv_id vs)"
    using Cons.prems(1) sorted_lt_distinct [of "map pv_id vs"] by (simp add: sorted_wrt_append)
  have new: "pv_id v \<notin> pv_id ` set vs" using le(1) by force
  have here: "r i \<in> pv_id ` set vs" if "i \<in> set (all_refs v)" for i
    using Cons.prems(4) [of v i] that le Cons.prems(2) by auto
  have "clone (Suc (Suc d)) table al v (done_state (position ids \<circ> r) ids vs)
      = Inr (done_state (position ids \<circ> r) ids (vs @ [v]))"
  proof (rule clone_next)
    show "position ids (pv_id v) = length vs"
      using new position_middle [of "pv_id v" "map pv_id vs" "map pv_id us"] Cons.prems(2) by simp
    show "rep table al i = Inr (r i) \<and> r i \<in> pv_id ` set vs" if "i \<in> set (all_refs v)" for i
      using Cons.prems(4) [of v i] here that by simp
  qed (use new d Cons.prems(3,5) in auto)
  moreover have "foldE (\<lambda>st v. clone (Suc (Suc d)) table al v st) us (done_state (position ids \<circ> r) ids (vs @ [v]))
      = Inr (done_state (position ids \<circ> r) ids ((vs @ [v]) @ us))"
  proof (rule Cons.IH)
    show "rep table al i = Inr (r i) \<and> r i < pv_id w \<and> r i \<in> set ids" if "w \<in> set us" "i \<in> set (all_refs w)" for w i
      using Cons.prems(4) [of w i] that by simp
  qed (use Cons.prems(1-3,5) in auto)
  ultimately show ?case by (simp only: foldE.simps bindE_simps append_Cons append_Nil append_assoc)
qed simp

definition renamed :: "(nat \<Rightarrow> nat) \<Rightarrow> nat list \<Rightarrow> 'a pvalue list \<Rightarrow> 'a program \<Rightarrow> 'a program \<Rightarrow> bool" where
  "renamed f ids kept p p' \<longleftrightarrow>
     pr_values p' = map (\<lambda>v. rename_node f (position ids (pv_id v)) v) kept
     \<and> pr_commits p' = map (\<lambda>(s, i). (s, f i)) (pr_commits p)
     \<and> pr_dt_bound p' = None \<and> pr_post_sync p' = []"

lemma rebuild_straight_line:
  assumes "straight_line p" "ids = map pv_id (filter keep (pr_values p))"
    and "\<And>v i. v \<in> set (filter keep (pr_values p)) \<Longrightarrow> i \<in> set (all_refs v) \<Longrightarrow>
           rep (value_table p) al i = Inr (r i) \<and> r i < pv_id v \<and> r i \<in> set ids"
    and "\<And>s i. (s, i) \<in> set (pr_commits p) \<Longrightarrow> rep (value_table p) al i = Inr (r i) \<and> r i \<in> set ids"
  shows "\<exists>p'. rebuild (Suc (Suc d)) keep al p = Inr p'
     \<and> renamed (position ids \<circ> r) ids (filter keep (pr_values p)) p p'"
proof -
  let ?kept = "filter keep (pr_values p)" and ?f = "position ids \<circ> r"
  have lt: "sorted_wrt (<) (map pv_id ?kept)"
    using assms(1) by (auto simp: straight_line_def sorted_wrt_map intro: sorted_wrt_filter)
  then have "sorted (map pv_id ?kept)"
    by (rule sorted_wrt_mono_rel [rotated]) simp
  then have kept: "sort_key pv_id ?kept = ?kept" by (rule sort_key_id_if_sorted)
  have fold: "foldE (\<lambda>st v. clone (Suc (Suc d)) (value_table p) al v st) ?kept (done_state ?f ids [])
      = Inr (done_state ?f ids ([] @ ?kept))"
  proof (rule clone_fold)
    show "rep (value_table p) al i = Inr (r i) \<and> r i < pv_id v \<and> r i \<in> set ids"
      if "v \<in> set ?kept" "i \<in> set (all_refs v)" for v i
      using assms(3) that by blast
  qed (use lt assms(1,2) in \<open>auto simp: straight_line_table, auto simp: straight_line_def\<close>)
  have d: "distinct (map pv_id ?kept)" using lt by (rule sorted_lt_distinct)
  have vals: "mapE (\<lambda>v. lookup (cs_idmap (done_state ?f ids ?kept)) (pv_id v)) ?kept
      = Inr (map (\<lambda>v. rename_node ?f (position ids (pv_id v)) v) ?kept)"
    using done_state_lookup [OF d, of _ ?f ids] by (intro mapE_all) (simp add: lookup_def)
  have com: "mapE (\<lambda>(s, i). bindE (remap_id (value_table p) al (done_state ?f ids ?kept) i) (\<lambda>j. Inr (s, j))) (pr_commits p)
      = Inr (map (\<lambda>(s, i). (s, ?f i)) (pr_commits p))"
  proof (rule mapE_all)
    fix c assume c: "c \<in> set (pr_commits p)"
    obtain st i where si: "c = (st, i)" by (cases c)
    have "remap_id (value_table p) al (done_state ?f ids ?kept) i = Inr (?f i)"
      using remap_id_done [OF _ _ d refl, of "value_table p" al i "r i"] assms(2,4) c si by auto
    then show "(case c of (s, i) \<Rightarrow> bindE (remap_id (value_table p) al (done_state ?f ids ?kept) i) (\<lambda>j. Inr (s, j)))
        = Inr (case c of (s, i) \<Rightarrow> (s, ?f i))" by (simp add: si)
  qed
  have st: "\<lparr>cs_idmap = [], cs_next = 0\<rparr> = done_state ?f ids []" by (simp add: done_state_def)
  have sl: "pr_dt_bound p = None" "pr_post_sync p = []" using assms(1) by (auto simp: straight_line_def)
  have "\<exists>im. rebuild (Suc (Suc d)) keep al p = Inr \<lparr>pr_values = map (\<lambda>v. rename_node ?f (position ids (pv_id v)) v) ?kept,
      pr_commits = map (\<lambda>(s, i). (s, ?f i)) (pr_commits p), pr_post_sync = [], pr_dt_bound = None, pr_imports = im\<rparr>"
    by (simp only: rebuild_def Let_def kept st fold append_Nil bindE_simps vals com sl mapE.simps option.case) blast
  then show ?thesis by (auto simp: renamed_def)
qed

subsection \<open>Running a straight-line Program\<close>

text \<open>
  A node is presented to the machine without its ids (\<open>shape\<close>); the machine gets the contents of the
  referenced buffers and returns their new contents, the content of the node's own buffer and the new
  world (block states, the shared aux, histories, diagnostics).  \<open>mc_target\<close> is the reference whose buffer
  the result aliases, if any.
\<close>

record ('a, 'b, 'w) machine =
  mc_target :: "'a pvalue \<Rightarrow> nat option"
  mc_run :: "'a pvalue \<Rightarrow> 'b list \<Rightarrow> 'w \<Rightarrow> 'b list \<times> 'b \<times> 'w"

record ('b, 'w) run_state =
  rs_env :: "nat \<Rightarrow> nat"
  rs_heap :: "nat \<Rightarrow> 'b"
  rs_world :: 'w

definition shape :: "'a pvalue \<Rightarrow> 'a pvalue" where
  "shape v = rename_node (\<lambda>i. 0) 0 v"

fun write_all :: "nat list \<Rightarrow> 'b list \<Rightarrow> (nat \<Rightarrow> 'b) \<Rightarrow> nat \<Rightarrow> 'b" where
  "write_all (l # locs) (b # news) h = write_all locs news (h(l := b))"
| "write_all _ _ h = h"

definition exec_node :: "('a, 'b, 'w) machine \<Rightarrow> 'a pvalue \<Rightarrow> ('b, 'w) run_state \<Rightarrow> ('b, 'w) run_state" where
  "exec_node M v s =
     (let locs = map (rs_env s) (all_refs v);
          (news, own, w) = mc_run M (shape v) (map (rs_heap s) locs) (rs_world s);
          h = write_all locs news (rs_heap s)
      in case mc_target M (shape v) of
           Some k \<Rightarrow> \<lparr>rs_env = (rs_env s)(pv_id v := locs ! k), rs_heap = h, rs_world = w\<rparr>
         | None \<Rightarrow> \<lparr>rs_env = (rs_env s)(pv_id v := pv_id v), rs_heap = h(pv_id v := own), rs_world = w\<rparr>)"

definition run_values :: "('a, 'b, 'w) machine \<Rightarrow> 'a pvalue list \<Rightarrow> ('b, 'w) run_state \<Rightarrow> ('b, 'w) run_state" where
  "run_values M vs s = fold (exec_node M) vs s"

text \<open>What a step leaves behind: the committed state contents and the world.\<close>

definition run :: "('a, 'b, 'w) machine \<Rightarrow> 'a program \<Rightarrow> 'b \<Rightarrow> 'w \<Rightarrow> (string \<times> 'b) list \<times> 'w" where
  "run M p b w =
     (let s = run_values M (pr_values p) \<lparr>rs_env = (\<lambda>i. i), rs_heap = (\<lambda>l. b), rs_world = w\<rparr>
      in (map (\<lambda>(c, i). (c, rs_heap s (rs_env s i))) (pr_commits p), rs_world s))"

text \<open>
  What \<^verbatim>\<open>constants.py\<close> documents of the operations it lists as removable: a fresh result, no other effect.
  The target of any node is one of its references.
\<close>

definition well_targeted :: "('a, 'b, 'w) machine \<Rightarrow> bool" where
  "well_targeted M \<longleftrightarrow> (\<forall>v k. mc_target M (shape v) = Some k \<longrightarrow> k < length (all_refs v))"

definition removable_fresh :: "('a, 'b, 'w) machine \<Rightarrow> bool" where
  "removable_fresh M \<longleftrightarrow>
     (\<forall>v vals w. pv_op v \<in> set removable_ops \<longrightarrow>
        mc_target M v = None \<and> fst (mc_run M v vals w) = vals \<and> snd (snd (mc_run M v vals w)) = w)"

lemma shape_simps [simp]: "pv_op (shape v) = pv_op v" "shape (rename_node f i v) = shape v"
proof -
  have "map_ref (\<lambda>i. 0) (map_ref f r) = map_ref (\<lambda>i. 0) r" for r by (cases r) auto
  then show "shape (rename_node f i v) = shape v"
    by (auto simp: shape_def rename_node_def option.map_comp comp_def)
qed (simp add: shape_def rename_node_def)

lemma pv_id_rename [simp]: "pv_id (rename_node f i v) = i"
  by (simp add: rename_node_def)

lemma all_refs_rename [simp]: "all_refs (rename_node f i v) = map f (all_refs v)"
proof -
  have "ref_ids (map_ref f r) = map f (ref_ids r)" for r by (cases r) auto
  then show ?thesis
    by (auto simp: all_refs_def rename_node_def map_concat split_beta comp_def split: option.splits)
qed

lemma write_all_same: "write_all locs (map h locs) h = h"
proof (induction locs)
  case (Cons l locs)
  have "h(l := h l) = h" by (rule ext) simp
  then show ?case using Cons by (simp del: fun_upd_apply)
qed simp

lemma write_all_rename:
  assumes "inj_on f L" "set locs \<subseteq> L" "\<And>l. l \<in> L \<Longrightarrow> h' (f l) = h l" "l \<in> L"
  shows "write_all (map f locs) news h' (f l) = write_all locs news h l"
  using assms
proof (induction locs arbitrary: news h h')
  case (Cons x locs)
  show ?case
  proof (cases news)
    case (Cons b bs)
    have "(h'(f x := b)) (f l) = (h(x := b)) l" if "l \<in> L" for l
      using Cons.prems(1-3) that by (auto dest: inj_onD)
    then have "write_all (map f locs) bs (h'(f x := b)) (f l) = write_all locs bs (h(x := b)) l"
      using Cons.prems(1,2,4) by (intro Cons.IH) simp_all
    then show ?thesis by (simp add: Cons)
  qed (use Cons.prems in simp)
qed simp

text \<open>Two runs agree on the kept ids, up to their renumbering.\<close>

definition agree :: "(nat \<Rightarrow> nat) \<Rightarrow> nat set \<Rightarrow> ('b, 'w) run_state \<Rightarrow> ('b, 'w) run_state \<Rightarrow> bool" where
  "agree f L s s' \<longleftrightarrow>
     (\<forall>i\<in>L. rs_env s i \<in> L \<and> rs_env s' (f i) = f (rs_env s i)) \<and> (\<forall>l\<in>L. rs_heap s' (f l) = rs_heap s l)
     \<and> rs_world s' = rs_world s"

lemma agree_kept:
  assumes "agree f L s s'" "inj_on f L" "well_targeted M" "pv_id v \<in> L" "set (all_refs v) \<subseteq> L"
  shows "agree f L (exec_node M v s) (exec_node M (rename_node f (f (pv_id v)) v) s')"
proof -
  let ?locs = "map (rs_env s) (all_refs v)"
  have locs: "map (rs_env s') (map f (all_refs v)) = map f ?locs" "set ?locs \<subseteq> L"
    using assms(1,5) by (auto simp: agree_def)
  have vals: "map (rs_heap s') (map f ?locs) = map (rs_heap s) ?locs"
    using assms(1) locs(2) by (auto simp: agree_def)
  obtain news own w where run: "mc_run M (shape v) (map (rs_heap s) ?locs) (rs_world s) = (news, own, w)"
    by (metis prod_cases3)
  have run': "mc_run M (shape (rename_node f (f (pv_id v)) v))
      (map (rs_heap s') (map (rs_env s') (all_refs (rename_node f (f (pv_id v)) v)))) (rs_world s') = (news, own, w)"
    using run assms(1) by (simp add: agree_def locs(1) vals del: map_map)
  have wr: "write_all (map (rs_env s') (all_refs (rename_node f (f (pv_id v)) v))) news (rs_heap s') (f l)
      = write_all ?locs news (rs_heap s) l" if "l \<in> L" for l
    using write_all_rename [OF assms(2) locs(2) _ that, of "rs_heap s'" "rs_heap s"] assms(1)
    by (simp add: agree_def locs(1) del: map_map)
  have idn: "pv_id (rename_node f (f (pv_id v)) v) = f (pv_id v)" by (simp add: rename_node_def)
  show ?thesis
  proof (cases "mc_target M (shape v)")
    case None
    then show ?thesis
      using assms(1,2,4) run run' wr by (auto simp: exec_node_def Let_def agree_def idn dest: inj_onD)
  next
    case (Some k)
    then have k: "k < length (all_refs v)" using assms(3) by (auto simp: well_targeted_def)
    then have "all_refs v ! k \<in> L" using assms(5) nth_mem by blast
    then have tgt: "rs_env s (all_refs v ! k) \<in> L" "rs_env s' (f (all_refs v ! k)) = f (rs_env s (all_refs v ! k))"
      using assms(1) by (auto simp: agree_def)
    show ?thesis
      using assms(1,2,4) run run' wr k tgt Some
      by (auto simp: exec_node_def Let_def agree_def idn dest: inj_onD)
  qed
qed

lemma agree_dropped:
  assumes "agree f L s s'" "removable_fresh M" "pv_op v \<in> set removable_ops" "pv_id v \<notin> L"
  shows "agree f L (exec_node M v s) s'"
proof -
  let ?vals = "map (rs_heap s) (map (rs_env s) (all_refs v))"
  have r: "pv_op (shape v) \<in> set removable_ops" using assms(3) by simp
  obtain own where run: "mc_run M (shape v) ?vals (rs_world s) = (?vals, own, rs_world s)"
    using assms(2) r unfolding removable_fresh_def by (metis prod.collapse)
  have "mc_target M (shape v) = None" using assms(2) r by (simp add: removable_fresh_def)
  then have "exec_node M v s
      = \<lparr>rs_env = (rs_env s)(pv_id v := pv_id v), rs_heap = (rs_heap s)(pv_id v := own), rs_world = rs_world s\<rparr>"
    using run by (simp add: exec_node_def Let_def write_all_same del: map_map)
  then show ?thesis using assms(1,4) by (auto simp: agree_def)
qed

lemma agree_run:
  assumes "inj_on f L" "well_targeted M" "removable_fresh M"
    and "\<And>v. v \<in> set vs \<Longrightarrow> pv_id v \<in> L \<Longrightarrow> set (all_refs v) \<subseteq> L"
    and "\<And>v. v \<in> set vs \<Longrightarrow> pv_id v \<notin> L \<Longrightarrow> pv_op v \<in> set removable_ops"
    and "agree f L s s'"
  shows "agree f L (run_values M vs s)
     (run_values M (map (\<lambda>v. rename_node f (f (pv_id v)) v) (filter (\<lambda>v. pv_id v \<in> L) vs)) s')"
  using assms(4-6) unfolding run_values_def
proof (induction vs arbitrary: s s')
  case (Cons v vs)
  show ?case
  proof (cases "pv_id v \<in> L")
    case True
    then have "agree f L (exec_node M v s) (exec_node M (rename_node f (f (pv_id v)) v) s')"
      using Cons.prems assms(1,2) by (intro agree_kept) auto
    then show ?thesis using Cons.IH Cons.prems(1,2) True by simp
  next
    case False
    then have "agree f L (exec_node M v s) s'"
      using Cons.prems assms(3) by (intro agree_dropped) auto
    then show ?thesis using Cons.IH Cons.prems(1,2) False by simp
  qed
qed simp

lemma rep_no_alias [simp]: "rep table [] i = Inr i"
  by (simp add: rep_def rep_loop.simps)

lemma live_closed:
  assumes "straight_line p" "v \<in> set (pr_values p)" "pv_id v \<in> live_value_ids p" "i \<in> set (all_refs v)"
  shows "i \<in> live_value_ids p"
proof -
  have v: "map_of (value_table p) (pv_id v) = Some v" using assms(1,2) by (simp add: straight_line_table)
  have "i \<in> set (ref_id_list v)" using assms(1,2,4) flat_refs(1) [of v] by (auto simp: straight_line_def)
  moreover have "map_of (value_table p) i \<noteq> None"
    using straight_line_ref [OF assms(1,2,4)] straight_line_table [OF assms(1), of i] by auto
  ultimately show ?thesis
    using assms(3) v by (auto simp: live_value_ids_eq_reachable intro: reachable.ref)
qed

lemma live_root:
  assumes "straight_line p" "v \<in> set (pr_values p)" "pv_id v \<in> set (live_roots p)"
  shows "pv_id v \<in> live_value_ids p"
  using assms straight_line_table [OF assms(1), of "pv_id v" v]
  by (auto simp: live_value_ids_eq_reachable intro!: reachable.root)

lemma live_roots_live:
  assumes "straight_line p"
  shows "(s, i) \<in> set (pr_commits p) \<Longrightarrow> i \<in> live_value_ids p"
    and "v \<in> set (pr_values p) \<Longrightarrow> pv_op v \<notin> set removable_ops \<Longrightarrow> pv_id v \<in> live_value_ids p"
proof -
  assume c: "(s, i) \<in> set (pr_commits p)"
  then obtain v where v: "v \<in> set (pr_values p)" "pv_id v = i" using straight_line_commit [OF assms] by blast
  have "i \<in> set (live_roots p)" using c by (force simp: live_roots_def)
  then show "i \<in> live_value_ids p" using live_root [OF assms v(1)] v(2) by simp
qed (use live_root [OF assms] in \<open>auto simp: live_roots_def\<close>)

lemma run_renamed:
  assumes "renamed f ids kept p p'" "kept = filter (\<lambda>v. pv_id v \<in> L) (pr_values p)"
    and "\<And>v. v \<in> set kept \<Longrightarrow> position ids (pv_id v) = f (pv_id v)"
    and "inj_on f L" "well_targeted M" "removable_fresh M"
    and "\<And>v. v \<in> set kept \<Longrightarrow> set (all_refs v) \<subseteq> L"
    and "\<And>v. v \<in> set (pr_values p) \<Longrightarrow> pv_id v \<notin> L \<Longrightarrow> pv_op v \<in> set removable_ops"
    and "\<And>c i. (c, i) \<in> set (pr_commits p) \<Longrightarrow> i \<in> L"
  shows "run M p' b w = run M p b w"
proof -
  let ?s = "\<lparr>rs_env = (\<lambda>i. i), rs_heap = (\<lambda>l. b), rs_world = w\<rparr>"
  have "agree f L ?s ?s" by (simp add: agree_def)
  then have ag: "agree f L (run_values M (pr_values p) ?s)
      (run_values M (map (\<lambda>v. rename_node f (f (pv_id v)) v) (filter (\<lambda>v. pv_id v \<in> L) (pr_values p))) ?s)"
    using assms(2,4-8) by (intro agree_run) auto
  have vs: "pr_values p' = map (\<lambda>v. rename_node f (f (pv_id v)) v) (filter (\<lambda>v. pv_id v \<in> L) (pr_values p))"
    using assms(1-3) by (auto simp: renamed_def)
  have com: "pr_commits p' = map (\<lambda>(s, i). (s, f i)) (pr_commits p)" using assms(1) by (simp add: renamed_def)
  show ?thesis
    using ag assms(9) unfolding run_def vs com by (auto simp: Let_def agree_def)
qed

lemma eliminate_dead_nodes_renamed:
  assumes "straight_line p" "ids = map pv_id (filter (\<lambda>v. pv_id v \<in> live_value_ids p) (pr_values p))"
  shows "\<exists>p'. eliminate_dead_nodes (Suc (Suc d)) p = Inr p'
     \<and> renamed (position ids) ids (filter (\<lambda>v. pv_id v \<in> live_value_ids p) (pr_values p)) p p'"
proof -
  have "\<exists>p'. rebuild (Suc (Suc d)) (\<lambda>v. pv_id v \<in> live_value_ids p) [] p = Inr p'
     \<and> renamed (position ids \<circ> (\<lambda>i. i)) ids (filter (\<lambda>v. pv_id v \<in> live_value_ids p) (pr_values p)) p p'"
  proof (rule rebuild_straight_line [OF assms])
    fix v i assume v: "v \<in> set (filter (\<lambda>v. pv_id v \<in> live_value_ids p) (pr_values p))" "i \<in> set (all_refs v)"
    then have "i \<in> live_value_ids p" using live_closed [OF assms(1)] by auto
    then show "rep (value_table p) [] i = Inr i \<and> i < pv_id v \<and> i \<in> set ids"
      using v straight_line_ref [OF assms(1), of v i] assms(2) by auto
  next
    fix s i assume c: "(s, i) \<in> set (pr_commits p)"
    then obtain v where "v \<in> set (pr_values p)" "pv_id v = i" using straight_line_commit [OF assms(1)] by blast
    then show "rep (value_table p) [] i = Inr i \<and> i \<in> set ids"
      using live_roots_live(1) [OF assms(1) c] assms(2) by auto
  qed
  then show ?thesis by (simp add: eliminate_dead_nodes_def comp_def)
qed

lemma dead_nodes_run:
  assumes "straight_line p" "well_targeted M" "removable_fresh M"
  shows "\<exists>p'. eliminate_dead_nodes (Suc (Suc d)) p = Inr p' \<and> run M p' b w = run M p b w
     \<and> map pv_op (pr_values p') = map pv_op (filter (\<lambda>v. pv_id v \<in> live_value_ids p) (pr_values p))
     \<and> map pv_id (pr_values p') = [0 ..< length (pr_values p')]"
proof -
  define kept where "kept = filter (\<lambda>v. pv_id v \<in> live_value_ids p) (pr_values p)"
  define ids where "ids = map pv_id kept"
  have d: "distinct ids"
    using assms(1) by (auto simp: ids_def kept_def straight_line_def distinct_map_filter dest!: sorted_lt_distinct)
  obtain p' where p': "eliminate_dead_nodes (Suc (Suc d)) p = Inr p'" "renamed (position ids) ids kept p p'"
    using eliminate_dead_nodes_renamed [OF assms(1)] by (auto simp: ids_def kept_def)
  have "kept = filter (\<lambda>v. pv_id v \<in> set ids) (pr_values p)"
    by (auto simp: ids_def kept_def intro!: filter_cong)
  then have "run M p' b w = run M p b w"
  proof (rule run_renamed [OF p'(2) _ _ _ assms(2,3)])
    show "set (all_refs v) \<subseteq> set ids" if "v \<in> set kept" for v
      using that live_closed [OF assms(1), of v] straight_line_ref [OF assms(1), of v]
      by (fastforce simp: ids_def kept_def)
    show "pv_op v \<in> set removable_ops" if "v \<in> set (pr_values p)" "pv_id v \<notin> set ids" for v
      using that live_roots_live(2) [OF assms(1)] by (auto simp: ids_def kept_def)
    show "i \<in> set ids" if "(c, i) \<in> set (pr_commits p)" for c i
      using live_roots_live(1) [OF assms(1) that] straight_line_commit [OF assms(1) that]
      by (auto simp: ids_def kept_def)
  qed (auto intro: inj_on_position)
  moreover have "map pv_op (pr_values p') = map pv_op kept"
    using p'(2) by (simp add: renamed_def rename_node_def)
  moreover have "map pv_id (pr_values p') = [0 ..< length (pr_values p')]"
  proof (rule nth_equalityI)
    fix i assume "i < length (map pv_id (pr_values p'))"
    then have i: "i < length ids" using p'(2) by (simp add: renamed_def ids_def)
    have "position ids (ids ! i) = i"
      using nth_position [of "ids ! i" ids] position_less [of "ids ! i" ids] i d
      by (simp add: nth_eq_iff_index_eq)
    then show "map pv_id (pr_values p') ! i = [0 ..< length (pr_values p')] ! i"
      using i p'(2) by (simp add: renamed_def ids_def rename_node_def)
  qed simp
  ultimately show ?thesis using p'(1) by (auto simp: kept_def)
qed

subsection \<open>Common subexpressions compute the same value\<close>

text \<open>What the loop of the pass keeps of its tables; the ids come in ascending order.\<close>

definition cse_inv :: "nat set \<Rightarrow> (nat \<times> nat) list \<Rightarrow> ('a subexpression_key \<times> nat) list \<Rightarrow> nat list \<Rightarrow> bool" where
  "cse_inv seen canon reps dropped \<longleftrightarrow>
     (\<forall>i r. map_of canon i = Some r \<longrightarrow>
        i \<in> seen \<and> map_of canon r = Some r \<and> r \<le> i \<and> (i \<in> set dropped \<longleftrightarrow> r \<noteq> i))
     \<and> (\<forall>i\<in>set dropped. map_of canon i \<noteq> None) \<and> (\<forall>k r. map_of reps k = Some r \<longrightarrow> map_of canon r = Some r)"

lemma cse_loop_inv:
  fixes vs :: "'a pvalue list"
  assumes "cse_inv seen canon reps dropped" "sorted_wrt (<) (map pv_id vs)" "\<forall>v\<in>set vs. \<forall>i\<in>seen. i < pv_id v"
    and "cse_loop vs canon reps dropped = (canon', dropped')"
  shows "\<exists>reps' :: ('a subexpression_key \<times> nat) list. cse_inv (seen \<union> pv_id ` set vs) canon' reps' dropped'"
  using assms
proof (induction vs canon reps dropped arbitrary: seen rule: cse_loop.induct)
  case (2 v vs canon reps dropped)
  have v: "pv_id v \<notin> seen" using "2.prems"(3) by force
  have rest: "sorted_wrt (<) (map pv_id vs)" "\<forall>w\<in>set vs. \<forall>i\<in>insert (pv_id v) seen. i < pv_id w"
    using "2.prems"(2,3) by auto
  have un: "insert (pv_id v) seen \<union> pv_id ` set vs = seen \<union> pv_id ` set (v # vs)" by auto
  have new: "map_of canon (pv_id v) = None" "pv_id v \<notin> set dropped"
    using "2.prems"(1) v by (auto simp: cse_inv_def) (metis not_Some_eq)+
  show ?case
  proof (cases "pv_op v \<in> set pure_ops")
    case False
    have "cse_inv (insert (pv_id v) seen) canon reps dropped" using "2.prems"(1) by (auto simp: cse_inv_def)
    then show ?thesis using 2(1) [OF False _ rest] "2.prems"(4) False un by simp
  next
    case True
    show ?thesis
    proof (cases "map_of reps (cse_key canon v)")
      case None
      have "cse_inv (insert (pv_id v) seen) ((pv_id v, pv_id v) # canon) ((cse_key canon v, pv_id v) # reps) dropped"
        using "2.prems"(1) new by (auto simp: cse_inv_def)
      then show ?thesis using 2(2) [OF _ refl None _ rest] "2.prems"(4) True None un by simp
    next
      case (Some r)
      have r: "map_of canon r = Some r" using "2.prems"(1) Some unfolding cse_inv_def by blast
      then have "r \<in> seen" using "2.prems"(1) unfolding cse_inv_def by blast
      then have lt: "r < pv_id v" using "2.prems"(3) by simp
      have "cse_inv (insert (pv_id v) seen) ((pv_id v, r) # canon) reps (pv_id v # dropped)"
        using "2.prems"(1) new r lt by (auto simp: cse_inv_def)
      then show ?thesis using 2(3) [OF _ refl Some _ rest] "2.prems"(4) True Some un by simp
    qed
  qed
qed auto

text \<open>
  The laws: no node of the Program writes a buffer it reads or aliases one, and a pure operation depends on
  nothing but what its key compares.
\<close>

definition in_place_free :: "('a, 'b, 'w) machine \<Rightarrow> 'a pvalue list \<Rightarrow> bool" where
  "in_place_free M vs \<longleftrightarrow>
     (\<forall>v\<in>set vs. mc_target M (shape v) = None \<and> (\<forall>vals w. fst (mc_run M (shape v) vals w) = vals))"

definition pure_fresh :: "('a, 'b, 'w) machine \<Rightarrow> bool" where
  "pure_fresh M \<longleftrightarrow>
     (\<forall>u v vals w w'. pv_op v \<in> set pure_ops \<longrightarrow> cse_key [] (shape u) = cse_key [] (shape v) \<longrightarrow>
        fst (snd (mc_run M (shape u) vals w)) = fst (snd (mc_run M (shape v) vals w'))
        \<and> snd (snd (mc_run M (shape v) vals w)) = w)"

definition pure_equation :: "('a, 'b, 'w) machine \<Rightarrow> (nat \<Rightarrow> 'b) \<Rightarrow> 'a pvalue \<Rightarrow> bool" where
  "pure_equation M H v \<longleftrightarrow> (\<forall>w. H (pv_id v) = fst (snd (mc_run M (shape v) (map H (all_refs v)) w)))"

lemma same_key_same_value:
  assumes "pure_fresh M" "pure_equation M H u" "pure_equation M H v" "pv_op v \<in> set pure_ops"
    and "cse_key c u = cse_key c' v"
    and "\<And>i. H (canon_get c i) = H i" "\<And>i. H (canon_get c' i) = H i"
  shows "H (pv_id u) = H (pv_id v)"
proof -
  have k: "pv_op u = pv_op v" "pv_vtype u = pv_vtype v" "pv_refs u = pv_refs v" "pv_when u = pv_when v"
      "pv_blocks u = pv_blocks v" "pv_data u = pv_data v"
      "map (canon_get c) (pv_inputs u) = map (canon_get c') (pv_inputs v)"
    using assms(5) by (auto simp: cse_key_def)
  have "map H (map (canon_get c) (pv_inputs u)) = map H (map (canon_get c') (pv_inputs v))" by (simp only: k(7))
  then have "map H (pv_inputs u) = map H (pv_inputs v)" using assms(6,7) by (simp add: comp_def)
  then have vals: "map H (all_refs u) = map H (all_refs v)" by (simp add: all_refs_def k)
  have "length (pv_inputs u) = length (pv_inputs v)" using k(7) by (metis length_map)
  then have "map (\<lambda>i. 0 :: nat) (pv_inputs u) = map (\<lambda>i. 0) (pv_inputs v)" by (simp add: map_replicate_const)
  then have "cse_key [] (shape u) = cse_key [] (shape v)" by (simp add: cse_key_def shape_def rename_node_def k)
  then show ?thesis using assms(1-4) vals unfolding pure_fresh_def pure_equation_def by metis
qed

lemma cse_loop_values:
  assumes "pure_fresh M" "\<forall>v\<in>set vs. pv_op v \<in> set pure_ops \<longrightarrow> pure_equation M H v"
    and "\<And>i. H (canon_get canon i) = H i"
    and "\<And>k r. map_of reps k = Some r \<Longrightarrow> \<exists>u c. pv_id u = r \<and> pure_equation M H u \<and> k = cse_key c u
           \<and> (\<forall>i. H (canon_get c i) = H i)"
    and "cse_loop vs canon reps dropped = (canon', dropped')"
  shows "H (canon_get canon' i) = H i"
  using assms
proof (induction vs canon reps dropped rule: cse_loop.induct)
  case (2 v vs canon reps dropped)
  show ?case
  proof (cases "pv_op v \<in> set pure_ops")
    case False
    then show ?thesis using "2.IH"(1) [OF False "2.prems"(1) _ "2.prems"(3,4)] "2.prems"(2,5) by simp
  next
    case True
    then have eq: "pure_equation M H v" using "2.prems"(2) by simp
    show ?thesis
    proof (cases "map_of reps (cse_key canon v)")
      case None
      have a: "H (canon_get ((pv_id v, pv_id v) # canon) i) = H i" for i
        using "2.prems"(3) [of i] by (simp add: canon_get_def)
      have b: "\<exists>u c. pv_id u = r \<and> pure_equation M H u \<and> k = cse_key c u \<and> (\<forall>i. H (canon_get c i) = H i)"
        if "map_of ((cse_key canon v, pv_id v) # reps) k = Some r" for k r
        using that "2.prems"(3,4) eq by (auto split: if_splits)
      show ?thesis
        using "2.IH"(2) [OF _ refl None "2.prems"(1) _ a b] "2.prems"(2,5) True None by simp
    next
      case (Some r)
      then obtain u c where u: "pv_id u = r" "pure_equation M H u" "cse_key canon v = cse_key c u"
          "\<And>i. H (canon_get c i) = H i"
        using "2.prems"(4) by metis
      have "H (pv_id u) = H (pv_id v)"
        by (rule same_key_same_value [OF "2.prems"(1) u(2) eq True u(3) [symmetric] u(4) "2.prems"(3)])
      then have a: "H (canon_get ((pv_id v, r) # canon) i) = H i" for i
        using "2.prems"(3) [of i] u(1) by (simp add: canon_get_def)
      show ?thesis
        using "2.IH"(3) [OF _ refl Some "2.prems"(1) _ a "2.prems"(4)] "2.prems"(2,5) True Some by simp
    qed
  qed
qed simp

text \<open>In a Program without in-place writes every value keeps the buffer of its own id.\<close>

lemma exec_ssa:
  assumes "in_place_free M [v]" "rs_env s = (\<lambda>i. i)"
  shows "exec_node M v s =
     (let (news, own, w) = mc_run M (shape v) (map (rs_heap s) (all_refs v)) (rs_world s)
      in \<lparr>rs_env = (\<lambda>i. i), rs_heap = (rs_heap s)(pv_id v := own), rs_world = w\<rparr>)"
proof -
  obtain news own w where run: "mc_run M (shape v) (map (rs_heap s) (all_refs v)) (rs_world s) = (news, own, w)"
    by (metis prod_cases3)
  then have "news = map (rs_heap s) (all_refs v)" using assms(1) unfolding in_place_free_def by (metis fst_conv list.set_intros(1))
  then show ?thesis
    using assms run write_all_same [of "all_refs v" "rs_heap s"]
    by (simp add: exec_node_def in_place_free_def fun_upd_idem_iff)
qed

lemma run_ssa_frame:
  assumes "in_place_free M vs" "rs_env s = (\<lambda>i. i)"
  shows "rs_env (run_values M vs s) = (\<lambda>i. i)
     \<and> (\<forall>i. i \<notin> pv_id ` set vs \<longrightarrow> rs_heap (run_values M vs s) i = rs_heap s i)"
  using assms unfolding run_values_def
proof (induction vs arbitrary: s)
  case (Cons v vs)
  have e: "exec_node M v s = (let (news, own, w) = mc_run M (shape v) (map (rs_heap s) (all_refs v)) (rs_world s)
      in \<lparr>rs_env = (\<lambda>i. i), rs_heap = (rs_heap s)(pv_id v := own), rs_world = w\<rparr>)"
    using Cons.prems by (intro exec_ssa) (auto simp: in_place_free_def)
  then have "rs_env (exec_node M v s) = (\<lambda>i. i)" by (simp add: split_beta Let_def)
  then show ?case
    using Cons.IH [of "exec_node M v s"] Cons.prems(1) e by (auto simp: in_place_free_def split_beta Let_def)
qed simp

text \<open>The final contents satisfy the equations of the pure nodes.\<close>

lemma run_ssa_equations:
  assumes "in_place_free M vs" "rs_env s = (\<lambda>i. i)" "sorted_wrt (<) (map pv_id vs)" "pure_fresh M"
    and "\<And>v i. v \<in> set vs \<Longrightarrow> i \<in> set (all_refs v) \<Longrightarrow> i < pv_id v"
  shows "\<forall>v\<in>set vs. pv_op v \<in> set pure_ops \<longrightarrow> pure_equation M (rs_heap (run_values M vs s)) v"
  using assms(1-3,5)
proof (induction vs arbitrary: s)
  case (Cons v vs)
  let ?s1 = "exec_node M v s" and ?H = "rs_heap (run_values M (v # vs) s)"
  have ip: "in_place_free M [v]" "in_place_free M vs" using Cons.prems(1) by (auto simp: in_place_free_def)
  note e = exec_ssa [OF ip(1) Cons.prems(2)]
  have env: "rs_env ?s1 = (\<lambda>i. i)" by (simp add: e split_beta Let_def)
  have H: "?H = rs_heap (run_values M vs ?s1)" by (simp add: run_values_def)
  have keep: "?H i = rs_heap ?s1 i" if "i \<le> pv_id v" for i
  proof -
    have "i \<notin> pv_id ` set vs" using Cons.prems(3) that by force
    then show ?thesis using run_ssa_frame [OF ip(2) env] H by simp
  qed
  have vals: "map ?H (all_refs v) = map (rs_heap s) (all_refs v)"
  proof (rule map_cong [OF refl])
    fix i assume "i \<in> set (all_refs v)"
    then have "i < pv_id v" using Cons.prems(4) by simp
    then show "?H i = rs_heap s i" using keep [of i] by (simp add: e split_beta Let_def)
  qed
  have "pure_equation M ?H v" if "pv_op v \<in> set pure_ops"
  proof -
    have "?H (pv_id v) = fst (snd (mc_run M (shape v) (map (rs_heap s) (all_refs v)) (rs_world s)))"
      using keep [of "pv_id v"] by (simp add: e split_beta Let_def)
    then show ?thesis
      unfolding pure_equation_def vals using assms(4) that unfolding pure_fresh_def by metis
  qed
  moreover have "\<forall>u\<in>set vs. pv_op u \<in> set pure_ops \<longrightarrow> pure_equation M ?H u"
    unfolding H using Cons.IH [OF ip(2) env] Cons.prems(3,4) by simp
  ultimately show ?case by simp
qed simp

text \<open>The rebuilt run follows the original one on the kept nodes.\<close>

lemma cse_simulation:
  assumes "in_place_free M vs" "pure_fresh M" "rs_env s = (\<lambda>i. i)" "rs_env s' = (\<lambda>i. i)"
    and "rs_world s' = rs_world s" "sorted_wrt (<) (map pv_id vs)"
    and "\<And>v. v \<in> set vs \<Longrightarrow> \<not> keep v \<Longrightarrow> pv_op v \<in> set pure_ops"
    and "\<And>v i. v \<in> set vs \<Longrightarrow> i \<in> set (all_refs v) \<Longrightarrow> i < pv_id v \<and> r i \<le> i \<and> r i \<in> K"
    and "H = rs_heap (run_values M vs s)" "\<And>i. H (r i) = H i" "inj_on f K" "pv_id ` set (filter keep vs) \<subseteq> K"
    and "\<And>i. i \<in> K \<Longrightarrow> (\<forall>v\<in>set vs. i < pv_id v) \<Longrightarrow> rs_heap s' (f i) = H i"
    and "\<And>i v. i \<in> K \<Longrightarrow> v \<in> set vs \<Longrightarrow> pv_id v = i \<Longrightarrow> keep v"
    and "\<And>i. i \<in> K \<Longrightarrow> (\<forall>v\<in>set vs. i < pv_id v) \<or> i \<in> pv_id ` set vs"
  shows "rs_env (run_values M (map (\<lambda>v. rename_node (f \<circ> r) (f (pv_id v)) v) (filter keep vs)) s') = (\<lambda>i. i)
     \<and> (\<forall>i\<in>K. rs_heap (run_values M (map (\<lambda>v. rename_node (f \<circ> r) (f (pv_id v)) v) (filter keep vs)) s') (f i) = H i)
     \<and> rs_world (run_values M (map (\<lambda>v. rename_node (f \<circ> r) (f (pv_id v)) v) (filter keep vs)) s')
        = rs_world (run_values M vs s)"
  using assms(1,3-9,12-)
proof (induction vs arbitrary: s s')
  case Nil
  then show ?case by (simp add: run_values_def)
next
  case (Cons v vs)
  let ?s1 = "exec_node M v s"
  have ip: "in_place_free M [v]" "in_place_free M vs" using Cons.prems(1) by (auto simp: in_place_free_def)
  note e = exec_ssa [OF ip(1) Cons.prems(2)]
  have env: "rs_env ?s1 = (\<lambda>i. i)" by (simp add: e split_beta Let_def)
  have H: "H = rs_heap (run_values M vs ?s1)" using Cons.prems(8) by (simp add: run_values_def)
  have lt: "\<forall>w\<in>set vs. pv_id v < pv_id w" using Cons.prems(5) by simp
  have refs: "rs_heap s i = H i" if "i \<in> set (all_refs v)" for i
  proof -
    have i: "i < pv_id v" using Cons.prems(7) that by simp
    then have "i \<notin> pv_id ` set vs" using lt by force
    then have "H i = rs_heap ?s1 i" using run_ssa_frame [OF ip(2) env] H by simp
    then show ?thesis using i by (simp add: e split_beta Let_def)
  qed
  have own: "H (pv_id v) = fst (snd (mc_run M (shape v) (map (rs_heap s) (all_refs v)) (rs_world s)))"
  proof -
    have "pv_id v \<notin> pv_id ` set vs" using lt by force
    then have "H (pv_id v) = rs_heap ?s1 (pv_id v)" using run_ssa_frame [OF ip(2) env] H by simp
    then show ?thesis by (simp add: e split_beta Let_def)
  qed
  define s2 where "s2 = (if keep v then exec_node M (rename_node (f \<circ> r) (f (pv_id v)) v) s' else s')"
  have s2: "rs_env s2 = (\<lambda>i. i)" "rs_world s2 = rs_world ?s1"
    "rs_heap s2 = (if keep v then (rs_heap s')(f (pv_id v) := H (pv_id v)) else rs_heap s')"
  proof -
    have "map (rs_heap s') (map (f \<circ> r) (all_refs v)) = map (rs_heap s) (all_refs v)"
    proof -
      have "rs_heap s' (f (r i)) = rs_heap s i" if "i \<in> set (all_refs v)" for i
        using Cons.prems(7) [of v i] Cons.prems(10) [of "r i"] that lt refs [OF that] assms(10) [of i] by fastforce
      then show ?thesis by simp
    qed
    then have e': "exec_node M (rename_node (f \<circ> r) (f (pv_id v)) v) s' =
        (let (news, own, w) = mc_run M (shape v) (map (rs_heap s) (all_refs v)) (rs_world s)
         in \<lparr>rs_env = (\<lambda>i. i), rs_heap = (rs_heap s')(f (pv_id v) := own), rs_world = w\<rparr>)"
      using exec_ssa [of M "rename_node (f \<circ> r) (f (pv_id v)) v" s'] ip(1) Cons.prems(3,4)
      by (simp add: in_place_free_def del: map_map)
    have pw: "\<not> keep v \<Longrightarrow> rs_world ?s1 = rs_world s"
      using Cons.prems(6) [of v] assms(2) e by (auto simp: pure_fresh_def split_beta Let_def)
    show "rs_env s2 = (\<lambda>i. i)" "rs_world s2 = rs_world ?s1"
        "rs_heap s2 = (if keep v then (rs_heap s')(f (pv_id v) := H (pv_id v)) else rs_heap s')"
      using e e' own pw Cons.prems(3,4) by (auto simp: s2_def split_beta Let_def)
  qed
  have run: "run_values M (map (\<lambda>v. rename_node (f \<circ> r) (f (pv_id v)) v) (filter keep (v # vs))) s'
      = run_values M (map (\<lambda>v. rename_node (f \<circ> r) (f (pv_id v)) v) (filter keep vs)) s2"
      "run_values M (v # vs) s = run_values M vs ?s1"
    by (simp_all add: run_values_def s2_def)
  show ?case
    unfolding run
  proof (rule Cons.IH [OF ip(2) env s2(1,2)])
    show "rs_heap s2 (f i) = H i" if "i \<in> K" "\<forall>w\<in>set vs. i < pv_id w" for i
      using that Cons.prems(9) Cons.prems(11) [of i v] Cons.prems(12) [of i] Cons.prems(10) [of i] assms(11) s2(3)
      by (auto dest: inj_onD split: if_splits)
    show "(\<forall>w\<in>set vs. i < pv_id w) \<or> i \<in> pv_id ` set vs" if "i \<in> K" for i
      using Cons.prems(12) [OF that] lt by auto
    show "i < pv_id w \<and> r i \<le> i \<and> r i \<in> K" if "w \<in> set vs" "i \<in> set (all_refs w)" for w i
      using Cons.prems(7) [of w i] that by simp
  qed (use Cons.prems(5,6,9,11) H in \<open>auto split: if_splits\<close>)
qed

lemma cse_loop_dropped:
  "cse_loop vs canon reps dropped = (canon', dropped') \<Longrightarrow> i \<in> set dropped' \<Longrightarrow>
   i \<in> set dropped \<or> (\<exists>v\<in>set vs. pv_id v = i \<and> pv_op v \<in> set pure_ops)"
proof (induction vs canon reps dropped rule: cse_loop.induct)
  case (2 v vs canon reps dropped)
  show ?case
  proof (cases "pv_op v \<in> set pure_ops")
    case True
    then show ?thesis
      using 2(2) [OF _ refl] 2(3) [OF _ refl] "2.prems" by (cases "map_of reps (cse_key canon v)") auto
  qed (use 2(1) "2.prems" in auto)
qed simp

lemma cse_rep:
  assumes "straight_line p" "cse_inv (pv_id ` set (pr_values p)) canon reps dropped" "i \<in> pv_id ` set (pr_values p)"
    and "al = (if dropped = [] then [] else canon)"
  shows "rep (value_table p) al i = Inr (canon_get canon i)" "canon_get canon i \<le> i"
    "canon_get canon i \<in> pv_id ` set (pr_values p)" "canon_get canon i \<notin> set dropped"
proof -
  have flat: "map_of (value_table p) j \<noteq> None" if "j \<in> pv_id ` set (pr_values p)" for j
    using that straight_line_table [OF assms(1), of j] by auto
  have "rep (value_table p) al i = Inr (canon_get canon i) \<and> canon_get canon i \<le> i
     \<and> canon_get canon i \<in> pv_id ` set (pr_values p) \<and> canon_get canon i \<notin> set dropped"
  proof (cases "map_of canon i")
    case None
    then show ?thesis
      using assms(2-4)
      by (auto simp: canon_get_def cse_inv_def rep_def rep_loop.simps [of _ canon] rep_loop.simps [of _ "[]"])
  next
    case (Some r)
    have r: "map_of canon r = Some r" "r \<le> i" "i \<in> set dropped \<longleftrightarrow> r \<noteq> i"
      using assms(2) Some unfolding cse_inv_def by blast+
    then have s: "r \<in> pv_id ` set (pr_values p)" "r \<notin> set dropped"
      using assms(2) unfolding cse_inv_def by blast+
    have "rep (value_table p) al i = Inr r"
    proof (cases "dropped = []")
      case True
      then show ?thesis using r(3) assms(4) by simp
    next
      case False
      then show ?thesis
        using assms(4) Some r(1) flat [OF s(1)]
        by (auto simp: rep_def rep_loop.simps [of _ canon "{}"] rep_loop.simps [of _ canon "{i}"])
    qed
    then show ?thesis using Some r(2) s by (simp add: canon_get_def)
  qed
  then show "rep (value_table p) al i = Inr (canon_get canon i)" "canon_get canon i \<le> i"
    "canon_get canon i \<in> pv_id ` set (pr_values p)" "canon_get canon i \<notin> set dropped" by blast+
qed

lemma cse_run:
  assumes "straight_line p" "in_place_free M (pr_values p)" "pure_fresh M"
  shows "\<exists>p'. eliminate_common_subexpressions (Suc (Suc d)) p = Inr p' \<and> run M p' b w = run M p b w"
proof -
  obtain canon dropped where cd: "cse_loop (pr_values p) [] [] [] = (canon, dropped)" by (metis surj_pair)
  have lt: "sorted_wrt (<) (map pv_id (pr_values p))" using assms(1) by (simp add: straight_line_def)
  have "cse_inv {} [] ([] :: ('a subexpression_key \<times> nat) list) []" by (simp add: cse_inv_def)
  then obtain reps :: "('a subexpression_key \<times> nat) list" where inv: "cse_inv (pv_id ` set (pr_values p)) canon reps dropped"
    using cse_loop_inv [OF _ lt _ cd, of "{}"] by auto
  define al where "al = (if dropped = [] then [] else canon)"
  define keep where "keep = (\<lambda>v :: 'a pvalue. pv_id v \<notin> set dropped)"
  define ids where "ids = map pv_id (filter keep (pr_values p))"
  define r where "r = canon_get canon"
  note rep = cse_rep [OF assms(1) inv _ al_def, folded r_def]
  have ids: "r i \<in> set ids" if "i \<in> pv_id ` set (pr_values p)" for i
    using rep(3,4) [OF that] by (auto simp: ids_def keep_def)
  have refs: "i < pv_id v \<and> i \<in> pv_id ` set (pr_values p)" if "v \<in> set (pr_values p)" "i \<in> set (all_refs v)" for v i
    using straight_line_ref [OF assms(1) that] by auto
  have com: "i \<in> pv_id ` set (pr_values p)" if "(c, i) \<in> set (pr_commits p)" for c i
    using straight_line_commit [OF assms(1) that] by auto
  have "\<exists>p'. rebuild (Suc (Suc d)) keep al p = Inr p' \<and> renamed (position ids \<circ> r) ids (filter keep (pr_values p)) p p'"
  proof (rule rebuild_straight_line [OF assms(1) ids_def])
    show "rep (value_table p) al i = Inr (r i) \<and> r i < pv_id v \<and> r i \<in> set ids"
      if "v \<in> set (filter keep (pr_values p))" "i \<in> set (all_refs v)" for v i
      using refs [of v i] rep(1,2) [of i] ids [of i] that by fastforce
    show "rep (value_table p) al i = Inr (r i) \<and> r i \<in> set ids" if "(s, i) \<in> set (pr_commits p)" for s i
      using com [OF that] rep(1) [of i] ids [of i] by simp
  qed
  then obtain p' where p': "rebuild (Suc (Suc d)) keep al p = Inr p'"
      "renamed (position ids \<circ> r) ids (filter keep (pr_values p)) p p'" by blast
  let ?s = "\<lparr>rs_env = (\<lambda>i. i), rs_heap = (\<lambda>l. b), rs_world = w\<rparr>"
  define H where "H = rs_heap (run_values M (pr_values p) ?s)"
  have "\<forall>v\<in>set (pr_values p). pv_op v \<in> set pure_ops \<longrightarrow> pure_equation M H v"
    unfolding H_def by (rule run_ssa_equations [OF assms(2) _ lt assms(3)]) (use refs in auto)
  then have Hr: "H (r i) = H i" for i
    unfolding r_def by (rule cse_loop_values [OF assms(3) _ _ _ cd]) (auto simp: canon_get_def)
  have pure: "pv_op v \<in> set pure_ops" if v: "v \<in> set (pr_values p)" "\<not> keep v" for v
  proof -
    obtain u where "u \<in> set (pr_values p)" "pv_id u = pv_id v" "pv_op u \<in> set pure_ops"
      using cse_loop_dropped [OF cd, of "pv_id v"] v(2) by (auto simp: keep_def)
    moreover have "inj_on pv_id (set (pr_values p))" using sorted_lt_distinct [OF lt] by (simp add: distinct_map)
    ultimately show ?thesis using v(1) by (metis inj_onD)
  qed
  have sim: "rs_env (run_values M (map (\<lambda>v. rename_node (position ids \<circ> r) (position ids (pv_id v)) v) (filter keep (pr_values p))) ?s) = (\<lambda>i. i)
     \<and> (\<forall>i\<in>set ids. rs_heap (run_values M (map (\<lambda>v. rename_node (position ids \<circ> r) (position ids (pv_id v)) v) (filter keep (pr_values p))) ?s) (position ids i) = H i)
     \<and> rs_world (run_values M (map (\<lambda>v. rename_node (position ids \<circ> r) (position ids (pv_id v)) v) (filter keep (pr_values p))) ?s)
        = rs_world (run_values M (pr_values p) ?s)"
  proof (rule cse_simulation [OF assms(2,3) _ _ _ lt pure _ H_def Hr inj_on_position])
    show "i < pv_id v \<and> r i \<le> i \<and> r i \<in> set ids" if "v \<in> set (pr_values p)" "i \<in> set (all_refs v)" for v i
      using refs [OF that] rep(2) [of i] ids [of i] by blast
    have inj: "inj_on pv_id (set (pr_values p))" using sorted_lt_distinct [OF lt] by (simp add: distinct_map)
    show "keep v" if "i \<in> set ids" "v \<in> set (pr_values p)" "pv_id v = i" for i v
      using that inj by (auto simp: ids_def keep_def)
    show "rs_heap ?s (position ids i) = H i" if "i \<in> set ids" "\<forall>v\<in>set (pr_values p). i < pv_id v" for i
      using that by (auto simp: ids_def)
  qed (auto simp: ids_def)
  have frame: "rs_env (run_values M (pr_values p) ?s) = (\<lambda>i. i)"
    using run_ssa_frame [OF assms(2), of ?s] by simp
  have vs: "pr_values p' = map (\<lambda>v. rename_node (position ids \<circ> r) (position ids (pv_id v)) v) (filter keep (pr_values p))"
    and cs: "pr_commits p' = map (\<lambda>(s, i). (s, (position ids \<circ> r) i)) (pr_commits p)"
    using p'(2) by (simp_all add: renamed_def)
  have "run M p' b w = run M p b w"
    using sim frame Hr ids com unfolding run_def vs cs Let_def by (fastforce simp: H_def [symmetric])
  moreover have "eliminate_common_subexpressions (Suc (Suc d)) p = rebuild (Suc (Suc d)) keep al p"
    by (auto simp: eliminate_common_subexpressions_def cd al_def keep_def)
  ultimately show ?thesis using p'(1) by auto
qed

subsection \<open>Redundant field solves\<close>

text \<open>
  The rule the pass documents: a solve is redundant when an earlier kept solve has the same state input and
  field and nothing between the two can change what the elliptic solve reads.
\<close>

definition quiet :: "('a \<Rightarrow> string option) \<Rightarrow> nat set \<Rightarrow> nat \<times> string option \<Rightarrow> 'a pvalue \<Rightarrow> bool" where
  "quiet field_of commits sig v \<longleftrightarrow>
     (if pv_op v = ''solve_fields'' then ([fst sig], snd sig) = (pv_inputs v, field_of (pv_data v))
      else pv_op v \<notin> set state_barrier_ops \<and> pv_id v \<notin> commits)"

definition open_solve ::
  "('a \<Rightarrow> string option) \<Rightarrow> nat set \<Rightarrow> 'a pvalue list \<Rightarrow> nat \<times> string option \<Rightarrow> nat \<Rightarrow> bool" where
  "open_solve field_of commits before sig r \<longleftrightarrow>
     (\<exists>xs u ys. before = xs @ u # ys \<and> pv_id u = r \<and> pv_op u = ''solve_fields''
        \<and> ([fst sig], snd sig) = (pv_inputs u, field_of (pv_data u)) \<and> (\<forall>y\<in>set ys. quiet field_of commits sig y))"

lemma open_solve_Nil [simp]: "\<not> open_solve field_of commits [] sig r"
  by (simp add: open_solve_def)

lemma open_solve_snoc:
  "open_solve field_of commits (before @ [v]) sig r \<longleftrightarrow>
     (pv_op v = ''solve_fields'' \<and> ([fst sig], snd sig) = (pv_inputs v, field_of (pv_data v)) \<and> pv_id v = r)
     \<or> (open_solve field_of commits before sig r \<and> quiet field_of commits sig v)" (is "?L \<longleftrightarrow> ?R")
proof
  assume ?L
  then obtain xs u ys where u: "before @ [v] = xs @ u # ys" "pv_id u = r" "pv_op u = ''solve_fields''"
      "([fst sig], snd sig) = (pv_inputs u, field_of (pv_data u))" "\<forall>y\<in>set ys. quiet field_of commits sig y"
    unfolding open_solve_def by blast
  show ?R
  proof (cases ys rule: rev_cases)
    case (snoc zs z)
    then have "before = xs @ u # zs" "z = v" using u(1) by auto
    then show ?thesis using u snoc by (auto simp: open_solve_def)
  qed (use u in auto)
next
  assume ?R
  then show ?L
  proof
    assume "open_solve field_of commits before sig r \<and> quiet field_of commits sig v"
    then obtain xs u ys where "before @ [v] = xs @ u # (ys @ [v])" "pv_id u = r" "pv_op u = ''solve_fields''"
        "([fst sig], snd sig) = (pv_inputs u, field_of (pv_data u))" "\<forall>y\<in>set (ys @ [v]). quiet field_of commits sig y"
      by (auto simp: open_solve_def)
    then show ?L unfolding open_solve_def by blast
  next
    assume "pv_op v = ''solve_fields'' \<and> ([fst sig], snd sig) = (pv_inputs v, field_of (pv_data v)) \<and> pv_id v = r"
    then show ?L unfolding open_solve_def by (intro exI [of _ before] exI [of _ v] exI [of _ "[]"]) auto
  qed
qed

text \<open>The loop's table after a prefix holds the one solve that may still be reused, and that one is kept.\<close>

definition active_ok ::
  "('a \<Rightarrow> string option) \<Rightarrow> nat set \<Rightarrow> 'a pvalue list \<Rightarrow> ((nat \<times> string option) \<times> nat) list \<Rightarrow> nat list \<Rightarrow> bool" where
  "active_ok field_of commits before active dropped \<longleftrightarrow>
     length active \<le> 1 \<and> set dropped \<subseteq> pv_id ` set before
     \<and> (\<forall>sig. case map_of active sig of
          None \<Rightarrow> \<forall>r. \<not> open_solve field_of commits before sig r
        | Some r \<Rightarrow> open_solve field_of commits before sig r \<and> r \<notin> set dropped)"

lemma active_ok_other:
  assumes "active_ok field_of commits before active dropped" "map_of active sig = Some r" "sig' \<noteq> sig"
  shows "map_of active sig' = None"
  using assms by (cases active) (auto simp: active_ok_def split: if_splits)

lemma redundant_loop_frame:
  "redundant_loop field_of commits vs active canon dropped = Inr (canon', dropped') \<Longrightarrow>
     set dropped \<subseteq> set dropped' \<and> set dropped' \<subseteq> set dropped \<union> pv_id ` set vs
     \<and> (\<forall>i. i \<notin> pv_id ` set vs \<longrightarrow> map_of canon' i = map_of canon i)"
proof (induction vs arbitrary: active canon dropped)
  case (Cons v vs)
  show ?case
  proof (cases "pv_op v = ''solve_fields''")
    case True
    then obtain st where "pv_inputs v = [st]" using Cons.prems by (auto split: list.splits)
    then show ?thesis
      using Cons.prems True by (auto simp: Let_def split: option.splits dest!: Cons.IH)
  qed (use Cons.prems Cons.IH in \<open>auto split: if_splits\<close>)
qed simp

lemma open_solve_id: "open_solve field_of commits before sig r \<Longrightarrow> r \<in> pv_id ` set before"
  by (auto simp: open_solve_def)

text \<open>One turn: the table stays right, and the node is dropped exactly when a solve is open.\<close>

lemma redundant_turn:
  assumes "redundant_loop field_of commits (v # vs) active canon dropped = Inr (canon', dropped')"
    and "active_ok field_of commits before active dropped" "pv_id v \<notin> pv_id ` set before"
  obtains active1 canon1 dropped1 where
    "redundant_loop field_of commits vs active1 canon1 dropped1 = Inr (canon', dropped')"
    "active_ok field_of commits (before @ [v]) active1 dropped1"
    "pv_id v \<in> set dropped1 \<longleftrightarrow> pv_op v = ''solve_fields''
       \<and> (\<exists>r sig. ([fst sig], snd sig) = (pv_inputs v, field_of (pv_data v)) \<and> open_solve field_of commits before sig r)"
    "pv_id v \<in> set dropped1 \<Longrightarrow> \<exists>r sig. map_of canon1 (pv_id v) = Some r \<and> r \<notin> set dropped1
       \<and> ([fst sig], snd sig) = (pv_inputs v, field_of (pv_data v)) \<and> open_solve field_of commits before sig r"
proof (cases "pv_op v = ''solve_fields''")
  case True
  then obtain st where st: "pv_inputs v = [st]" using assms(1) by (auto split: list.splits)
  define sig where "sig = (st, field_of (pv_data v))"
  have sig: "([fst s], snd s) = (pv_inputs v, field_of (pv_data v)) \<longleftrightarrow> s = sig" for s
    by (cases s) (auto simp: sig_def st)
  have os: "open_solve field_of commits (before @ [v]) s r \<longleftrightarrow> s = sig \<and> (pv_id v = r \<or> open_solve field_of commits before sig r)"
    for s r using True sig [of s] by (auto simp: open_solve_snoc quiet_def simp del: prod.inject)
  have ok: "case map_of active s of None \<Rightarrow> \<forall>r. \<not> open_solve field_of commits before s r
      | Some r \<Rightarrow> open_solve field_of commits before s r \<and> r \<notin> set dropped" for s
    using assms(2) unfolding active_ok_def by blast
  have new: "pv_id v \<notin> set dropped" using assms(2,3) by (auto simp: active_ok_def)
  show thesis
  proof (cases "map_of active sig")
    case None
    have none: "\<forall>r. \<not> open_solve field_of commits before sig r" using ok [of sig] None by simp
    show thesis
    proof (rule that)
      show "redundant_loop field_of commits vs [(sig, pv_id v)] canon dropped = Inr (canon', dropped')"
        using assms(1) True st None by (simp add: sig_def)
      have "case map_of [(sig, pv_id v)] s of None \<Rightarrow> \<forall>r. \<not> open_solve field_of commits (before @ [v]) s r
        | Some r' \<Rightarrow> open_solve field_of commits (before @ [v]) s r' \<and> r' \<notin> set dropped" for s
        using new by (simp add: os)
      then show "active_ok field_of commits (before @ [v]) [(sig, pv_id v)] dropped"
        using assms(2) unfolding active_ok_def by auto
      show "pv_id v \<in> set dropped \<longleftrightarrow> pv_op v = ''solve_fields''
         \<and> (\<exists>r s. ([fst s], snd s) = (pv_inputs v, field_of (pv_data v)) \<and> open_solve field_of commits before s r)"
        using new none by (simp add: sig del: prod.inject)
    qed (use new in simp)
  next
    case (Some r)
    have r: "open_solve field_of commits before sig r" "r \<notin> set dropped" using ok [of sig] Some by auto
    have rv: "r \<noteq> pv_id v" using open_solve_id [OF r(1)] assms(3) by metis
    show thesis
    proof (rule that)
      show "redundant_loop field_of commits vs active ((pv_id v, r) # canon) (pv_id v # dropped) = Inr (canon', dropped')"
        using assms(1) True st Some by (simp add: sig_def)
      have "case map_of active s of None \<Rightarrow> \<forall>r. \<not> open_solve field_of commits (before @ [v]) s r
        | Some r' \<Rightarrow> open_solve field_of commits (before @ [v]) s r' \<and> r' \<notin> set (pv_id v # dropped)" for s
      proof (cases "s = sig")
        case True
        then show ?thesis using Some r rv by (simp add: os)
      next
        case False
        then show ?thesis using active_ok_other [OF assms(2) Some] by (simp add: os)
      qed
      then show "active_ok field_of commits (before @ [v]) active (pv_id v # dropped)"
        using assms(2) unfolding active_ok_def by auto
      show "pv_id v \<in> set (pv_id v # dropped) \<longleftrightarrow> pv_op v = ''solve_fields''
         \<and> (\<exists>r s. ([fst s], snd s) = (pv_inputs v, field_of (pv_data v)) \<and> open_solve field_of commits before s r)"
        using True r(1) sig by auto
      show "\<exists>r' s. map_of ((pv_id v, r) # canon) (pv_id v) = Some r' \<and> r' \<notin> set (pv_id v # dropped)
         \<and> ([fst s], snd s) = (pv_inputs v, field_of (pv_data v)) \<and> open_solve field_of commits before s r'"
        using r rv sig by auto
    qed
  qed
next
  case False
  define active1 where "active1 = (if pv_op v \<in> set state_barrier_ops \<or> pv_id v \<in> commits then [] else active)"
  have new: "pv_id v \<notin> set dropped" using assms(2,3) by (auto simp: active_ok_def)
  show thesis
  proof (rule that)
    show "redundant_loop field_of commits vs active1 canon dropped = Inr (canon', dropped')"
      using assms(1) False by (auto simp: active1_def split: if_splits)
    have os: "open_solve field_of commits (before @ [v]) s r \<longleftrightarrow>
        open_solve field_of commits before s r \<and> \<not> (pv_op v \<in> set state_barrier_ops \<or> pv_id v \<in> commits)" for s r
      using False by (simp add: open_solve_snoc quiet_def)
    show "active_ok field_of commits (before @ [v]) active1 dropped"
      using assms(2) unfolding active_ok_def active1_def os by (auto cong: option.case_cong)
  qed (use new False in simp_all)
qed

lemma redundant_loop_spec:
  assumes "redundant_loop field_of commits vs active canon dropped = Inr (canon', dropped')"
    and "active_ok field_of commits before active dropped" "distinct (map pv_id (before @ vs))"
    and "vs = xs @ v # ys"
  shows "(pv_id v \<in> set dropped' \<longleftrightarrow> pv_op v = ''solve_fields''
           \<and> (\<exists>r sig. ([fst sig], snd sig) = (pv_inputs v, field_of (pv_data v))
                \<and> open_solve field_of commits (before @ xs) sig r))
     \<and> (pv_id v \<in> set dropped' \<longrightarrow> (\<exists>r sig. map_of canon' (pv_id v) = Some r \<and> r \<notin> set dropped'
          \<and> ([fst sig], snd sig) = (pv_inputs v, field_of (pv_data v))
          \<and> open_solve field_of commits (before @ xs) sig r))"
  using assms
proof (induction xs arbitrary: vs before active canon dropped)
  case Nil
  have "pv_id v \<notin> pv_id ` set before" using Nil.prems(3,4) by auto
  then obtain active1 canon1 dropped1 where t:
      "redundant_loop field_of commits ys active1 canon1 dropped1 = Inr (canon', dropped')"
      "pv_id v \<in> set dropped1 \<longleftrightarrow> pv_op v = ''solve_fields''
         \<and> (\<exists>r sig. ([fst sig], snd sig) = (pv_inputs v, field_of (pv_data v)) \<and> open_solve field_of commits before sig r)"
      "pv_id v \<in> set dropped1 \<Longrightarrow> \<exists>r sig. map_of canon1 (pv_id v) = Some r \<and> r \<notin> set dropped1
         \<and> ([fst sig], snd sig) = (pv_inputs v, field_of (pv_data v)) \<and> open_solve field_of commits before sig r"
    using redundant_turn [OF Nil.prems(1) [unfolded Nil.prems(4) append_Nil] Nil.prems(2)] by metis
  note fr = redundant_loop_frame [OF t(1)]
  have v: "pv_id v \<notin> pv_id ` set ys" using Nil.prems(3,4) by auto
  then have iff: "pv_id v \<in> set dropped' \<longleftrightarrow> pv_id v \<in> set dropped1" using fr by blast
  have "\<exists>r sig. map_of canon' (pv_id v) = Some r \<and> r \<notin> set dropped'
      \<and> ([fst sig], snd sig) = (pv_inputs v, field_of (pv_data v)) \<and> open_solve field_of commits before sig r"
    if "pv_id v \<in> set dropped'"
  proof -
    have "pv_id v \<in> set dropped1" using that iff by simp
    from t(3) [OF this] obtain r sig where r: "map_of canon1 (pv_id v) = Some r" "r \<notin> set dropped1"
        "([fst sig], snd sig) = (pv_inputs v, field_of (pv_data v))" "open_solve field_of commits before sig r"
      by blast
    have "r \<notin> pv_id ` set ys" using open_solve_id [OF r(4)] Nil.prems(3,4) by auto
    then have "r \<notin> set dropped'" using fr r(2) by blast
    then show ?thesis using r fr v by metis
  qed
  then show ?case using iff t(2) by simp
next
  case (Cons u xs)
  have "pv_id u \<notin> pv_id ` set before" using Cons.prems(3,4) by auto
  then obtain active1 canon1 dropped1 where t:
      "redundant_loop field_of commits (xs @ v # ys) active1 canon1 dropped1 = Inr (canon', dropped')"
      "active_ok field_of commits (before @ [u]) active1 dropped1"
    using redundant_turn [OF Cons.prems(1) [unfolded Cons.prems(4) append_Cons] Cons.prems(2)] by metis
  show ?case using Cons.IH [OF t _ refl] Cons.prems(3,4) by simp
qed

lemma rename_identity: "(\<And>i. i \<in> set (all_refs v) \<Longrightarrow> f i = i) \<Longrightarrow> rename_node f (pv_id v) v = v"
proof -
  assume f: "\<And>i. i \<in> set (all_refs v) \<Longrightarrow> f i = i"
  have "map_ref f r = r" if "(k, r) \<in> set (pv_refs v)" for k r
  proof -
    have "\<forall>i\<in>set (ref_ids r). f i = i" using f that by (force simp: all_refs_def)
    then show ?thesis by (cases r) (auto intro: map_idI)
  qed
  then have "map (\<lambda>(k, r). (k, map_ref f r)) (pv_refs v) = pv_refs v" by (auto intro!: map_idI)
  moreover have "map f (pv_inputs v) = pv_inputs v" using f by (auto simp: all_refs_def intro!: map_idI)
  moreover have "map_option f (pv_when v) = pv_when v" using f by (cases "pv_when v") (auto simp: all_refs_def)
  ultimately show ?thesis by (simp add: rename_node_def)
qed

lemma position_upt: "i < n \<Longrightarrow> position [0 ..< n] i = i"
  using nth_position [of i "[0 ..< n]"] position_less [of i "[0 ..< n]"] by simp

lemma rebuild_identity:
  assumes "straight_line p" "map pv_id (pr_values p) = [0 ..< length (pr_values p)]"
  shows "\<exists>p'. rebuild (Suc (Suc d)) (\<lambda>v. True) [] p = Inr p' \<and> pr_values p' = pr_values p \<and> pr_commits p' = pr_commits p
     \<and> pr_post_sync p' = pr_post_sync p \<and> pr_dt_bound p' = pr_dt_bound p"
proof -
  let ?n = "length (pr_values p)"
  have flat: "i < ?n" if "\<exists>u\<in>set (pr_values p). pv_id u = i" for i
  proof -
    have "i \<in> set (map pv_id (pr_values p))" using that by auto
    then show ?thesis by (simp only: assms(2)) simp
  qed
  have pos: "position (map pv_id (pr_values p)) i = i" if "\<exists>u\<in>set (pr_values p). pv_id u = i" for i
    using position_upt [OF flat [OF that]] by (simp only: assms(2))
  have "\<exists>p'. rebuild (Suc (Suc d)) (\<lambda>v. True) [] p = Inr p'
     \<and> renamed (position (map pv_id (pr_values p)) \<circ> (\<lambda>i. i)) (map pv_id (pr_values p)) (filter (\<lambda>v. True) (pr_values p)) p p'"
  proof (rule rebuild_straight_line [OF assms(1)])
    show "rep (value_table p) [] i = Inr i \<and> i < pv_id v \<and> i \<in> set (map pv_id (pr_values p))"
      if "v \<in> set (filter (\<lambda>v. True) (pr_values p))" "i \<in> set (all_refs v)" for v i
      using straight_line_ref [OF assms(1), of v i] that by auto
    show "rep (value_table p) [] i = Inr i \<and> i \<in> set (map pv_id (pr_values p))" if "(s, i) \<in> set (pr_commits p)" for s i
      using straight_line_commit [OF assms(1) that] by auto
  qed simp
  then obtain p' where p': "rebuild (Suc (Suc d)) (\<lambda>v. True) [] p = Inr p'"
      "renamed (position (map pv_id (pr_values p))) (map pv_id (pr_values p)) (pr_values p) p p'"
    by (auto simp: comp_def)
  have "rename_node (position (map pv_id (pr_values p))) (position (map pv_id (pr_values p)) (pv_id v)) v = v"
    if "v \<in> set (pr_values p)" for v
    using that pos straight_line_ref [OF assms(1) that] by (subst pos) (auto intro!: rename_identity)
  then have "pr_values p' = pr_values p" using p'(2) by (auto simp: renamed_def intro!: map_idI)
  moreover have "pr_commits p' = pr_commits p"
    using p'(2) pos straight_line_commit [OF assms(1)] by (auto simp: renamed_def intro!: map_idI)
  ultimately show ?thesis using p' assms(1) by (auto simp: renamed_def straight_line_def)
qed

subsection \<open>Sample Programs\<close>

definition op_node :: "nat \<Rightarrow> string \<Rightarrow> nat list \<Rightarrow> int pvalue" where
  "op_node i oper ins = PValue i ''state'' oper ins ''v'' 0 [] None [] 0"

definition sample_machine :: "(int, int, int) machine" where
  "sample_machine = \<lparr>mc_target = (\<lambda>v. if pv_op v = ''project'' \<and> pv_inputs v \<noteq> [] then Some 0 else None),
     mc_run = (\<lambda>v vals w. if pv_op v = ''project'' then (map (max 0) vals, 0, w)
       else (vals, if pv_op v = ''state'' then w else sum_list vals, w))\<rparr>"

definition step_program :: "int pvalue list \<Rightarrow> nat \<Rightarrow> int program" where
  "step_program vs out = \<lparr>pr_values = vs, pr_commits = [(''U'', out)], pr_post_sync = [], pr_dt_bound = None,
     pr_imports = []\<rparr>"

lemma sample_machine_laws:
  "well_targeted sample_machine" "removable_fresh sample_machine" "pure_fresh sample_machine"
  by (auto simp: sample_machine_def well_targeted_def removable_fresh_def pure_fresh_def shape_def rename_node_def
      all_refs_def removable_ops_def pure_ops_def cse_key_def)

lemmas sample_simps = step_program_def op_node_def straight_line_def all_refs_def sample_machine_def run_def
  run_values_def exec_node_def shape_def rename_node_def Let_def

subsection \<open>Properties of the passes\<close>


text \<open>
  C20. Dead-node elimination preserves the step.  On a straight-line Program the pass returns, keeps exactly
  the live nodes in their order with contiguous ids, and the rebuilt Program leaves the same committed
  states and the same world as the original, for every machine whose removable operations only write a
  fresh result.  Operations that write a buffer in place are allowed.
\<close>

theorem eliminate_dead_nodes_preserves_run:
  assumes "straight_line p" "well_targeted M" "removable_fresh M" "2 \<le> depth"
  shows "\<exists>p'. eliminate_dead_nodes depth p = Inr p' \<and> run M p' b w = run M p b w
     \<and> map pv_op (pr_values p') = map pv_op (filter (\<lambda>v. pv_id v \<in> live_value_ids p) (pr_values p))
     \<and> map pv_id (pr_values p') = [0 ..< length (pr_values p')]"
proof -
  obtain d where "depth = Suc (Suc d)" using assms(4) by (metis add_2_eq_Suc le_Suc_ex)
  then show ?thesis using dead_nodes_run [OF assms(1-3)] by simp
qed

theorem eliminate_dead_nodes_preserves_run_witness:
  "\<exists>p'. eliminate_dead_nodes 2 (step_program [op_node 0 ''state'' [], op_node 1 ''rhs'' [0], op_node 2 ''linear_combine'' [0]] 2)
       = Inr p'
     \<and> run sample_machine p' 0 5
       = run sample_machine (step_program [op_node 0 ''state'' [], op_node 1 ''rhs'' [0], op_node 2 ''linear_combine'' [0]] 2) 0 5"
proof -
  have "straight_line (step_program [op_node 0 ''state'' [], op_node 1 ''rhs'' [0], op_node 2 ''linear_combine'' [0]] 2)"
    by (simp add: sample_simps)
  from eliminate_dead_nodes_preserves_run [OF this sample_machine_laws(1,2), of 2 0 5] show ?thesis by auto
qed

text \<open>
  C21. Common subexpressions may be shared when nothing is written in place.  On a straight-line Program whose
  nodes neither alias nor overwrite the buffers they read, the pass returns and the rebuilt Program leaves the
  same committed states and world, for every machine whose pure operations depend only on what \<^verbatim>\<open>_cse_key\<close>
  compares.
\<close>

theorem eliminate_common_subexpressions_preserves_run:
  assumes "straight_line p" "in_place_free M (pr_values p)" "pure_fresh M" "2 \<le> depth"
  shows "\<exists>p'. eliminate_common_subexpressions depth p = Inr p' \<and> run M p' b w = run M p b w"
proof -
  obtain d where "depth = Suc (Suc d)" using assms(4) by (metis add_2_eq_Suc le_Suc_ex)
  then show ?thesis using cse_run [OF assms(1-3)] by simp
qed

theorem eliminate_common_subexpressions_preserves_run_witness:
  "\<exists>p'. eliminate_common_subexpressions 2
        (step_program [op_node 0 ''state'' [], op_node 1 ''linear_combine'' [0], op_node 2 ''linear_combine'' [0]] 2) = Inr p'
     \<and> run sample_machine p' 0 5
       = run sample_machine (step_program [op_node 0 ''state'' [], op_node 1 ''linear_combine'' [0], op_node 2 ''linear_combine'' [0]] 2) 0 5"
proof -
  let ?p = "step_program [op_node 0 ''state'' [], op_node 1 ''linear_combine'' [0], op_node 2 ''linear_combine'' [0]] 2"
  have "straight_line ?p" "in_place_free sample_machine (pr_values ?p)"
    by (simp_all add: sample_simps in_place_free_def)
  from eliminate_common_subexpressions_preserves_run [OF this sample_machine_laws(3), of 2 0 5] show ?thesis by auto
qed

text \<open>
  C22. In general the pass changes the result.  \<^verbatim>\<open>project\<close> writes the state buffer in place, and the pass does
  not treat it as a barrier: a \<^verbatim>\<open>linear_combine\<close> of a state after its projection is replaced by one computed
  before it, although the machine obeys every law assumed above of pure and removable operations.
\<close>

theorem common_subexpressions_ignore_in_place_writes:
  "\<exists>p p'. straight_line p \<and> validate_order p = Inr () \<and> well_targeted sample_machine
     \<and> removable_fresh sample_machine \<and> pure_fresh sample_machine
     \<and> eliminate_common_subexpressions 2 p = Inr p'
     \<and> run sample_machine p 0 (- 3) = ([(''U'', 0)], - 3) \<and> run sample_machine p' 0 (- 3) = ([(''U'', - 3)], - 3)"
proof -
  let ?p = "step_program [op_node 0 ''state'' [], op_node 1 ''linear_combine'' [0], op_node 2 ''project'' [0],
      op_node 3 ''linear_combine'' [0]] 3"
  let ?p' = "step_program [op_node 0 ''state'' [], op_node 1 ''linear_combine'' [0], op_node 2 ''project'' [0]] 1"
  have "straight_line ?p" by (simp add: sample_simps)
  moreover have "validate_order ?p = Inr ()" by code_simp
  moreover have "eliminate_common_subexpressions 2 ?p = Inr ?p'" by code_simp
  moreover have "run sample_machine ?p 0 (- 3) = ([(''U'', 0)], - 3)" by (simp add: sample_simps)
  moreover have "run sample_machine ?p' 0 (- 3) = ([(''U'', - 3)], - 3)" by (simp add: sample_simps)
  ultimately show ?thesis using sample_machine_laws by blast
qed

text \<open>
  C23. A field solve is removed exactly when it is redundant.  The pass drops a \<^verbatim>\<open>solve_fields\<close> exactly when an
  earlier one has the same state input and the same field, and every node between the two is either the same
  solve again or neither a state barrier nor a commit target; its uses are redirected to a solve that is kept
  and has these properties.
\<close>

theorem redundant_field_solves_iff:
  assumes "redundant_loop field_of commits vs [] [] [] = Inr (canon, dropped)" "distinct (map pv_id vs)"
    and "vs = xs @ v # ys"
  shows "(pv_id v \<in> set dropped \<longleftrightarrow> pv_op v = ''solve_fields''
           \<and> (\<exists>r sig. ([fst sig], snd sig) = (pv_inputs v, field_of (pv_data v)) \<and> open_solve field_of commits xs sig r))
     \<and> (pv_id v \<in> set dropped \<longrightarrow> (\<exists>r sig. map_of canon (pv_id v) = Some r \<and> r \<notin> set dropped
          \<and> ([fst sig], snd sig) = (pv_inputs v, field_of (pv_data v)) \<and> open_solve field_of commits xs sig r))"
proof -
  have "active_ok field_of commits [] [] []" by (simp add: active_ok_def)
  from redundant_loop_spec [OF assms(1) this _ assms(3)] assms(2) show ?thesis by simp
qed

theorem redundant_field_solves_iff_witness:
  "\<exists>canon dropped. redundant_loop (\<lambda>d. None) {} [op_node 0 ''state'' [], op_node 1 ''solve_fields'' [0], op_node 2 ''solve_fields'' [0]]
      [] [] [] = Inr (canon, dropped) \<and> 2 \<in> set dropped"
proof -
  let ?vs = "[op_node 0 ''state'' [], op_node 1 ''solve_fields'' [0], op_node 2 ''solve_fields'' [0]]"
  obtain canon dropped where l: "redundant_loop (\<lambda>d. None) {} ?vs [] [] [] = Inr (canon, dropped)"
    by (simp add: op_node_def Let_def state_barrier_ops_def)
  have "open_solve (\<lambda>d. None) {} [op_node 0 ''state'' [], op_node 1 ''solve_fields'' [0]] (0, None) 1"
    unfolding open_solve_def by (intro exI [of _ "[op_node 0 ''state'' []]"] exI [of _ "op_node 1 ''solve_fields'' [0]"]
      exI [of _ "[]"]) (simp add: op_node_def)
  moreover note redundant_field_solves_iff [OF l, of "[op_node 0 ''state'' [], op_node 1 ''solve_fields'' [0]]"
      "op_node 2 ''solve_fields'' [0]" "[]"]
  ultimately have "2 \<in> set dropped" by (force simp: op_node_def)
  then show ?thesis using l by blast
qed

text \<open>
  Rebuilding without dropping is the identity.  For a straight-line Program with contiguous ids, which is
  what authoring produces, the rebuild returns the same values, commits and bounds.
\<close>

theorem rebuild_without_drop_is_identity:
  assumes "straight_line p" "map pv_id (pr_values p) = [0 ..< length (pr_values p)]" "2 \<le> depth"
  shows "\<exists>p'. rebuild depth (\<lambda>v. True) [] p = Inr p' \<and> pr_values p' = pr_values p \<and> pr_commits p' = pr_commits p
     \<and> pr_post_sync p' = pr_post_sync p \<and> pr_dt_bound p' = pr_dt_bound p"
proof -
  obtain d where "depth = Suc (Suc d)" using assms(3) by (metis add_2_eq_Suc le_Suc_ex)
  then show ?thesis using rebuild_identity [OF assms(1,2)] by simp
qed

theorem rebuild_without_drop_is_identity_witness:
  "\<exists>p'. rebuild 2 (\<lambda>v. True) [] (step_program [op_node 0 ''state'' [], op_node 1 ''rhs'' [0]] 0) = Inr p'
     \<and> pr_values p' = [op_node 0 ''state'' [], op_node 1 ''rhs'' [0]]"
proof -
  have "straight_line (step_program [op_node 0 ''state'' [], op_node 1 ''rhs'' [0]] 0)" by (simp add: sample_simps)
  moreover have "map pv_id (pr_values (step_program [op_node 0 ''state'' [], op_node 1 ''rhs'' [0]] 0))
      = [0 ..< length (pr_values (step_program [op_node 0 ''state'' [], op_node 1 ''rhs'' [0]] 0))]"
    by (simp add: sample_simps)
  ultimately show ?thesis
    using rebuild_without_drop_is_identity [of "step_program [op_node 0 ''state'' [], op_node 1 ''rhs'' [0]] 0" 2]
    by (auto simp: step_program_def)
qed


end
