(* ===== verification/Scratch_Plan.thy ===== *)
theory Scratch_Plan
  imports Program_IR
begin

text \<open>
  Scratch liveness and buffer reuse: \<^verbatim>\<open>scratch_liveness\<close> and \<^verbatim>\<open>buffer_reuse_report\<close> of \<^verbatim>\<open>pops/time/_program/inspection.py\<close>, and the scratch plan built from them by
  \<^verbatim>\<open>pops/codegen/scratch_plan.py\<close>.  Report texts are constructors of the datatype \<open>reject_note\<close>; the
  persistent Krylov and multigrid records beside the operator footprint need provider plans of other
  modules and are not modelled.
\<close>

subsection \<open>Live ranges\<close>

record live_range =
  lr_name :: string
  lr_op :: string
  lr_def :: nat
  lr_last :: nat

definition liveness_ref_keys :: "string list" where
  "liveness_ref_keys =
     [''cond'', ''body'', ''residual'', ''iterate'', ''guess'', ''apply_result'', ''apply_in'', ''apply_out'']"

definition flat_order :: "'a pvalue list \<Rightarrow> (nat \<times> nat) list" where
  "flat_order vs = rev (zip (map pv_id vs) [0 ..< length vs])"

text \<open>The direct reads of a node: its inputs and the values and affine terms of the listed attributes.\<close>

definition direct_reads :: "'a pvalue \<Rightarrow> nat list" where
  "direct_reads v =
     pv_inputs v
     @ concat (map (\<lambda>k. case map_of (pv_refs v) k of None \<Rightarrow> [] | Some r \<Rightarrow> ref_ids r) liveness_ref_keys)"

text \<open>\<^verbatim>\<open>last_use[rid] = max(last_use.get(rid, order[rid]), i)\<close> when \<^verbatim>\<open>rid\<close> is a flat value.\<close>

definition use_at :: "(nat \<times> nat) list \<Rightarrow> nat \<Rightarrow> nat \<Rightarrow> (nat \<rightharpoonup> nat) \<Rightarrow> (nat \<rightharpoonup> nat)" where
  "use_at order i rid uses =
     (case map_of order rid of
        None \<Rightarrow> uses
      | Some d \<Rightarrow> uses(rid \<mapsto> max (case uses rid of None \<Rightarrow> d | Some l \<Rightarrow> l) i))"

definition keep_to :: "(nat \<times> nat) list \<Rightarrow> nat \<Rightarrow> nat \<Rightarrow> (nat \<rightharpoonup> nat) \<Rightarrow> (nat \<rightharpoonup> nat)" where
  "keep_to order last_index rid uses =
     (case map_of order rid of None \<Rightarrow> uses | Some d \<Rightarrow> uses(rid \<mapsto> last_index))"

definition use_node :: "(nat \<times> nat) list \<Rightarrow> nat \<Rightarrow> 'a pvalue \<times> nat \<Rightarrow> (nat \<rightharpoonup> nat) \<Rightarrow> (nat \<rightharpoonup> nat)" where
  "use_node order last_index = (\<lambda>(v, i) uses.
     let uses' = fold (use_at order i) (direct_reads v) uses
     in if pv_op v \<in> set subblock_ops
        then fold (keep_to order last_index) (map yield_id (subblock_refs v)) uses' else uses')"

definition last_uses :: "'a program \<Rightarrow> nat \<rightharpoonup> nat" where
  "last_uses p =
     (let vs = pr_values p; order = flat_order vs; last_index = length vs - 1;
          uses = fold (use_node order last_index) (zip vs [0 ..< length vs]) Map.empty
      in fold (use_at order (last_index + 1)) (map snd (pr_commits p)) uses)"

definition scratch_liveness :: "'a program \<Rightarrow> live_range list" where
  "scratch_liveness p =
     (let uses = last_uses p in
      map (\<lambda>(v, d). \<lparr>lr_name = pv_name v, lr_op = pv_op v, lr_def = d,
             lr_last = (case uses (pv_id v) of None \<Rightarrow> d | Some l \<Rightarrow> l)\<rparr>)
        (filter (\<lambda>(v, d). pv_op v \<in> set scratch_ops) (zip (pr_values p) [0 ..< length (pr_values p)])))"

subsection \<open>Greedy reuse\<close>

text \<open>The first buffer whose occupant is dead before the definition.\<close>

fun first_free :: "nat \<Rightarrow> nat list \<Rightarrow> nat option" where
  "first_free d [] = None"
| "first_free d (l # free) = (if l < d then Some 0 else map_option Suc (first_free d free))"

fun allocate :: "live_range list \<Rightarrow> nat list \<Rightarrow> nat list \<times> nat list \<times> nat" where
  "allocate [] free = (free, [], 0)"
| "allocate (r # rs) free =
     (case first_free (lr_def r) free of
        None \<Rightarrow>
          (let (free', slots, reused) = allocate rs (free @ [lr_last r]) in (free', length free # slots, reused))
      | Some b \<Rightarrow>
          (let (free', slots, reused) = allocate rs (free[b := lr_last r]) in (free', b # slots, reused + 1)))"

record reuse_report =
  rr_scratch :: nat
  rr_buffers :: nat
  rr_reused :: nat
  rr_assignment :: "(string \<times> nat) list"

text \<open>
  The dictionary \<^verbatim>\<open>assignment\<close> is keyed by the node name: its entries are listed latest first, so that
  \<open>map_of\<close> is the dictionary lookup.
\<close>

definition buffer_reuse_report :: "'a program \<Rightarrow> reuse_report" where
  "buffer_reuse_report p =
     (let ranges = sort_key lr_def (scratch_liveness p); (free, slots, reused) = allocate ranges []
      in \<lparr>rr_scratch = length ranges, rr_buffers = length free, rr_reused = reused,
          rr_assignment = rev (zip (map lr_name ranges) slots)\<rparr>)"

lemma first_free_Some:
  "first_free d free = Some b \<Longrightarrow> b < length free \<and> free ! b < d \<and> (\<forall>c<b. d \<le> free ! c)"
proof (induction free arbitrary: b)
  case (Cons l free)
  then show ?case by (auto simp: less_Suc_eq_0_disj split: if_splits)
qed simp

lemma first_free_None: "first_free d free = None \<longleftrightarrow> (\<forall>l\<in>set free. d \<le> l)"
  by (induction free) (auto simp: not_less)

lemma allocate_lengths:
  "allocate rs free = (free', slots, reused) \<Longrightarrow>
     length slots = length rs \<and> length free' + reused = length free + length rs \<and> length free \<le> length free'
     \<and> (\<forall>s\<in>set slots. s < length free')"
proof (induction rs arbitrary: free free' slots reused)
  case (Cons r rs)
  show ?case
  proof (cases "first_free (lr_def r) free")
    case None
    obtain f s u where al: "allocate rs (free @ [lr_last r]) = (f, s, u)" by (metis prod_cases3)
    then show ?thesis using Cons.IH [OF al] Cons.prems None by auto
  next
    case (Some b)
    obtain f s u where al: "allocate rs (free[b := lr_last r]) = (f, s, u)" by (metis prod_cases3)
    then show ?thesis using Cons.IH [OF al] Cons.prems Some first_free_Some [OF Some] by auto
  qed
qed simp

text \<open>
  A sound sharing, in definition order: of two ranges on one buffer the earlier one is dead before the later
  one is defined.
\<close>

definition apart :: "live_range \<times> nat \<Rightarrow> live_range \<times> nat \<Rightarrow> bool" where
  "apart x y \<longleftrightarrow> (snd x = snd y \<longrightarrow> lr_last (fst x) < lr_def (fst y))"

definition live_at :: "nat \<Rightarrow> live_range \<Rightarrow> bool" where
  "live_at t r \<longleftrightarrow> lr_def r \<le> t \<and> t \<le> lr_last r"

text \<open>The loop after a prefix: every buffer holds the last use of its last occupant.\<close>

definition alloc_inv :: "(live_range \<times> nat) list \<Rightarrow> nat list \<Rightarrow> bool" where
  "alloc_inv ps free \<longleftrightarrow>
     (\<forall>x\<in>set ps. snd x < length free \<and> lr_last (fst x) \<le> free ! snd x)
     \<and> (\<forall>b<length free. \<exists>x\<in>set ps. snd x = b \<and> lr_last (fst x) = free ! b) \<and> sorted_wrt apart ps"

lemma alloc_inv_fresh: "alloc_inv ps free \<Longrightarrow> alloc_inv (ps @ [(r, length free)]) (free @ [lr_last r])"
  unfolding alloc_inv_def
  by (auto simp: sorted_wrt_append apart_def nth_append less_Suc_eq)

lemma alloc_inv_reuse:
  assumes "alloc_inv ps free" "first_free (lr_def r) free = Some b" "lr_def r \<le> lr_last r"
  shows "alloc_inv (ps @ [(r, b)]) (free[b := lr_last r])"
proof -
  note fb = first_free_Some [OF assms(2)]
  have dead: "lr_last (fst x) < lr_def r" if "x \<in> set ps" "snd x = b" for x
    using assms(1) that fb unfolding alloc_inv_def by fastforce
  have "\<exists>x\<in>set (ps @ [(r, b)]). snd x = c \<and> lr_last (fst x) = (free[b := lr_last r]) ! c"
    if "c < length free" for c
    using assms(1) that fb by (cases "c = b") (auto simp: alloc_inv_def)
  moreover have "lr_last (fst x) \<le> (free[b := lr_last r]) ! snd x" if "x \<in> set ps" for x
    using assms(1,3) that dead [OF that] fb by (cases "snd x = b") (auto simp: alloc_inv_def)
  moreover have "sorted_wrt apart (ps @ [(r, b)])"
    using assms(1) dead by (auto simp: alloc_inv_def sorted_wrt_append apart_def)
  ultimately show ?thesis using assms(1) fb by (auto simp: alloc_inv_def)
qed

lemma many_live:
  assumes "alloc_inv ps free" "first_free (lr_def r) free = None" "\<forall>x\<in>set ps. lr_def (fst x) \<le> lr_def r"
  shows "length free \<le> length (filter (live_at (lr_def r)) (map fst ps))"
proof -
  have "{..<length free} \<subseteq> snd ` set (filter (\<lambda>x. live_at (lr_def r) (fst x)) ps)"
  proof
    fix b assume "b \<in> {..<length free}"
    then obtain x where x: "x \<in> set ps" "snd x = b" "lr_last (fst x) = free ! b" "b < length free"
      using assms(1) by (auto simp: alloc_inv_def)
    then have "lr_def r \<le> lr_last (fst x)" using assms(2) by (simp add: first_free_None)
    then show "b \<in> snd ` set (filter (\<lambda>x. live_at (lr_def r) (fst x)) ps)"
      using x assms(3) by (force simp: live_at_def)
  qed
  then have "card {..<length free} \<le> card (snd ` set (filter (\<lambda>x. live_at (lr_def r) (fst x)) ps))"
    by (intro card_mono) auto
  also have "\<dots> \<le> length (filter (\<lambda>x. live_at (lr_def r) (fst x)) ps)"
    by (metis card_length length_map set_map)
  finally show ?thesis by (simp add: filter_map comp_def)
qed

lemma allocate_sound:
  assumes "allocate rs free = (free', slots, reused)" "alloc_inv ps free"
    and "sorted (map lr_def (map fst ps @ rs))" "\<forall>r\<in>set rs. lr_def r \<le> lr_last r"
    and "\<exists>t. length free \<le> length (filter (live_at t) (map fst ps))"
  shows "alloc_inv (ps @ zip rs slots) free' \<and> (\<exists>t. length free' \<le> length (filter (live_at t) (map fst ps @ rs)))"
  using assms
proof (induction rs arbitrary: ps free free' slots reused)
  case (Cons r rs)
  show ?case
  proof (cases "first_free (lr_def r) free")
    case None
    obtain s where al: "allocate rs (free @ [lr_last r]) = (free', s, reused)" "slots = length free # s"
      using Cons.prems(1) None by (auto split: prod.splits)
    have "length (free @ [lr_last r]) \<le> length (filter (live_at (lr_def r)) (map fst (ps @ [(r, length free)])))"
      using many_live [OF Cons.prems(2) None] Cons.prems(3,4) by (auto simp: sorted_append live_at_def)
    then have "\<exists>t. length (free @ [lr_last r]) \<le> length (filter (live_at t) (map fst (ps @ [(r, length free)])))" by blast
    then have "alloc_inv ((ps @ [(r, length free)]) @ zip rs s) free'
        \<and> (\<exists>t. length free' \<le> length (filter (live_at t) (map fst (ps @ [(r, length free)]) @ rs)))"
      using Cons.prems(3,4) by (intro Cons.IH [OF al(1) alloc_inv_fresh [OF Cons.prems(2)]]) auto
    then show ?thesis using al(2) by simp
  next
    case (Some b)
    obtain s u where al: "allocate rs (free[b := lr_last r]) = (free', s, u)" "slots = b # s"
      using Cons.prems(1) Some by (auto split: prod.splits)
    obtain t where t: "length free \<le> length (filter (live_at t) (map fst ps))" using Cons.prems(5) by blast
    then have "length (free[b := lr_last r]) \<le> length (filter (live_at t) (map fst (ps @ [(r, b)])))" by simp
    then have "\<exists>t. length (free[b := lr_last r]) \<le> length (filter (live_at t) (map fst (ps @ [(r, b)])))" by blast
    moreover have "alloc_inv (ps @ [(r, b)]) (free[b := lr_last r])"
      using Cons.prems(4) by (intro alloc_inv_reuse [OF Cons.prems(2) Some]) simp
    ultimately have "alloc_inv ((ps @ [(r, b)]) @ zip rs s) free'
        \<and> (\<exists>t. length free' \<le> length (filter (live_at t) (map fst (ps @ [(r, b)]) @ rs)))"
      using Cons.prems(3,4) by (intro Cons.IH [OF al(1)]) auto
    then show ?thesis using al(2) by simp
  qed
qed simp

text \<open>Every sound sharing gives different buffers to ranges that are live at one point.\<close>

lemma apart_distinct: "sorted_wrt apart xs \<Longrightarrow> \<forall>x\<in>set xs. live_at t (fst x) \<Longrightarrow> distinct (map snd xs)"
proof (induction xs)
  case (Cons x xs)
  have "snd x \<noteq> snd y" if "y \<in> set xs" for y
    using Cons.prems that by (fastforce simp: apart_def live_at_def)
  then show ?case using Cons by auto
qed simp

lemma sharing_lower_bound:
  assumes "sorted_wrt apart (zip rs cs)" "length cs = length rs"
  shows "length (filter (live_at t) rs) \<le> card (set cs)"
proof -
  let ?xs = "filter (\<lambda>x. live_at t (fst x)) (zip rs cs)"
  have "sorted_wrt apart ?xs" using assms(1) by (rule sorted_wrt_filter)
  moreover have "\<forall>x\<in>set ?xs. live_at t (fst x)" by simp
  ultimately have "distinct (map snd ?xs)" by (rule apart_distinct)
  then have "length ?xs = card (set (map snd ?xs))" by (metis distinct_card length_map)
  also have "\<dots> \<le> card (set cs)" by (intro card_mono) (auto dest: set_zip_rightD)
  finally have "length ?xs \<le> card (set cs)" .
  moreover have "length (filter (live_at t) (map fst (zip rs cs))) = length ?xs"
    unfolding filter_map by (simp add: comp_def)
  ultimately show ?thesis using assms(2) by simp
qed

text \<open>The ranges the analysis computes are ranges, and it sees every direct read.\<close>

lemma flat_order_index:
  assumes "distinct (map pv_id vs)" "d < length vs"
  shows "map_of (flat_order vs) (pv_id (vs ! d)) = Some d"
proof -
  have "distinct (map fst (flat_order vs))" using assms(1) by (simp add: flat_order_def rev_map [symmetric])
  moreover have "(pv_id (vs ! d), d) \<in> set (flat_order vs)"
    using assms(2) by (force simp: flat_order_def set_zip)
  ultimately show ?thesis by simp
qed

definition bounded_uses :: "(nat \<times> nat) list \<Rightarrow> nat \<Rightarrow> (nat \<rightharpoonup> nat) \<Rightarrow> bool" where
  "bounded_uses order n uses \<longleftrightarrow>
     (\<forall>rid l. uses rid = Some l \<longrightarrow> (\<exists>d. map_of order rid = Some d \<and> d \<le> l) \<and> l \<le> n)"

definition grows :: "(nat \<rightharpoonup> nat) \<Rightarrow> (nat \<rightharpoonup> nat) \<Rightarrow> bool" where
  "grows uses uses' \<longleftrightarrow> (\<forall>rid l. uses rid = Some l \<longrightarrow> (\<exists>l'. uses' rid = Some l' \<and> l \<le> l'))"

lemma grows_trans: "grows u v \<Longrightarrow> grows v w \<Longrightarrow> grows u w"
  unfolding grows_def by (meson order_trans)

lemma fold_grows:
  assumes "\<And>x u. x \<in> set xs \<Longrightarrow> bounded_uses order n u \<Longrightarrow> bounded_uses order n (f x u) \<and> grows u (f x u)"
    and "bounded_uses order n u"
  shows "bounded_uses order n (fold f xs u) \<and> grows u (fold f xs u)"
  using assms
proof (induction xs arbitrary: u)
  case (Cons x xs)
  have x: "bounded_uses order n (f x u)" "grows u (f x u)" using Cons.prems by auto
  have "bounded_uses order n (fold f xs (f x u)) \<and> grows (f x u) (fold f xs (f x u))"
    using Cons.prems(1) by (intro Cons.IH [OF _ x(1)]) auto
  then show ?case using grows_trans [OF x(2)] by simp
qed (simp add: grows_def)

lemma use_at_grows:
  assumes "bounded_uses order n u" "i \<le> n" "\<forall>rid d. map_of order rid = Some d \<longrightarrow> d \<le> n"
  shows "bounded_uses order n (use_at order i rid u) \<and> grows u (use_at order i rid u)"
  using assms by (fastforce simp: use_at_def bounded_uses_def grows_def split: option.splits)

lemma keep_to_grows:
  assumes "bounded_uses order n u" "\<forall>rid d. map_of order rid = Some d \<longrightarrow> d \<le> n"
  shows "bounded_uses order n (keep_to order n rid u) \<and> grows u (keep_to order n rid u)"
  using assms by (fastforce simp: keep_to_def bounded_uses_def grows_def split: option.splits)

lemma grows_least: "grows u v \<Longrightarrow> \<exists>l. u rid = Some l \<and> i \<le> l \<Longrightarrow> \<exists>l. v rid = Some l \<and> i \<le> l"
  unfolding grows_def by (meson order_trans)

lemma fold_use_at:
  assumes "bounded_uses order n u" "i \<le> n" "\<forall>rid d. map_of order rid = Some d \<longrightarrow> d \<le> n"
    and "rid \<in> set xs" "map_of order rid = Some d"
  shows "\<exists>l. fold (use_at order i) xs u rid = Some l \<and> i \<le> l"
  using assms
proof (induction xs arbitrary: u)
  case (Cons x xs)
  note x = use_at_grows [OF Cons.prems(1-3), of x]
  show ?case
  proof (cases "rid = x")
    case True
    then have "\<exists>l. use_at order i x u rid = Some l \<and> i \<le> l"
      using Cons.prems(5) by (simp add: use_at_def)
    moreover have "grows (use_at order i x u) (fold (use_at order i) xs (use_at order i x u))"
      using fold_grows [of xs order n "use_at order i"] use_at_grows [OF _ Cons.prems(2,3)] x by blast
    ultimately show ?thesis using grows_least by fastforce
  next
    case False
    then show ?thesis using Cons.IH [of "use_at order i x u"] x Cons.prems by simp
  qed
qed simp

lemma use_node_grows:
  assumes "bounded_uses order n u" "i \<le> n" "\<forall>rid d. map_of order rid = Some d \<longrightarrow> d \<le> n"
  shows "bounded_uses order n (use_node order n (v, i) u) \<and> grows u (use_node order n (v, i) u)"
    and "rid \<in> set (direct_reads v) \<Longrightarrow> map_of order rid = Some d \<Longrightarrow>
      \<exists>l. use_node order n (v, i) u rid = Some l \<and> i \<le> l"
proof -
  let ?u = "fold (use_at order i) (direct_reads v) u"
  have u: "bounded_uses order n ?u \<and> grows u ?u"
    using fold_grows [of _ order n "use_at order i"] use_at_grows [OF _ assms(2,3)] assms(1) by blast
  have k: "bounded_uses order n (fold (keep_to order n) xs ?u) \<and> grows ?u (fold (keep_to order n) xs ?u)" for xs
    using fold_grows [of xs order n "keep_to order n"] keep_to_grows [OF _ assms(3)] u by blast
  have g: "grows ?u (use_node order n (v, i) u)" using k by (auto simp: use_node_def Let_def grows_def)
  show "bounded_uses order n (use_node order n (v, i) u) \<and> grows u (use_node order n (v, i) u)"
    using u k grows_trans [of u ?u] by (auto simp: use_node_def Let_def)
  show "\<exists>l. use_node order n (v, i) u rid = Some l \<and> i \<le> l"
    if "rid \<in> set (direct_reads v)" "map_of order rid = Some d"
    using grows_least [OF g] fold_use_at [OF assms that] by blast
qed

lemma fold_use_node:
  assumes "bounded_uses order n u" "\<forall>rid d. map_of order rid = Some d \<longrightarrow> d \<le> n"
    and "\<And>x. x \<in> set xs \<Longrightarrow> snd x \<le> n" "(v, j) \<in> set xs" "rid \<in> set (direct_reads v)" "map_of order rid = Some d"
  shows "\<exists>l. fold (use_node order n) xs u rid = Some l \<and> j \<le> l"
  using assms(1,3,4)
proof (induction xs arbitrary: u)
  case (Cons x xs)
  obtain y i where x: "x = (y, i)" by (cases x)
  have i: "i \<le> n" using Cons.prems(2) [of x] x by simp
  note y = use_node_grows [OF Cons.prems(1) i assms(2), where v = y]
  show ?case
  proof (cases "(v, j) = x")
    case True
    then have "\<exists>l. use_node order n x u rid = Some l \<and> j \<le> l" using y(2) [OF _ assms(6)] assms(5) x by auto
    moreover have "grows (use_node order n x u) (fold (use_node order n) xs (use_node order n x u))"
      using fold_grows [of xs order n "use_node order n"] use_node_grows(1) [OF _ _ assms(2)] Cons.prems(2) y(1) x
      by fastforce
    ultimately show ?thesis using grows_least by fastforce
  next
    case False
    then show ?thesis using Cons.IH [of "use_node order n x u"] y(1) x Cons.prems(2,3) by auto
  qed
qed simp

lemma last_uses_bounded:
  assumes "distinct (map pv_id (pr_values p))" "pr_values p \<noteq> []"
  shows "bounded_uses (flat_order (pr_values p)) (length (pr_values p)) (last_uses p)"
    and "\<And>v j rid d. j < length (pr_values p) \<Longrightarrow> rid \<in> set (direct_reads (pr_values p ! j)) \<Longrightarrow>
      map_of (flat_order (pr_values p)) rid = Some d \<Longrightarrow> \<exists>l. last_uses p rid = Some l \<and> j \<le> l"
    and "\<And>c rid d. (c, rid) \<in> set (pr_commits p) \<Longrightarrow> map_of (flat_order (pr_values p)) rid = Some d \<Longrightarrow>
      \<exists>l. last_uses p rid = Some l \<and> length (pr_values p) \<le> l"
proof -
  let ?vs = "pr_values p" and ?order = "flat_order (pr_values p)" and ?n = "length (pr_values p) - 1"
  let ?loop = "fold (use_node ?order ?n) (zip ?vs [0 ..< length ?vs]) Map.empty"
  have order: "\<forall>rid d. map_of ?order rid = Some d \<longrightarrow> d \<le> ?n"
    using assms(2) by (fastforce simp: flat_order_def set_zip dest: map_of_SomeD)
  have n: "Suc ?n = length ?vs" using assms(2) by (cases ?vs) auto
  have inside: "x \<in> set (zip ?vs [0 ..< length ?vs]) \<Longrightarrow> snd x \<le> ?n" for x
    by (force simp: set_zip)
  have "bounded_uses ?order ?n Map.empty" by (simp add: bounded_uses_def)
  moreover have "bounded_uses ?order ?n (use_node ?order ?n x u) \<and> grows u (use_node ?order ?n x u)"
    if "x \<in> set (zip ?vs [0 ..< length ?vs])" "bounded_uses ?order ?n u" for x u
    using use_node_grows(1) [OF that(2) inside [OF that(1)] order, of "fst x"] by simp
  ultimately have loop: "bounded_uses ?order ?n ?loop" using fold_grows [of _ ?order ?n "use_node ?order ?n"] by blast
  then have b: "bounded_uses ?order (Suc ?n) ?loop" by (auto simp: bounded_uses_def le_SucI)
  have order': "\<forall>rid d. map_of ?order rid = Some d \<longrightarrow> d \<le> Suc ?n" using order by (simp add: le_SucI)
  have lu: "last_uses p = fold (use_at ?order (Suc ?n)) (map snd (pr_commits p)) ?loop"
    by (simp add: last_uses_def Let_def)
  have fin: "bounded_uses ?order (Suc ?n) (last_uses p) \<and> grows ?loop (last_uses p)"
    unfolding lu using fold_grows [of _ ?order "Suc ?n" "use_at ?order (Suc ?n)"] use_at_grows [OF _ _ order'] b by blast
  then show "bounded_uses ?order (length ?vs) (last_uses p)" using n by simp
  show "\<exists>l. last_uses p rid = Some l \<and> j \<le> l"
    if "j < length ?vs" "rid \<in> set (direct_reads (?vs ! j))" "map_of ?order rid = Some d" for j rid d
  proof -
    have "(?vs ! j, j) \<in> set (zip ?vs [0 ..< length ?vs])" using that(1) by (force simp: set_zip)
    then have "\<exists>l. ?loop rid = Some l \<and> j \<le> l"
      using fold_use_node [OF _ order inside _ that(2,3)] by (simp add: bounded_uses_def)
    then show ?thesis using grows_least [of ?loop "last_uses p" rid j] fin by blast
  qed
  show "\<exists>l. last_uses p rid = Some l \<and> length ?vs \<le> l"
    if "(c, rid) \<in> set (pr_commits p)" "map_of ?order rid = Some d" for c rid d
    unfolding lu using fold_use_at [OF b _ order' _ that(2), of "Suc ?n"] that(1) n by force
qed

lemma scratch_range:
  assumes "r \<in> set (scratch_liveness p)" "distinct (map pv_id (pr_values p))"
  obtains d where "d < length (pr_values p)" "pv_op (pr_values p ! d) \<in> set scratch_ops"
    "lr_name r = pv_name (pr_values p ! d)" "lr_op r = pv_op (pr_values p ! d)" "lr_def r = d" "lr_def r \<le> lr_last r"
    "lr_last r = (case last_uses p (pv_id (pr_values p ! d)) of None \<Rightarrow> d | Some l \<Rightarrow> l)"
proof -
  obtain v d where vd: "(v, d) \<in> set (zip (pr_values p) [0 ..< length (pr_values p)])" "pv_op v \<in> set scratch_ops"
      "r = \<lparr>lr_name = pv_name v, lr_op = pv_op v, lr_def = d,
             lr_last = (case last_uses p (pv_id v) of None \<Rightarrow> d | Some l \<Rightarrow> l)\<rparr>"
    using assms(1) by (auto simp: scratch_liveness_def Let_def)
  then have d: "d < length (pr_values p)" "v = pr_values p ! d" by (auto simp: set_zip)
  then have ne: "pr_values p \<noteq> []" by auto
  have "d \<le> lr_last r"
    using last_uses_bounded(1) [OF assms(2) ne] flat_order_index [OF assms(2) d(1)] vd(3) d(2)
    by (fastforce simp: bounded_uses_def split: option.splits)
  then show thesis using that [of d] d vd(2,3) by simp
qed

lemma scratch_defs_sorted: "sort_key lr_def (scratch_liveness p) = scratch_liveness p"
proof -
  have "map lr_def (scratch_liveness p)
      = map snd (filter (\<lambda>(v, d). pv_op v \<in> set scratch_ops) (zip (pr_values p) [0 ..< length (pr_values p)]))"
    by (simp add: scratch_liveness_def Let_def split_beta comp_def)
  moreover have "sorted_wrt (\<lambda>x y. snd x \<le> snd y) (zip (pr_values p) [0 ..< length (pr_values p)])"
    by (simp add: sorted_wrt_iff_nth_less)
  then have "sorted_wrt (\<lambda>x y. snd x \<le> snd y)
      (filter (\<lambda>(v, d). pv_op v \<in> set scratch_ops) (zip (pr_values p) [0 ..< length (pr_values p)]))"
    by (rule sorted_wrt_filter)
  ultimately have "sorted (map lr_def (scratch_liveness p))" by (simp add: sorted_wrt_map)
  then show ?thesis by (rule sort_key_id_if_sorted)
qed

subsection \<open>The scratch plan\<close>

definition rhs_ops :: "string list" where
  "rhs_ops = [''rhs'', ''source'', ''apply'', ''coupled_rate'']"

definition state_scratch_ops :: "string list" where
  "state_scratch_ops =
     [''local_transform'', ''linear_combine'', ''solve_local_linear'', ''solve_local_nonlinear'',
      ''solve_coupled_implicit'', ''solve_spatial_nonlinear'', ''where'']"

definition scalar_field_ops :: "string list" where
  "scalar_field_ops = [''solve_linear'', ''scalar_field'', ''cell_compare'']"

definition operator_decl_ops :: "string list" where
  "operator_decl_ops = [''linear_source'']"

definition elliptic_ops :: "string list" where
  "elliptic_ops = [''solve_fields'', ''solve_fields_from_blocks'']"

definition scratch_family :: "string \<Rightarrow> string \<Rightarrow> string" where
  "scratch_family oper vtype =
     (if oper \<in> set operator_decl_ops then ''operator''
      else if oper \<in> set rhs_ops then ''rhs''
      else if oper \<in> set state_scratch_ops then ''state''
      else if oper \<in> set scalar_field_ops then ''scalar_field''
      else if vtype = ''scalar_field'' then ''scalar_field''
      else ''state'')"

definition vtype_of :: "'a program \<Rightarrow> string \<Rightarrow> string" where
  "vtype_of p name = (case find (\<lambda>v. pv_name v = name) (pr_values p) of Some v \<Rightarrow> pv_vtype v | None \<Rightarrow> ''state'')"

definition categories :: "'a program \<Rightarrow> (string \<times> nat) list" where
  "categories p =
     (let count = (\<lambda>fam. length (filter (\<lambda>r. scratch_family (lr_op r) (vtype_of p (lr_name r)) = fam) (scratch_liveness p)))
      in map (\<lambda>fam. (fam, count fam))
           ([''state'', ''rhs'', ''scalar_field''] @ (if count ''operator'' = 0 then [] else [''operator''])))"

record reused_entry =
  re_scratch :: string
  re_op :: string
  re_buffer :: nat
  re_shares :: "string list"

datatype reject_note =
    Still_live nat nat bool
  | Fresh_needed nat bool

record rejected_entry =
  rj_scratch :: string
  rj_op :: string
  rj_reason :: reject_note

text \<open>The dictionary lookups \<^verbatim>\<open>assignment[name]\<close> and \<^verbatim>\<open>op_of[name]\<close>; every name of a range is a key.\<close>

definition slot_of :: "(string \<times> nat) list \<Rightarrow> string \<Rightarrow> nat" where
  "slot_of assignment name = (case map_of assignment name of Some s \<Rightarrow> s | None \<Rightarrow> 0)"

definition op_of :: "live_range list \<Rightarrow> string \<Rightarrow> string" where
  "op_of ranges name = (case map_of (rev (map (\<lambda>r. (lr_name r, lr_op r)) ranges)) name of Some oper \<Rightarrow> oper | None \<Rightarrow> [])"

fun reused_loop ::
  "(string \<times> nat) list \<Rightarrow> (string \<Rightarrow> string) \<Rightarrow> live_range list \<Rightarrow> (nat \<Rightarrow> string list) \<Rightarrow> reused_entry list" where
  "reused_loop assignment ops [] occupants = []"
| "reused_loop assignment ops (r # rs) occupants =
     (let name = lr_name r; slot = slot_of assignment name; prior = occupants slot in
      (if prior \<noteq> []
       then [\<lparr>re_scratch = name, re_op = ops name, re_buffer = slot, re_shares = prior\<rparr>] else [])
      @ reused_loop assignment ops rs (occupants(slot := prior @ [name])))"

text \<open>Python dictionary assignment on a list of items: an existing key keeps its place.\<close>

fun dict_set :: "nat \<Rightarrow> 'v \<Rightarrow> (nat \<times> 'v) list \<Rightarrow> (nat \<times> 'v) list" where
  "dict_set k v [] = [(k, v)]"
| "dict_set k v ((k', v') # items) = (if k' = k then (k, v) # items else (k', v') # dict_set k v items)"

definition reject_reason :: "string \<Rightarrow> live_range \<Rightarrow> nat list \<Rightarrow> nat list \<Rightarrow> reject_note" where
  "reject_reason oper r field_barriers blockers =
     (let aux_note = (oper \<in> set rhs_ops \<and> (\<exists>f\<in>set field_barriers. lr_def r \<le> f \<and> f \<le> lr_last r))
      in if blockers \<noteq> [] then Still_live (length blockers) (lr_def r) aux_note
         else Fresh_needed (lr_def r) aux_note)"

fun rejected_loop ::
  "(string \<times> nat) list \<Rightarrow> (string \<Rightarrow> string) \<Rightarrow> nat list \<Rightarrow> live_range list \<Rightarrow> (nat \<times> nat) list \<Rightarrow> nat \<Rightarrow>
   rejected_entry list" where
  "rejected_loop assignment ops field_barriers [] occupant_end n_buffers = []"
| "rejected_loop assignment ops field_barriers (r # rs) occupant_end n_buffers =
     (let name = lr_name r; slot = slot_of assignment name;
          occupant_end' = dict_set slot (lr_last r) occupant_end in
      if n_buffers \<le> slot then
        (if 0 < n_buffers then
           (let blockers = map fst (filter (\<lambda>(b, e). lr_def r \<le> e) occupant_end)
            in [\<lparr>rj_scratch = name, rj_op = ops name, rj_reason = reject_reason (ops name) r field_barriers blockers\<rparr>])
         else [])
        @ rejected_loop assignment ops field_barriers rs occupant_end' (slot + 1)
      else rejected_loop assignment ops field_barriers rs occupant_end' n_buffers)"

definition field_solve_indices :: "'a program \<Rightarrow> nat list" where
  "field_solve_indices p =
     map snd (filter (\<lambda>(v, i). pv_op v \<in> set elliptic_ops) (zip (pr_values p) [0 ..< length (pr_values p)]))"

record scratch_plan =
  sp_categories :: "(string \<times> nat) list"
  sp_scratch_count :: nat
  sp_buffer_count :: nat
  sp_reused :: "reused_entry list"
  sp_rejected :: "rejected_entry list"

definition build_scratch_plan :: "'a program \<Rightarrow> scratch_plan" where
  "build_scratch_plan p =
     (let liveness = scratch_liveness p; reuse = buffer_reuse_report p;
          ranges = sort_key lr_def liveness; ops = op_of liveness in
      \<lparr>sp_categories = categories p, sp_scratch_count = rr_scratch reuse, sp_buffer_count = rr_buffers reuse,
       sp_reused = reused_loop (rr_assignment reuse) ops ranges (\<lambda>_. []),
       sp_rejected = rejected_loop (rr_assignment reuse) ops (field_solve_indices p) ranges [] 0\<rparr>)"

definition buffers_saved :: "scratch_plan \<Rightarrow> int" where
  "buffers_saved plan = int (sp_scratch_count plan) - int (sp_buffer_count plan)"

text \<open>With distinct names the name-keyed table is the list of slots.\<close>

lemma slot_of_assignment:
  assumes "distinct (map lr_name rs)" "length slots = length rs" "(r, s) \<in> set (zip rs slots)"
  shows "slot_of (rev (zip (map lr_name rs) slots)) (lr_name r) = s"
proof -
  have "distinct (map fst (rev (zip (map lr_name rs) slots)))" using assms(1,2) by (simp add: rev_map [symmetric])
  moreover have "(lr_name r, s) \<in> set (rev (zip (map lr_name rs) slots))"
    using assms(2,3) by (force simp: set_zip)
  ultimately show ?thesis by (simp add: slot_of_def)
qed

lemma reused_loop_entry:
  assumes "e \<in> set (reused_loop asg ops rs occ)" "length slots = length rs"
    and "\<forall>(r, s)\<in>set (zip rs slots). slot_of asg (lr_name r) = s"
    and "\<forall>b. occ b = map (lr_name \<circ> fst) (filter (\<lambda>x. snd x = b) ps)"
  shows "\<exists>xs r ys. zip rs slots = xs @ (r, re_buffer e) # ys \<and> re_scratch e = lr_name r
     \<and> re_shares e = map (lr_name \<circ> fst) (filter (\<lambda>x. snd x = re_buffer e) (ps @ xs))"
  using assms
proof (induction rs arbitrary: slots occ ps)
  case (Cons r rs)
  obtain s ss where sl: "slots = s # ss" using Cons.prems(2) by (cases slots) auto
  have s: "slot_of asg (lr_name r) = s" using Cons.prems(3) sl by simp
  let ?occ = "occ(s := occ s @ [lr_name r])"
  have occ: "\<forall>b. ?occ b = map (lr_name \<circ> fst) (filter (\<lambda>x. snd x = b) (ps @ [(r, s)]))"
    using Cons.prems(4) by simp
  consider "e = \<lparr>re_scratch = lr_name r, re_op = ops (lr_name r), re_buffer = s, re_shares = occ s\<rparr>"
    | "e \<in> set (reused_loop asg ops rs ?occ)"
    using Cons.prems(1) by (auto simp: Let_def s split: if_splits)
  then show ?case
  proof cases
    case 1
    then show ?thesis using Cons.prems(4) sl by (intro exI [of _ "[]"]) auto
  next
    case 2
    obtain xs q ys where "zip rs ss = xs @ (q, re_buffer e) # ys" "re_scratch e = lr_name q"
        "re_shares e = map (lr_name \<circ> fst) (filter (\<lambda>x. snd x = re_buffer e) ((ps @ [(r, s)]) @ xs))"
      using Cons.IH [OF 2 _ _ occ, of ss] Cons.prems(2,3) sl by auto
    then show ?thesis using sl by (intro exI [of _ "(r, s) # xs"] exI [of _ q] exI [of _ ys]) simp
  qed
qed simp

text \<open>Both loops follow the allocator: an entry of the first is a recycled buffer, one of the second a fresh one.\<close>

lemma reused_loop_length:
  assumes "allocate rs free = (free', slots, reused)" "\<forall>(r, s)\<in>set (zip rs slots). slot_of asg (lr_name r) = s"
    and "\<forall>b. occ b \<noteq> [] \<longleftrightarrow> b < length free"
  shows "length (reused_loop asg ops rs occ) = reused"
  using assms
proof (induction rs arbitrary: free free' slots reused occ)
  case (Cons r rs)
  show ?case
  proof (cases "first_free (lr_def r) free")
    case None
    obtain s where al: "allocate rs (free @ [lr_last r]) = (free', s, reused)" "slots = length free # s"
      using Cons.prems(1) None by (auto split: prod.splits)
    have sl: "slot_of asg (lr_name r) = length free" using Cons.prems(2) al(2) by simp
    have empty: "occ (length free) = []" using Cons.prems(3) by blast
    have occ: "\<forall>b. (occ(length free := occ (length free) @ [lr_name r])) b \<noteq> [] \<longleftrightarrow> b < length (free @ [lr_last r])"
    proof
      fix b
      show "(occ(length free := occ (length free) @ [lr_name r])) b \<noteq> [] \<longleftrightarrow> b < length (free @ [lr_last r])"
        using Cons.prems(3) [rule_format, of b] by (cases "b = length free") (simp_all add: less_Suc_eq)
    qed
    have z: "\<forall>(r, s)\<in>set (zip rs s). slot_of asg (lr_name r) = s" using Cons.prems(2) al(2) by simp
    have "length (reused_loop asg ops rs (occ(length free := occ (length free) @ [lr_name r]))) = reused"
      by (rule Cons.IH [OF al(1) z occ])
    then show ?thesis by (simp only: reused_loop.simps Let_def sl empty) simp
  next
    case (Some b)
    obtain s u where al: "allocate rs (free[b := lr_last r]) = (free', s, u)" "slots = b # s" "reused = u + 1"
      using Cons.prems(1) Some by (auto split: prod.splits)
    have sl: "slot_of asg (lr_name r) = b" using Cons.prems(2) al(2) by simp
    have b: "occ b \<noteq> []" using Cons.prems(3) first_free_Some [OF Some] by blast
    have occ: "\<forall>c. (occ(b := occ b @ [lr_name r])) c \<noteq> [] \<longleftrightarrow> c < length (free[b := lr_last r])"
    proof
      fix c
      show "(occ(b := occ b @ [lr_name r])) c \<noteq> [] \<longleftrightarrow> c < length (free[b := lr_last r])"
        using Cons.prems(3) [rule_format, of c] first_free_Some [OF Some] by (cases "c = b") simp_all
    qed
    have z: "\<forall>(r, s)\<in>set (zip rs s). slot_of asg (lr_name r) = s" using Cons.prems(2) al(2) by simp
    have "length (reused_loop asg ops rs (occ(b := occ b @ [lr_name r]))) = u"
      by (rule Cons.IH [OF al(1) z occ])
    then show ?thesis using b al(3) by (simp only: reused_loop.simps Let_def sl) simp
  qed
qed simp

lemma dict_set_new: "k \<notin> fst ` set items \<Longrightarrow> dict_set k v items = items @ [(k, v)]"
  by (induction items) auto

lemma dict_set_old:
  "distinct (map fst items) \<Longrightarrow> i < length items \<Longrightarrow> fst (items ! i) = k \<Longrightarrow> dict_set k v items = items[i := (k, v)]"
proof (induction items arbitrary: i)
  case (Cons x items)
  show ?case
  proof (cases i)
    case (Suc j)
    then have "fst (items ! j) = k" "j < length items" using Cons.prems by auto
    moreover from this have "fst x \<noteq> k" using Cons.prems(1) by auto
    ultimately show ?thesis using Cons.IH [of j] Cons.prems(1) Suc by (cases x) simp
  qed (use Cons.prems in \<open>cases x, simp\<close>)
qed simp

lemma dict_set_enum:
  "dict_set (length free) v (zip [0 ..< length free] free) = zip [0 ..< length (free @ [v])] (free @ [v])"
  "b < length free \<Longrightarrow> dict_set b v (zip [0 ..< length free] free) = zip [0 ..< length (free[b := v])] (free[b := v])"
proof -
  show "dict_set (length free) v (zip [0 ..< length free] free) = zip [0 ..< length (free @ [v])] (free @ [v])"
    by (subst dict_set_new) (auto simp: set_zip)
  assume b: "b < length free"
  have "dict_set b v (zip [0 ..< length free] free) = (zip [0 ..< length free] free)[b := (b, v)]"
    by (rule dict_set_old) (use b in simp_all)
  also have "\<dots> = zip ([0 ..< length free][b := b]) (free[b := v])" by (simp add: update_zip)
  also have "[0 ..< length free][b := b] = [0 ..< length free]" using b by (metis add_0 list_update_id nth_upt)
  finally show "dict_set b v (zip [0 ..< length free] free) = zip [0 ..< length (free[b := v])] (free[b := v])" by simp
qed

lemma rejected_loop_entries:
  assumes "allocate rs free = (free', slots, reused)" "\<forall>(r, s)\<in>set (zip rs slots). slot_of asg (lr_name r) = s"
  shows "length (rejected_loop asg ops fb rs (zip [0 ..< length free] free) (length free))
       + (if free = [] \<and> rs \<noteq> [] then 1 else length free) = length free'
     \<and> (\<forall>e\<in>set (rejected_loop asg ops fb rs (zip [0 ..< length free] free) (length free)).
          \<exists>n d aux. 0 < n \<and> rj_reason e = Still_live n d aux)"
  using assms
proof (induction rs arbitrary: free free' slots reused)
  case (Cons r rs)
  show ?case
  proof (cases "first_free (lr_def r) free")
    case None
    obtain s where al: "allocate rs (free @ [lr_last r]) = (free', s, reused)" "slots = length free # s"
      using Cons.prems(1) None by (auto split: prod.splits)
    have sl: "slot_of asg (lr_name r) = length free" using Cons.prems(2) al(2) by simp
    have IH: "length (rejected_loop asg ops fb rs (zip [0 ..< length (free @ [lr_last r])] (free @ [lr_last r])) (length (free @ [lr_last r])))
        + (if free @ [lr_last r] = [] \<and> rs \<noteq> [] then 1 else length (free @ [lr_last r])) = length free'
      \<and> (\<forall>e\<in>set (rejected_loop asg ops fb rs (zip [0 ..< length (free @ [lr_last r])] (free @ [lr_last r])) (length (free @ [lr_last r]))).
          \<exists>n d aux. 0 < n \<and> rj_reason e = Still_live n d aux)"
      using Cons.prems(2) al(2) by (intro Cons.IH [OF al(1)]) simp
    have "filter (\<lambda>(b, e). lr_def r \<le> e) (zip [0 ..< length free] free) = zip [0 ..< length free] free"
      using None by (auto simp: first_free_None filter_id_conv dest: set_zip_rightD)
    then have step: "rejected_loop asg ops fb (r # rs) (zip [0 ..< length free] free) (length free)
        = (if free = [] then [] else [\<lparr>rj_scratch = lr_name r, rj_op = ops (lr_name r),
             rj_reason = reject_reason (ops (lr_name r)) r fb [0 ..< length free]\<rparr>])
          @ rejected_loop asg ops fb rs (zip [0 ..< length (free @ [lr_last r])] (free @ [lr_last r])) (length (free @ [lr_last r]))"
      by (simp only: rejected_loop.simps Let_def sl dict_set_enum) simp
    have "\<exists>n d aux. 0 < n \<and> reject_reason (ops (lr_name r)) r fb [0 ..< length free] = Still_live n d aux" if "free \<noteq> []"
      using that by (simp add: reject_reason_def Let_def)
    then show ?thesis unfolding step using IH by (auto split: if_splits)
  next
    case (Some b)
    obtain s u where al: "allocate rs (free[b := lr_last r]) = (free', s, u)" "slots = b # s"
      using Cons.prems(1) Some by (auto split: prod.splits)
    have sl: "slot_of asg (lr_name r) = b" using Cons.prems(2) al(2) by simp
    have b: "b < length free" using first_free_Some [OF Some] by simp
    have step: "rejected_loop asg ops fb (r # rs) (zip [0 ..< length free] free) (length free)
        = rejected_loop asg ops fb rs (zip [0 ..< length (free[b := lr_last r])] (free[b := lr_last r])) (length (free[b := lr_last r]))"
      using b by (simp only: rejected_loop.simps Let_def sl dict_set_enum) simp
    have "free[b := lr_last r] \<noteq> []" "free \<noteq> []" using b by auto
    then show ?thesis
      unfolding step using Cons.IH [OF al(1)] Cons.prems(2) al(2) by simp
  qed
qed simp

text \<open>What the report says, in one place.\<close>

lemma reuse_report:
  assumes "distinct (map pv_id (pr_values p))" "allocate (scratch_liveness p) [] = (free, slots, reused)"
  shows "alloc_inv (zip (scratch_liveness p) slots) free" "\<exists>t. length free \<le> length (filter (live_at t) (scratch_liveness p))"
    "length slots = length (scratch_liveness p)" "length free + reused = length (scratch_liveness p)"
    "buffer_reuse_report p = \<lparr>rr_scratch = length (scratch_liveness p), rr_buffers = length free, rr_reused = reused,
       rr_assignment = rev (zip (map lr_name (scratch_liveness p)) slots)\<rparr>"
proof -
  have "\<forall>r\<in>set (scratch_liveness p). lr_def r \<le> lr_last r" using scratch_range [OF _ assms(1)] by metis
  moreover have "sorted (map lr_def (map fst ([] :: (live_range \<times> nat) list) @ scratch_liveness p))"
    using scratch_defs_sorted [of p] by (metis append_Nil list.simps(8) sorted_sort_key)
  ultimately show "alloc_inv (zip (scratch_liveness p) slots) free" "\<exists>t. length free \<le> length (filter (live_at t) (scratch_liveness p))"
    using allocate_sound [OF assms(2), of "[]"] by (simp_all add: alloc_inv_def)
  show "length slots = length (scratch_liveness p)" "length free + reused = length (scratch_liveness p)"
    using allocate_lengths [OF assms(2)] by auto
  show "buffer_reuse_report p = \<lparr>rr_scratch = length (scratch_liveness p), rr_buffers = length free, rr_reused = reused,
       rr_assignment = rev (zip (map lr_name (scratch_liveness p)) slots)\<rparr>"
    using assms(2) by (simp add: buffer_reuse_report_def scratch_defs_sorted Let_def)
qed

subsection \<open>Properties of the analysis\<close>

text \<open>
  Live ranges cover the reads.  For every scratch range: it starts at the definition of its node and does
  not end before it; no flat node reads the value, as an input or through a listed attribute, after the end
  of the range; and a committed value is live beyond the last node.
\<close>

theorem live_ranges_cover_reads:
  assumes "distinct (map pv_id (pr_values p))" "r \<in> set (scratch_liveness p)"
  shows "lr_def r < length (pr_values p) \<and> lr_def r \<le> lr_last r
     \<and> (\<forall>j<length (pr_values p). pv_id (pr_values p ! lr_def r) \<in> set (direct_reads (pr_values p ! j)) \<longrightarrow> j \<le> lr_last r)
     \<and> (pv_id (pr_values p ! lr_def r) \<in> snd ` set (pr_commits p) \<longrightarrow> length (pr_values p) \<le> lr_last r)"
proof -
  obtain d where d: "d < length (pr_values p)" "lr_def r = d" "lr_def r \<le> lr_last r"
      "lr_last r = (case last_uses p (pv_id (pr_values p ! d)) of None \<Rightarrow> d | Some l \<Rightarrow> l)"
    using scratch_range [OF assms(2,1)] by metis
  then have ne: "pr_values p \<noteq> []" by auto
  note idx = flat_order_index [OF assms(1) d(1)]
  have "j \<le> lr_last r" if "j < length (pr_values p)" "pv_id (pr_values p ! d) \<in> set (direct_reads (pr_values p ! j))" for j
    using last_uses_bounded(2) [OF assms(1) ne that idx] d(4) by auto
  moreover have "length (pr_values p) \<le> lr_last r" if com: "pv_id (pr_values p ! d) \<in> snd ` set (pr_commits p)"
  proof -
    obtain c where "(c, pv_id (pr_values p ! d)) \<in> set (pr_commits p)" using com by force
    from last_uses_bounded(3) [OF assms(1) ne this idx] show ?thesis using d(4) by auto
  qed
  ultimately show ?thesis using d(1-3) by simp
qed

definition plan_node :: "nat \<Rightarrow> string \<Rightarrow> nat list \<Rightarrow> string \<Rightarrow> int pvalue" where
  "plan_node i oper ins name = PValue i ''state'' oper ins name 0 [] None [] 0"

definition plan_program :: "int pvalue list \<Rightarrow> int program" where
  "plan_program vs = \<lparr>pr_values = vs, pr_commits = [(''U'', length vs - 1)], pr_post_sync = [], pr_dt_bound = None, pr_imports = []\<rparr>"

text \<open>Forward Euler in two stages: the second rate reuses the buffer of the first.\<close>

definition euler_twice :: "int program" where
  "euler_twice = plan_program [plan_node 0 ''state'' [] ''U'', plan_node 1 ''rhs'' [0] ''k1'', plan_node 2 ''linear_combine'' [0, 1] ''U1'',
     plan_node 3 ''rhs'' [2] ''k2'', plan_node 4 ''linear_combine'' [2, 3] ''U2'']"

lemma euler_twice_ranges:
  "scratch_liveness euler_twice = [\<lparr>lr_name = ''k1'', lr_op = ''rhs'', lr_def = 1, lr_last = 2\<rparr>,
     \<lparr>lr_name = ''U1'', lr_op = ''linear_combine'', lr_def = 2, lr_last = 4\<rparr>,
     \<lparr>lr_name = ''k2'', lr_op = ''rhs'', lr_def = 3, lr_last = 4\<rparr>,
     \<lparr>lr_name = ''U2'', lr_op = ''linear_combine'', lr_def = 4, lr_last = 5\<rparr>]"
  by code_simp

lemma euler_twice_distinct: "distinct (map pv_id (pr_values euler_twice))"
  by code_simp

theorem live_ranges_cover_reads_witness:
  "\<exists>r. r \<in> set (scratch_liveness euler_twice) \<and> lr_def r \<le> lr_last r"
proof -
  let ?r = "\<lparr>lr_name = ''k2'', lr_op = ''rhs'', lr_def = 3, lr_last = 4\<rparr>"
  have "?r \<in> set (scratch_liveness euler_twice)" by (simp add: euler_twice_ranges)
  then show ?thesis using live_ranges_cover_reads [OF euler_twice_distinct, of ?r] by blast
qed

text \<open>
  C27. Buffer reuse is sound and the report adds up.  The slots the greedy allocator assigns are below the
  reported number of buffers, two scratch ranges share a slot only if the earlier one is dead before the later
  one is defined, and every scratch value is on a fresh or on a recycled buffer.
\<close>

theorem buffer_reuse_sound:
  assumes "distinct (map pv_id (pr_values p))"
  shows "\<exists>slots. sorted_wrt apart (zip (scratch_liveness p) slots) \<and> length slots = length (scratch_liveness p)
     \<and> (\<forall>s\<in>set slots. s < rr_buffers (buffer_reuse_report p))
     \<and> rr_assignment (buffer_reuse_report p) = rev (zip (map lr_name (scratch_liveness p)) slots)
     \<and> rr_scratch (buffer_reuse_report p) = rr_buffers (buffer_reuse_report p) + rr_reused (buffer_reuse_report p)"
proof -
  obtain free slots reused where al: "allocate (scratch_liveness p) [] = (free, slots, reused)" by (metis prod_cases3)
  note rep = reuse_report [OF assms al]
  have "\<forall>s\<in>set slots. s < length free" using allocate_lengths [OF al] by simp
  then show ?thesis using rep by (intro exI [of _ slots]) (simp add: alloc_inv_def)
qed

theorem buffer_reuse_sound_witness:
  "rr_scratch (buffer_reuse_report euler_twice) = rr_buffers (buffer_reuse_report euler_twice) + rr_reused (buffer_reuse_report euler_twice)
   \<and> rr_buffers (buffer_reuse_report euler_twice) = 3"
proof -
  have "rr_buffers (buffer_reuse_report euler_twice) = 3" by code_simp
  then show ?thesis using buffer_reuse_sound [OF euler_twice_distinct] by blast
qed

text \<open>
  C28. The number of buffers is minimal.  Any assignment of buffers to the scratch values in which ranges that
  share a buffer do not meet uses at least as many buffers as the report says.
\<close>

theorem buffer_count_minimal:
  assumes "distinct (map pv_id (pr_values p))" "length cs = length (scratch_liveness p)"
    and "sorted_wrt apart (zip (scratch_liveness p) cs)"
  shows "rr_buffers (buffer_reuse_report p) \<le> card (set cs)"
proof -
  obtain free slots reused where al: "allocate (scratch_liveness p) [] = (free, slots, reused)" by (metis prod_cases3)
  note rep = reuse_report [OF assms(1) al]
  obtain t where "length free \<le> length (filter (live_at t) (scratch_liveness p))" using rep(2) by blast
  also have "\<dots> \<le> card (set cs)" by (rule sharing_lower_bound [OF assms(3,2)])
  finally show ?thesis using rep(5) by simp
qed

theorem buffer_count_minimal_witness:
  "sorted_wrt apart (zip (scratch_liveness euler_twice) [0, 1, 2, 0]) \<and> rr_buffers (buffer_reuse_report euler_twice) \<le> card (set [0, 1, 2, 0 :: nat])"
proof -
  have "sorted_wrt apart (zip (scratch_liveness euler_twice) [0, 1, 2, 0])"
    by (simp add: euler_twice_ranges apart_def)
  then show ?thesis using buffer_count_minimal [OF euler_twice_distinct, of "[0, 1, 2, 0]"]
    by (simp add: euler_twice_ranges)
qed

text \<open>
  The plan explains the report.  When the scratch names are distinct, every reuse entry of
  \<^verbatim>\<open>build_scratch_plan\<close> shares its buffer only with ranges that are dead before its own definition, there are
  as many entries as saved buffers, every buffer but the first is explained by a rejection, and the reason is
  always that some existing buffers were still live, never the fallback text.
\<close>

theorem scratch_plan_explains_reuse:
  assumes "distinct (map pv_id (pr_values p))" "distinct (map lr_name (scratch_liveness p))"
  shows "int (length (sp_reused (build_scratch_plan p))) = buffers_saved (build_scratch_plan p)
     \<and> length (sp_rejected (build_scratch_plan p)) = sp_buffer_count (build_scratch_plan p) - 1
     \<and> (\<forall>e\<in>set (sp_reused (build_scratch_plan p)). \<forall>n\<in>set (re_shares e).
          \<exists>r\<in>set (scratch_liveness p). \<exists>q\<in>set (scratch_liveness p).
            lr_name r = n \<and> lr_name q = re_scratch e \<and> lr_last r < lr_def q)
     \<and> (\<forall>e\<in>set (sp_rejected (build_scratch_plan p)). \<exists>n d aux. 0 < n \<and> rj_reason e = Still_live n d aux)"
proof -
  obtain free slots reused where al: "allocate (scratch_liveness p) [] = (free, slots, reused)" by (metis prod_cases3)
  note rep = reuse_report [OF assms(1) al]
  let ?rs = "scratch_liveness p" and ?asg = "rev (zip (map lr_name (scratch_liveness p)) slots)"
  have sl: "\<forall>(r, s)\<in>set (zip ?rs slots). slot_of ?asg (lr_name r) = s"
    using slot_of_assignment [OF assms(2) rep(3)] by blast
  have plan: "sp_reused (build_scratch_plan p) = reused_loop ?asg (op_of ?rs) ?rs (\<lambda>_. [])"
      "sp_rejected (build_scratch_plan p) = rejected_loop ?asg (op_of ?rs) (field_solve_indices p) ?rs [] 0"
      "sp_buffer_count (build_scratch_plan p) = length free" "sp_scratch_count (build_scratch_plan p) = length ?rs"
    using rep(5) by (simp_all add: build_scratch_plan_def Let_def scratch_defs_sorted)
  have shares: "\<exists>r\<in>set ?rs. \<exists>q\<in>set ?rs. lr_name r = n \<and> lr_name q = re_scratch e \<and> lr_last r < lr_def q"
    if e: "e \<in> set (reused_loop ?asg (op_of ?rs) ?rs (\<lambda>_. []))" and n: "n \<in> set (re_shares e)" for e n
  proof -
    obtain xs q ys where q: "zip ?rs slots = xs @ (q, re_buffer e) # ys" "re_scratch e = lr_name q"
        "re_shares e = map (lr_name \<circ> fst) (filter (\<lambda>x. snd x = re_buffer e) xs)"
      using reused_loop_entry [OF e rep(3) sl, of "[]"] by auto
    obtain x where x: "x \<in> set xs" "snd x = re_buffer e" "n = lr_name (fst x)" using n q(3) by auto
    have "sorted_wrt apart (xs @ (q, re_buffer e) # ys)" using rep(1) q(1) by (simp add: alloc_inv_def)
    then have "lr_last (fst x) < lr_def q" using x(1,2) by (auto simp: sorted_wrt_append apart_def)
    moreover have "x \<in> set (zip ?rs slots)" "(q, re_buffer e) \<in> set (zip ?rs slots)" using x(1) q(1) by auto
    then have "fst x \<in> set ?rs" "q \<in> set ?rs" by (metis prod.collapse set_zip_leftD)+
    ultimately show ?thesis using x(3) q(2) by metis
  qed
  have len: "length (reused_loop ?asg (op_of ?rs) ?rs (\<lambda>_. [])) = reused"
    by (rule reused_loop_length [OF al sl]) simp
  have rj: "length (rejected_loop ?asg (op_of ?rs) (field_solve_indices p) ?rs [] 0) + (if ?rs \<noteq> [] then 1 else 0) = length free"
    "\<forall>e\<in>set (rejected_loop ?asg (op_of ?rs) (field_solve_indices p) ?rs [] 0). \<exists>n d aux. 0 < n \<and> rj_reason e = Still_live n d aux"
    using rejected_loop_entries [OF al sl, of "op_of ?rs" "field_solve_indices p"] by (auto split: if_splits)
  show ?thesis
    unfolding plan buffers_saved_def using shares len rj rep(4) by (auto split: if_splits)
qed

theorem scratch_plan_explains_reuse_witness:
  "length (sp_rejected (build_scratch_plan euler_twice)) = 2 \<and> int (length (sp_reused (build_scratch_plan euler_twice))) = 1"
proof -
  have "distinct (map lr_name (scratch_liveness euler_twice))" by (simp add: euler_twice_ranges)
  note plan = scratch_plan_explains_reuse [OF euler_twice_distinct this]
  have "sp_buffer_count (build_scratch_plan euler_twice) = 3" "buffers_saved (build_scratch_plan euler_twice) = 1" by code_simp+
  then show ?thesis using plan by simp
qed

text \<open>
  C30. Two scratch values with one name break the plan.  Authoring accepts a repeated name, the assignment is
  keyed by it, and the plan then reports a reuse between two values that are live at the same time, although
  the allocator gave them different buffers.
\<close>

theorem scratch_plan_confuses_equal_names:
  "\<exists>p :: int program. validate_order p = Inr () \<and> distinct (map pv_id (pr_values p))
     \<and> (\<exists>r q. scratch_liveness p = [r, q] @ tl (tl (scratch_liveness p)) \<and> lr_def q \<le> lr_last r)
     \<and> rr_buffers (buffer_reuse_report p) = 3 \<and> rr_reused (buffer_reuse_report p) = 0
     \<and> map (\<lambda>e. (re_scratch e, re_shares e)) (sp_reused (build_scratch_plan p)) = [(''k'', [''k''])]"
proof -
  let ?p = "plan_program [plan_node 0 ''state'' [] ''U'', plan_node 1 ''rhs'' [0] ''k'', plan_node 2 ''source'' [0] ''k'',
     plan_node 3 ''linear_combine'' [0, 1, 2] ''U1'']"
  have "scratch_liveness ?p = [\<lparr>lr_name = ''k'', lr_op = ''rhs'', lr_def = 1, lr_last = 3\<rparr>,
      \<lparr>lr_name = ''k'', lr_op = ''source'', lr_def = 2, lr_last = 3\<rparr>,
      \<lparr>lr_name = ''U1'', lr_op = ''linear_combine'', lr_def = 3, lr_last = 4\<rparr>]" by code_simp
  moreover have "validate_order ?p = Inr ()" "distinct (map pv_id (pr_values ?p))" by code_simp+
  moreover have "rr_buffers (buffer_reuse_report ?p) = 3" "rr_reused (buffer_reuse_report ?p) = 0" by code_simp+
  moreover have "map (\<lambda>e. (re_scratch e, re_shares e)) (sp_reused (build_scratch_plan ?p)) = [(''k'', [''k''])]" by code_simp
  ultimately show ?thesis by (intro exI [of _ ?p]) simp
qed

subsection \<open>The owners of persistent storage\<close>

text \<open>
  \<^verbatim>\<open>_persistent_program_values\<close>: a pre-order walk of the flat values and of the control-flow blocks, each SSA id
  once.  The nested blocks of a value are walked before its successors, over the same set of seen ids, so
  they are put in front of the worklist.
\<close>

definition owner_block_keys :: "string list" where
  "owner_block_keys = [''cond_block'', ''body_block'', ''true_block'', ''false_block'']"

definition owned_blocks :: "'a pvalue \<Rightarrow> 'a pvalue list" where
  "owned_blocks v = concat (map (\<lambda>k. case map_of (pv_blocks v) k of None \<Rightarrow> [] | Some b \<Rightarrow> b) owner_block_keys)"

lemma block_size_sum:
  assumes "distinct ks"
  shows "size_list size (concat (map (\<lambda>k. case map_of blocks k of None \<Rightarrow> [] | Some b \<Rightarrow> b) ks))
     \<le> size_list (size_prod (\<lambda>x. 0) (size_list size)) blocks" (is "?s blocks ks \<le> _")
  using assms
proof (induction blocks arbitrary: ks)
  case Nil
  show ?case by (induction ks) auto
next
  case (Cons x blocks)
  obtain k b where x: "x = (k, b)" by (cases x)
  show ?case
  proof (cases "k \<in> set ks")
    case True
    then obtain us vs where ks: "ks = us @ k # vs" by (meson split_list)
    have d: "k \<notin> set us" "k \<notin> set vs" "distinct (us @ vs)" using Cons.prems ks by auto
    have e: "map (\<lambda>j. case map_of ((k, b) # blocks) j of None \<Rightarrow> [] | Some b \<Rightarrow> b) ws
        = map (\<lambda>j. case map_of blocks j of None \<Rightarrow> [] | Some b \<Rightarrow> b) ws" if "k \<notin> set ws" for ws
      using that by auto
    have "?s (x # blocks) ks = size_list size b + ?s blocks (us @ vs)"
      by (simp only: x ks map_append list.map concat_append concat.simps e [OF d(1)] e [OF d(2)]) simp
    then show ?thesis using Cons.IH [OF d(3)] by (simp add: x)
  next
    case False
    then have e: "map (\<lambda>j. case map_of (x # blocks) j of None \<Rightarrow> [] | Some b \<Rightarrow> b) ks
        = map (\<lambda>j. case map_of blocks j of None \<Rightarrow> [] | Some b \<Rightarrow> b) ks" by (auto simp: x)
    show ?thesis unfolding e using Cons.IH [OF Cons.prems] by (simp add: x)
  qed
qed

lemma owned_blocks_size: "size_list size (owned_blocks v) < size v"
proof -
  have "size_list size (owned_blocks v) \<le> size_list (size_prod (\<lambda>x. 0) (size_list size)) (pv_blocks v)"
    unfolding owned_blocks_def by (rule block_size_sum) (simp add: owner_block_keys_def)
  then show ?thesis by (cases v) simp
qed

function owner_walk :: "nat set \<Rightarrow> 'a pvalue list \<Rightarrow> 'a pvalue list" where
  "owner_walk seen [] = []"
| "owner_walk seen (v # vs) =
     (if pv_id v \<in> seen then owner_walk seen vs
      else v # owner_walk (insert (pv_id v) seen) (owned_blocks v @ vs))"
  by pat_completeness auto
termination
  by (relation "measure (\<lambda>(seen, vs). size_list size vs)")
    (auto simp: less_Suc_eq_le intro: less_imp_le [OF owned_blocks_size])

definition persistent_program_values :: "'a program \<Rightarrow> 'a pvalue list" where
  "persistent_program_values p = owner_walk {} (pr_values p)"

inductive owned_node :: "'a pvalue list \<Rightarrow> 'a pvalue \<Rightarrow> bool" for vs where
  top: "v \<in> set vs \<Longrightarrow> owned_node vs v"
| nested: "owned_node vs u \<Longrightarrow> w \<in> set (owned_blocks u) \<Longrightarrow> owned_node vs w"

lemma owner_walk_distinct:
  "distinct (map pv_id (owner_walk seen vs)) \<and> pv_id ` set (owner_walk seen vs) \<inter> seen = {}"
  by (induction seen vs rule: owner_walk.induct) auto

lemma owner_walk_sound:
  "\<forall>v\<in>set vs. owned_node ws v \<Longrightarrow> \<forall>v\<in>set (owner_walk seen vs). owned_node ws v"
  by (induction seen vs rule: owner_walk.induct) (auto intro: owned_node.nested)

lemma owner_walk_complete:
  "v \<in> set vs \<Longrightarrow> pv_id v \<in> seen \<union> pv_id ` set (owner_walk seen vs)"
  "u \<in> set (owner_walk seen vs) \<Longrightarrow> w \<in> set (owned_blocks u) \<Longrightarrow> pv_id w \<in> seen \<union> pv_id ` set (owner_walk seen vs)"
proof -
  have "(\<forall>v\<in>set vs. pv_id v \<in> seen \<union> pv_id ` set (owner_walk seen vs))
      \<and> (\<forall>u\<in>set (owner_walk seen vs). \<forall>w\<in>set (owned_blocks u). pv_id w \<in> seen \<union> pv_id ` set (owner_walk seen vs))"
    by (induction seen vs rule: owner_walk.induct) auto
  then show "v \<in> set vs \<Longrightarrow> pv_id v \<in> seen \<union> pv_id ` set (owner_walk seen vs)"
    "u \<in> set (owner_walk seen vs) \<Longrightarrow> w \<in> set (owned_blocks u) \<Longrightarrow> pv_id w \<in> seen \<union> pv_id ` set (owner_walk seen vs)"
    by blast+
qed

text \<open>
  The walk reports every owner once.  When an SSA id names one node, the walk of the control-flow regions
  yields exactly the flat and nested nodes, at any depth, and no id twice.
\<close>

theorem persistent_values_once:
  assumes "\<And>u v. owned_node (pr_values p) u \<Longrightarrow> owned_node (pr_values p) v \<Longrightarrow> pv_id u = pv_id v \<Longrightarrow> u = v"
  shows "set (persistent_program_values p) = {v. owned_node (pr_values p) v}
     \<and> distinct (map pv_id (persistent_program_values p))"
proof -
  let ?W = "owner_walk {} (pr_values p)"
  have sound: "\<forall>v\<in>set ?W. owned_node (pr_values p) v"
    by (rule owner_walk_sound) (simp add: owned_node.top)
  have "v \<in> set ?W" if "owned_node (pr_values p) v" for v
    using that
  proof induction
    case (top v)
    then obtain u where "u \<in> set ?W" "pv_id u = pv_id v" using owner_walk_complete(1) [of v "pr_values p" "{}"] by auto
    then show ?case using assms sound top owned_node.top by metis
  next
    case (nested u w)
    then obtain x where "x \<in> set ?W" "pv_id x = pv_id w" using owner_walk_complete(2) [of u "{}" "pr_values p" w] by auto
    then show ?case using assms sound nested owned_node.nested by metis
  qed
  then show ?thesis using sound owner_walk_distinct [of "{}" "pr_values p"] by (auto simp: persistent_program_values_def)
qed

theorem persistent_values_once_witness:
  "set (persistent_program_values euler_twice) = {v. owned_node (pr_values euler_twice) v}"
proof -
  have flat: "\<forall>v\<in>set (pr_values euler_twice). owned_blocks v = []"
    by (simp add: euler_twice_def plan_program_def plan_node_def owned_blocks_def owner_block_keys_def)
  have mem: "v \<in> set (pr_values euler_twice)" if "owned_node (pr_values euler_twice) v" for v
    using that by induction (use flat in auto)
  have inj: "inj_on pv_id (set (pr_values euler_twice))" using euler_twice_distinct by (simp add: distinct_map)
  show ?thesis
    by (rule persistent_values_once [THEN conjunct1]) (use inj mem in \<open>blast dest: inj_onD\<close>)
qed

end
