(* ===== verification/Runge_Kutta.thy ===== *)
theory Runge_Kutta
  imports Exact_Scalar
begin

text \<open>
  The temporal method authorities: \<^verbatim>\<open>pops/time/_methods/coefficients.py\<close> (exact coefficients),
  \<^verbatim>\<open>pops/time/_methods/tableau.py\<close> (explicit, diagonally implicit and additive Butcher tableaux) and the
  tableau part of \<^verbatim>\<open>pops/time/_methods/properties.py\<close> (order conditions, stability polynomial, SSP
  certificates).

  \<^item> A coefficient keeps its Python number domain in the tableau (\<open>py_number\<close>); the certificates are
    computed on the exact rationals, Python's \<^verbatim>\<open>Fraction\<close>.
  \<^item> Every arithmetic helper that can raise (\<^verbatim>\<open>zip(strict=True)\<close>, an index out of range) returns a result;
    on a constructed tableau none does.
  \<^item> The specification side is the theory of Runge--Kutta methods itself: rooted trees with their
    elementary weights and densities, and the step \<open>rk_step\<close> on a real vector space.
\<close>

named_theorems tableau_simps \<open>evaluation of the tableau arithmetic on lists of the right shape\<close>

subsection \<open>Exact coefficients\<close>

text \<open>\<^verbatim>\<open>raise type(exc)(...)\<close> for the two classes that are caught.\<close>

fun reraised :: "string \<Rightarrow> py_error \<Rightarrow> py_error" where
  "reraised msg (TypeError _) = TypeError msg"
| "reraised msg (ValueError _) = ValueError msg"
| "reraised msg e = e"

definition exact_coefficient :: "scalar_value \<Rightarrow> py_number result" where
  "exact_coefficient v =
     (case from_value v None None of
        Inl e \<Rightarrow> Inl (reraised ''must be a finite real coefficient'' e)
      | Inr l \<Rightarrow>
          bindE (raise_if (lit_unit l \<noteq> None \<or> lit_target l \<noteq> None \<or> lit_cpp l \<noteq> None)
            (TypeError ''cannot carry units, a target, or custom C++ spelling'')) (\<lambda>_. to_python l))"

text \<open>\<^verbatim>\<open>Fraction(value)\<close> and \<^verbatim>\<open>Fraction.from_float(value)\<close>: a special value has no exact ratio.\<close>

fun fraction_of :: "py_number \<Rightarrow> rat result" where
  "fraction_of (NInt n) = Inr (of_int n)"
| "fraction_of (NFraction q) = Inr q"
| "fraction_of (NDecimal d) =
     (if is_finite_decimal d then Inr (decimal_value d) else Inl (ValueError ''Cannot convert to Fraction''))"
| "fraction_of (NFloat f) =
     (if isfinite f then Inr (float_value f) else Inl (OverflowError ''Cannot convert to Fraction''))"

definition exact_fraction :: "scalar_value \<Rightarrow> rat result" where
  "exact_fraction v = bindE (exact_coefficient v) fraction_of"

text \<open>\<^verbatim>\<open>any(... for item in xs)\<close> over a test that may raise.\<close>

fun anyE :: "('a \<Rightarrow> 'e + bool) \<Rightarrow> 'a list \<Rightarrow> 'e + bool" where
  "anyE f [] = Inr False"
| "anyE f (x # xs) = bindE (f x) (\<lambda>b. if b then Inr True else anyE f xs)"

text \<open>\<^verbatim>\<open>sum((exact_fraction(x) for x in xs), Fraction())\<close>.\<close>

definition fraction_sum :: "py_number list \<Rightarrow> rat result" where
  "fraction_sum xs = bindE (mapE (\<lambda>x. exact_fraction (VNumber x)) xs) (\<lambda>qs. Inr (sum_list qs))"

subsection \<open>Tableaux\<close>

text \<open>\<open>_rows\<close> from row \<open>i\<close> on, then the whole check with the stage count.\<close>

fun rows_loop :: "nat \<Rightarrow> bool \<Rightarrow> nat \<Rightarrow> scalar_value list list \<Rightarrow> py_number list list result" where
  "rows_loop stages diagonal i [] = Inr []"
| "rows_loop stages diagonal i (raw # source) =
     (let width = i + (if diagonal then 1 else 0) in
      bindE (raise_if (length raw < width \<or> stages < length raw)
        (ValueError ''must provide the active coefficients'')) (\<lambda>_.
      bindE (mapE exact_coefficient raw) (\<lambda>row.
      bindE (anyE (\<lambda>x. bindE (exact_fraction (VNumber x)) (\<lambda>q. Inr (q \<noteq> 0))) (drop width row)) (\<lambda>upper.
      bindE (raise_if upper (ValueError ''must be lower-triangular'')) (\<lambda>_.
      bindE (rows_loop stages diagonal (Suc i) source) (\<lambda>rest.
      Inr (take width row # rest)))))))"

definition rows :: "scalar_value list list \<Rightarrow> nat \<Rightarrow> bool \<Rightarrow> py_number list list result" where
  "rows A stages diagonal =
     bindE (raise_if (length A \<noteq> stages) (ValueError ''A and weights must share the stage count'')) (\<lambda>_.
       rows_loop stages diagonal 0 A)"

definition weights :: "scalar_value list \<Rightarrow> py_number list result" where
  "weights values =
     bindE (mapE exact_coefficient values) (\<lambda>result.
     bindE (raise_if (result = []) (ValueError ''requires at least one stage'')) (\<lambda>_. Inr result))"

text \<open>The explicit abscissae are compared one by one with the exact row totals.\<close>

fun check_nodes :: "py_number list \<Rightarrow> rat list \<Rightarrow> unit result" where
  "check_nodes (actual # cs) (expected # totals) =
     bindE (exact_fraction (VNumber actual)) (\<lambda>q.
     bindE (raise_if (q \<noteq> expected) (ValueError ''c must equal exact row sum'')) (\<lambda>_. check_nodes cs totals))"
| "check_nodes [] [] = Inr ()"
| "check_nodes _ _ = Inl (ValueError ''zip() arguments differ in length'')"

definition nodes :: "py_number list list \<Rightarrow> scalar_value list option \<Rightarrow> py_number list result" where
  "nodes A c =
     bindE (mapE fraction_sum A) (\<lambda>totals.
       case c of
         None \<Rightarrow> Inr (map NFraction totals)
       | Some cs \<Rightarrow>
           bindE (weights cs) (\<lambda>result.
           bindE (raise_if (length result \<noteq> length A)
             (ValueError ''A, b, and c must share the stage count'')) (\<lambda>_.
           bindE (check_nodes result totals) (\<lambda>_. Inr result))))"

record tableau =
  tb_A :: "py_number list list"
  tb_b :: "py_number list"
  tb_c :: "py_number list"
  tb_name :: "string option"

text \<open>
  \<^verbatim>\<open>RungeKuttaTableau.__init__\<close> (\<open>diagonal = False\<close>) and \<^verbatim>\<open>DiagonallyImplicitRungeKuttaTableau.__init__\<close>
  (\<open>diagonal = True\<close>); the two bodies are the same statements.
\<close>

definition mk_tableau ::
  "bool \<Rightarrow> scalar_value list list \<Rightarrow> scalar_value list \<Rightarrow> scalar_value list option \<Rightarrow> string option \<Rightarrow> tableau result" where
  "mk_tableau diagonal A b c name =
     bindE (weights b) (\<lambda>ws.
     bindE (rows A (length ws) diagonal) (\<lambda>rs.
     bindE (fraction_sum ws) (\<lambda>total.
     bindE (raise_if (total \<noteq> 1) (ValueError ''weights b must sum exactly to 1'')) (\<lambda>_.
     bindE (raise_if (name = Some '''') (ValueError ''name must be a non-empty string or None'')) (\<lambda>_.
     bindE (nodes rs c) (\<lambda>cs.
     Inr \<lparr>tb_A = rs, tb_b = ws, tb_c = cs, tb_name = name\<rparr>))))))"

definition runge_kutta_tableau ::
  "scalar_value list list \<Rightarrow> scalar_value list \<Rightarrow> scalar_value list option \<Rightarrow> string option \<Rightarrow> tableau result" where
  "runge_kutta_tableau = mk_tableau False"

definition dirk_tableau ::
  "scalar_value list list \<Rightarrow> scalar_value list \<Rightarrow> scalar_value list option \<Rightarrow> string option \<Rightarrow> tableau result" where
  "dirk_tableau = mk_tableau True"

definition stages :: "tableau \<Rightarrow> nat" where
  "stages t = length (tb_b t)"

record additive_tableau =
  ark_explicit :: tableau
  ark_A :: "py_number list list"
  ark_b :: "py_number list"
  ark_c :: "py_number list"
  ark_name :: "string option"

definition mk_additive_tableau ::
  "tableau \<Rightarrow> scalar_value list list \<Rightarrow> scalar_value list \<Rightarrow> scalar_value list option \<Rightarrow> string option \<Rightarrow>
   additive_tableau result" where
  "mk_additive_tableau explicit A b c name =
     bindE (weights b) (\<lambda>ws.
     bindE (raise_if (length ws \<noteq> stages explicit) (ValueError ''ARK partitions must share the stage count'')) (\<lambda>_.
     bindE (fraction_sum ws) (\<lambda>total.
     bindE (raise_if (total \<noteq> 1) (ValueError ''ARK implicit weights must sum exactly to 1'')) (\<lambda>_.
     bindE (rows A (length ws) True) (\<lambda>rs.
     bindE (raise_if (name = Some '''') (ValueError ''ARK name must be a non-empty string or None'')) (\<lambda>_.
     bindE (nodes rs c) (\<lambda>cs.
     Inr \<lparr>ark_explicit = explicit, ark_A = rs, ark_b = ws, ark_c = cs, ark_name = name\<rparr>)))))))"

definition abscissae_pairs :: "additive_tableau \<Rightarrow> (py_number \<times> py_number) list" where
  "abscissae_pairs t = zip (tb_c (ark_explicit t)) (ark_c t)"

subsection \<open>Certificates\<close>

datatype method_order = Order nat | UnknownOrder string

record ssp_certificate =
  ssp_coefficient :: rat
  ssp_source :: string

record method_properties =
  mp_order :: method_order
  mp_abscissae :: "rat list"
  mp_stability :: "rat list"
  mp_weights :: "rat list"
  mp_ssp :: "ssp_certificate option"

record method_certificate =
  mc_A :: "rat list list"
  mc_b :: "rat list"
  mc_c :: "rat list"
  mc_properties :: method_properties

text \<open>\<^verbatim>\<open>_dot\<close> zips strictly; \<^verbatim>\<open>_matvec\<close> indexes the vector by the columns of each row.\<close>

definition dot :: "rat list \<Rightarrow> rat list \<Rightarrow> rat result" where
  "dot left right =
     bindE (raise_if (length left \<noteq> length right) (ValueError ''zip() arguments differ in length'')) (\<lambda>_.
       Inr (sum_list (map2 (*) left right)))"

definition matvec :: "rat list list \<Rightarrow> rat list \<Rightarrow> rat list result" where
  "matvec A x =
     mapE (\<lambda>row. bindE (raise_if (length x < length row) (IndexError ''tuple index out of range'')) (\<lambda>_.
       Inr (sum_list (map (\<lambda>j. row ! j * x ! j) [0..<length row])))) A"

definition dense_row :: "nat \<Rightarrow> py_number list \<Rightarrow> rat list result" where
  "dense_row s row =
     mapE (\<lambda>j. if j < length row then exact_fraction (VNumber (row ! j)) else Inr 0) [0..<s]"

definition dense :: "py_number list list \<Rightarrow> nat \<Rightarrow> rat list list result" where
  "dense A s =
     mapE (\<lambda>i. if i < length A then dense_row s (A ! i) else Inl (IndexError ''tuple index out of range''))
       [0..<s]"

definition proved_order :: "rat list list \<Rightarrow> rat list \<Rightarrow> rat list \<Rightarrow> method_order result" where
  "proved_order A b c =
     (if sum_list b \<noteq> 1 then Inr (UnknownOrder ''first-order consistency condition failed'')
      else
        bindE (dot b c) (\<lambda>d. if d \<noteq> 1 / 2 then Inr (Order 1) else
        bindE (matvec A c) (\<lambda>Ac.
        let c2 = map (\<lambda>x. x * x) c in
        bindE (dot b c2) (\<lambda>d. if d \<noteq> 1 / 3 then Inr (Order 2) else
        bindE (dot b Ac) (\<lambda>d. if d \<noteq> 1 / 6 then Inr (Order 2) else
        let c3 = map (\<lambda>x. x * x * x) c in
        bindE (matvec A c2) (\<lambda>Ac2.
        bindE (matvec A Ac) (\<lambda>AAc.
        bindE (dot b c3) (\<lambda>d. if d \<noteq> 1 / 4 then Inr (Order 3) else
        bindE (raise_if (length Ac < length c) (IndexError ''tuple index out of range'')) (\<lambda>_.
        bindE (dot b (map (\<lambda>i. c ! i * Ac ! i) [0..<length c])) (\<lambda>d. if d \<noteq> 1 / 8 then Inr (Order 3) else
        bindE (dot b Ac2) (\<lambda>d. if d \<noteq> 1 / 12 then Inr (Order 3) else
        bindE (dot b AAc) (\<lambda>d. if d \<noteq> 1 / 24 then Inr (Order 3) else
        Inr (Order 4)))))))))))))"

text \<open>\<^verbatim>\<open>_stability\<close>: the loop over the stages, then the removal of trailing zeros.\<close>

fun stability_loop :: "nat \<Rightarrow> rat list list \<Rightarrow> rat list \<Rightarrow> rat list \<Rightarrow> rat list \<Rightarrow> rat list result" where
  "stability_loop 0 A b vector result = Inr result"
| "stability_loop (Suc n) A b vector result =
     bindE (dot b vector) (\<lambda>d.
     bindE (matvec A vector) (\<lambda>vector'.
     stability_loop n A b vector' (result @ [d])))"

function pop_zeros :: "rat list \<Rightarrow> rat list" where
  "pop_zeros result =
     (if 1 < length result \<and> last result = 0 then pop_zeros (butlast result) else result)"
  by auto
termination by (relation "measure length") auto

declare pop_zeros.simps [simp del]

definition stability :: "rat list list \<Rightarrow> rat list \<Rightarrow> rat list result" where
  "stability A b =
     bindE (stability_loop (length b) A b (map (\<lambda>_. 1) b) [1]) (\<lambda>result. Inr (pop_zeros result))"

definition ssprk2_key :: "rat list list \<times> rat list \<times> rat list" where
  "ssprk2_key = ([[0, 0], [1, 0]], [1 / 2, 1 / 2], [0, 1])"

definition ssprk3_key :: "rat list list \<times> rat list \<times> rat list" where
  "ssprk3_key = ([[0, 0, 0], [1, 0, 0], [1 / 4, 1 / 4, 0]], [1 / 6, 1 / 6, 2 / 3], [0, 1, 1 / 2])"

definition known_ssp :: "((rat list list \<times> rat list \<times> rat list) \<times> ssp_certificate) list" where
  "known_ssp =
     [(([[0]], [1], [0]), \<lparr>ssp_coefficient = 1, ssp_source = ''one forward Euler step''\<rparr>),
      (ssprk2_key, \<lparr>ssp_coefficient = 1, ssp_source = ''exact Shu-Osher convex decomposition''\<rparr>),
      (ssprk3_key, \<lparr>ssp_coefficient = 1, ssp_source = ''exact Shu-Osher convex decomposition''\<rparr>)]"

definition certificate_from_coefficients ::
  "rat list list \<Rightarrow> rat list \<Rightarrow> rat list \<Rightarrow> method_certificate result" where
  "certificate_from_coefficients A b c =
     bindE (proved_order A b c) (\<lambda>ord.
     bindE (stability A b) (\<lambda>poly.
     Inr \<lparr>mc_A = A, mc_b = b, mc_c = c,
          mc_properties = \<lparr>mp_order = ord, mp_abscissae = c, mp_stability = poly, mp_weights = b,
            mp_ssp = map_of known_ssp (A, b, c)\<rparr>\<rparr>))"

definition certify_runge_kutta :: "tableau \<Rightarrow> method_certificate result" where
  "certify_runge_kutta t =
     bindE (dense (tb_A t) (stages t)) (\<lambda>A.
     bindE (mapE (\<lambda>x. exact_fraction (VNumber x)) (tb_b t)) (\<lambda>b.
     bindE (mapE (\<lambda>x. exact_fraction (VNumber x)) (tb_c t)) (\<lambda>c.
     certificate_from_coefficients A b c)))"

definition analyze_runge_kutta :: "tableau \<Rightarrow> method_properties result" where
  "analyze_runge_kutta t =
     bindE (dense (tb_A t) (stages t)) (\<lambda>A.
     bindE (mapE (\<lambda>x. exact_fraction (VNumber x)) (tb_b t)) (\<lambda>b.
     bindE (mapE (\<lambda>x. exact_fraction (VNumber x)) (tb_c t)) (\<lambda>c.
     bindE (proved_order A b c) (\<lambda>ord.
     bindE (stability A b) (\<lambda>poly.
     Inr \<lparr>mp_order = ord, mp_abscissae = c, mp_stability = poly, mp_weights = b,
          mp_ssp = map_of known_ssp (A, b, c)\<rparr>)))))"

record implicit_properties =
  ip_order :: method_order
  ip_abscissae :: "rat list"
  ip_weights :: "rat list"
  ip_status :: string

record implicit_certificate =
  ic_A :: "rat list list"
  ic_b :: "rat list"
  ic_c :: "rat list"
  ic_properties :: implicit_properties

definition certify_implicit_runge_kutta :: "tableau \<Rightarrow> implicit_certificate result" where
  "certify_implicit_runge_kutta t =
     bindE (dense (tb_A t) (stages t)) (\<lambda>A.
     bindE (mapE (\<lambda>x. exact_fraction (VNumber x)) (tb_b t)) (\<lambda>b.
     bindE (mapE (\<lambda>x. exact_fraction (VNumber x)) (tb_c t)) (\<lambda>c.
     bindE (proved_order A b c) (\<lambda>ord.
     Inr \<lparr>ic_A = A, ic_b = b, ic_c = c,
          ic_properties = \<lparr>ip_order = ord, ip_abscissae = c, ip_weights = b, ip_status = ''unverified''\<rparr>\<rparr>))))"

record additive_certificate =
  ac_explicit :: method_certificate
  ac_A :: "rat list list"
  ac_b :: "rat list"
  ac_c :: "rat list"
  ac_order :: method_order
  ac_weights :: "(string \<times> rat list) list"

text \<open>\<^verbatim>\<open>all(_dot(b, c) == 1/2 for b in weights for c in nodes)\<close>, stopping at the first failure.\<close>

fun all_halves :: "(rat list \<times> rat list) list \<Rightarrow> bool result" where
  "all_halves [] = Inr True"
| "all_halves ((b, c) # rest) = bindE (dot b c) (\<lambda>d. if d = 1 / 2 then all_halves rest else Inr False)"

definition certify_additive_runge_kutta :: "additive_tableau \<Rightarrow> additive_certificate result" where
  "certify_additive_runge_kutta t =
     bindE (certify_runge_kutta (ark_explicit t)) (\<lambda>explicit.
     bindE (dense (ark_A t) (stages (ark_explicit t))) (\<lambda>A.
     bindE (mapE (\<lambda>x. exact_fraction (VNumber x)) (ark_b t)) (\<lambda>b.
     bindE (mapE (\<lambda>x. exact_fraction (VNumber x)) (ark_c t)) (\<lambda>c.
     let ec = mp_abscissae (mc_properties explicit); eb = mp_weights (mc_properties explicit) in
     bindE (all_halves [(eb, ec), (eb, c), (b, ec), (b, c)]) (\<lambda>second.
     Inr \<lparr>ac_explicit = explicit, ac_A = A, ac_b = b, ac_c = c,
          ac_order = Order (if second then 2 else 1),
          ac_weights = [(''explicit'', eb), (''implicit'', b)]\<rparr>)))))"

subsection \<open>Arithmetic on lists of the right shape\<close>

text \<open>The matrix-vector product and the inner product as total functions.\<close>

definition inner :: "rat list \<Rightarrow> rat list \<Rightarrow> rat" where
  "inner x y = sum_list (map2 (*) x y)"

definition mul_vec :: "rat list list \<Rightarrow> rat list \<Rightarrow> rat list" where
  "mul_vec A x = map (\<lambda>row. inner row x) A"

definition square :: "nat \<Rightarrow> rat list list \<Rightarrow> bool" where
  "square s A \<longleftrightarrow> length A = s \<and> (\<forall>row\<in>set A. length row = s)"

lemma map2_conv_nth: "length x = length y \<Longrightarrow> map2 f x y = map (\<lambda>i. f (x ! i) (y ! i)) [0..<length x]"
  by (rule nth_equalityI) simp_all

lemma dot_inner [tableau_simps]: "length x = length y \<Longrightarrow> dot x y = Inr (inner x y)"
  by (simp add: dot_def inner_def)

lemma matvec_mul_vec [tableau_simps]: "square s A \<Longrightarrow> length x = s \<Longrightarrow> matvec A x = Inr (mul_vec A x)"
  unfolding matvec_def mul_vec_def
  by (rule mapE_all) (simp add: square_def inner_def map2_conv_nth)

lemma length_mul_vec [simp, tableau_simps]: "length (mul_vec A x) = length A"
  by (simp add: mul_vec_def)

subsection \<open>Rooted trees\<close>

datatype rtree = Branch "rtree list"

fun tree_order :: "rtree \<Rightarrow> nat" where
  "tree_order (Branch ts) = Suc (sum_list (map tree_order ts))"

fun density :: "rtree \<Rightarrow> rat" where
  "density (Branch ts) = of_nat (tree_order (Branch ts)) * prod_list (map density ts)"

fun stage_weights :: "rat list list \<Rightarrow> rtree \<Rightarrow> rat list" where
  "stage_weights A (Branch ts) =
     foldr (map2 (*)) (map (\<lambda>t. mul_vec A (stage_weights A t)) ts) (map (\<lambda>_. 1) A)"

definition order_condition :: "rat list list \<Rightarrow> rat list \<Rightarrow> rtree \<Rightarrow> bool" where
  "order_condition A b t \<longleftrightarrow> inner b (stage_weights A t) = 1 / density t"

abbreviation leaf :: rtree where "leaf \<equiv> Branch []"

text \<open>The rooted trees with at most four vertices, as ordered trees.\<close>

definition small_trees :: "nat \<Rightarrow> rtree list" where
  "small_trees n =
     (if n = 1 then [leaf]
      else if n = 2 then [Branch [leaf]]
      else if n = 3 then [Branch [leaf, leaf], Branch [Branch [leaf]]]
      else if n = 4 then
        [Branch [leaf, leaf, leaf], Branch [leaf, Branch [leaf]], Branch [Branch [leaf], leaf],
         Branch [Branch [leaf, leaf]], Branch [Branch [Branch [leaf]]]]
      else [])"

lemma tree_order_pos: "0 < tree_order t"
  by (cases t) simp

lemma order_one: "tree_order t = Suc 0 \<longleftrightarrow> t = leaf"
proof (cases t)
  case (Branch ts)
  then show ?thesis using tree_order_pos by (cases ts) (auto simp: neq0_conv)
qed

lemma order_two: "tree_order t = 2 \<longleftrightarrow> t = Branch [leaf]"
proof (cases t)
  case (Branch ts)
  then show ?thesis
    using tree_order_pos [of "hd ts"] tree_order_pos [of "hd (tl ts)"] order_one
    by (cases ts rule: remdups_adj.cases) auto
qed

lemma order_three: "tree_order t = 3 \<longleftrightarrow> t \<in> set (small_trees 3)"
proof (cases t)
  case (Branch ts)
  consider "ts = []" | a where "ts = [a]" | a b where "ts = [a, b]" | a b c us where "ts = a # b # c # us"
    by (metis list.exhaust)
  then show ?thesis
  proof cases
    case (3 a b)
    then show ?thesis
      using Branch order_one [of a] order_one [of b] tree_order_pos [of a] tree_order_pos [of b]
      by (auto simp: small_trees_def)
  next
    case (4 a b c us)
    then show ?thesis
      using Branch tree_order_pos [of a] tree_order_pos [of b] tree_order_pos [of c]
      by (auto simp: small_trees_def)
  qed (use Branch order_two in \<open>auto simp: small_trees_def\<close>)
qed

lemma order_four: "tree_order t = 4 \<longleftrightarrow> t \<in> set (small_trees 4)"
proof (cases t)
  case (Branch ts)
  consider "ts = []" | a where "ts = [a]" | a b where "ts = [a, b]" | a b c where "ts = [a, b, c]"
    | a b c d us where "ts = a # b # c # d # us"
    by (metis list.exhaust)
  then show ?thesis
  proof cases
    case (2 a)
    then show ?thesis using Branch order_three [of a] by (auto simp: small_trees_def)
  next
    case (3 a b)
    have "tree_order a + tree_order b = 3 \<longleftrightarrow>
        (tree_order a = 1 \<and> tree_order b = 2) \<or> (tree_order a = 2 \<and> tree_order b = 1)"
      using tree_order_pos [of a] tree_order_pos [of b] by linarith
    then show ?thesis using 3 Branch by (auto simp: small_trees_def order_one order_two)
  next
    case (4 a b c)
    have "tree_order a + (tree_order b + tree_order c) = 3 \<longleftrightarrow>
        tree_order a = 1 \<and> tree_order b = 1 \<and> tree_order c = 1"
      using tree_order_pos [of a] tree_order_pos [of b] tree_order_pos [of c] by linarith
    then show ?thesis using 4 Branch by (auto simp: small_trees_def order_one)
  next
    case (5 a b c d us)
    then show ?thesis
      using Branch tree_order_pos [of a] tree_order_pos [of b] tree_order_pos [of c] tree_order_pos [of d]
      by (auto simp: small_trees_def)
  qed (use Branch in \<open>auto simp: small_trees_def\<close>)
qed

lemma small_trees_complete: "1 \<le> n \<Longrightarrow> n \<le> 4 \<Longrightarrow> tree_order t = n \<longleftrightarrow> t \<in> set (small_trees n)"
proof -
  assume "1 \<le> n" "n \<le> 4"
  then consider "n = 1" | "n = 2" | "n = 3" | "n = 4" by linarith
  then show ?thesis
    using order_one [of t] order_two [of t] order_three [of t] order_four [of t]
    by cases (auto simp: small_trees_def)
qed

text \<open>The conditions of one order, in the form the code tests them.\<close>

definition conditions :: "rat list list \<Rightarrow> rat list \<Rightarrow> nat \<Rightarrow> bool" where
  "conditions A b n \<longleftrightarrow> (\<forall>t. tree_order t = n \<longrightarrow> order_condition A b t)"

lemma conditions_small: "1 \<le> n \<Longrightarrow> n \<le> 4 \<Longrightarrow> conditions A b n \<longleftrightarrow> list_all (order_condition A b) (small_trees n)"
  by (auto simp: conditions_def small_trees_complete list_all_iff)

lemma map2_ones: "length x = length y \<Longrightarrow> map2 (*) x (map (\<lambda>_. 1 :: rat) y) = x"
  by (rule nth_equalityI) simp_all

lemma map2_comm: "map2 (*) x (y :: rat list) = map2 (*) y x"
  by (induction x y rule: list_induct2') simp_all

lemma inner_ones: "length b = length y \<Longrightarrow> inner b (map (\<lambda>_. 1) y) = sum_list b"
  by (simp add: inner_def map2_ones)

lemma map2_cube: "map2 (*) x (map (\<lambda>a. a * a) x) = map (\<lambda>a. a * a * (a :: rat)) x"
  by (induction x) (simp_all add: mult.assoc)

lemma map2_same: "map2 f x x = map (\<lambda>a. f a a) x"
  by (induction x) simp_all

text \<open>An s-stage tableau with its abscissae the row sums.\<close>

definition butcher :: "nat \<Rightarrow> rat list list \<Rightarrow> rat list \<Rightarrow> rat list \<Rightarrow> bool" where
  "butcher s A b c \<longleftrightarrow> square s A \<and> length b = s \<and> c = mul_vec A (map (\<lambda>_. 1) A)"

lemma butcherD:
  assumes "butcher s A b c"
  shows "square s A" "length A = s" "length b = s" "length c = s" "mul_vec A (map (\<lambda>_. 1) A) = c"
  using assms by (simp_all add: butcher_def square_def)

lemma conditions_1: "butcher s A b c \<Longrightarrow> conditions A b (Suc 0) \<longleftrightarrow> sum_list b = 1"
  using butcherD [of s A b c] by (simp add: conditions_small small_trees_def order_condition_def inner_ones)

lemma conditions_2: "butcher s A b c \<Longrightarrow> conditions A b 2 \<longleftrightarrow> inner b c = 1 / 2"
  using butcherD [of s A b c]
  by (simp add: conditions_small small_trees_def order_condition_def map2_ones)

lemma conditions_3:
  "butcher s A b c \<Longrightarrow>
   conditions A b 3 \<longleftrightarrow> inner b (map (\<lambda>x. x * x) c) = 1 / 3 \<and> inner b (mul_vec A c) = 1 / 6"
  using butcherD [of s A b c]
  by (simp add: conditions_small small_trees_def order_condition_def map2_ones map2_same)

lemma conditions_4:
  "butcher s A b c \<Longrightarrow>
   conditions A b 4 \<longleftrightarrow>
     inner b (map (\<lambda>x. x * x * x) c) = 1 / 4 \<and> inner b (map2 (*) c (mul_vec A c)) = 1 / 8
     \<and> inner b (mul_vec A (map (\<lambda>x. x * x) c)) = 1 / 12 \<and> inner b (mul_vec A (mul_vec A c)) = 1 / 24"
  using butcherD [of s A b c]
  by (simp add: conditions_small small_trees_def order_condition_def map2_ones map2_same map2_cube
      map2_comm [of "mul_vec A c" c] conj_ac)

lemma proved_order_cases:
  assumes "butcher s A b c"
  shows "proved_order A b c =
    Inr (if \<not> conditions A b (Suc 0) then UnknownOrder ''first-order consistency condition failed''
         else if \<not> conditions A b 2 then Order 1
         else if \<not> conditions A b 3 then Order 2
         else if \<not> conditions A b 4 then Order 3 else Order 4)"
  using butcherD [OF assms]
  by (simp add: proved_order_def conditions_1 [OF assms] conditions_2 [OF assms] conditions_3 [OF assms]
      conditions_4 [OF assms] dot_inner matvec_mul_vec [of s] map2_conv_nth Let_def)

subsection \<open>Constructed tableaux\<close>

definition finite_number :: "py_number \<Rightarrow> bool" where
  "finite_number n \<longleftrightarrow> is_ok (fraction_of n)"

definition wf_tableau :: "bool \<Rightarrow> tableau \<Rightarrow> bool" where
  "wf_tableau diagonal t \<longleftrightarrow>
     tb_b t \<noteq> [] \<and> length (tb_A t) = length (tb_b t) \<and> length (tb_c t) = length (tb_b t)
     \<and> (\<forall>i<length (tb_A t). length (tb_A t ! i) = i + (if diagonal then 1 else 0))
     \<and> (\<forall>x\<in>set (concat (tb_A t) @ tb_b t @ tb_c t). finite_number x)
     \<and> sum_list (map number_value (tb_b t)) = 1
     \<and> (\<forall>i<length (tb_A t). number_value (tb_c t ! i) = sum_list (map number_value (tb_A t ! i)))
     \<and> tb_name t \<noteq> Some ''''"

lemma fraction_of_value: "fraction_of n = Inr q \<longleftrightarrow> finite_number n \<and> q = number_value n"
  by (cases n) (auto simp: finite_number_def)

lemma fraction_payload: "quotient_of q = (n, d) \<Longrightarrow> quotient_of (Fract n d) = (n', d') \<Longrightarrow> Fract n' d' = q"
  by (metis Fract_of_int_quotient quotient_of_div)

lemma exact_coefficient_number: "finite_number n \<Longrightarrow> exact_coefficient (VNumber n) = Inr n"
proof (cases n)
  case (NFraction q)
  obtain a d where q: "quotient_of q = (a, d)" by (cases "quotient_of q")
  obtain a' d' where q': "quotient_of (Fract a d) = (a', d')" by (cases "quotient_of (Fract a d)")
  have "d \<noteq> 0" using q quotient_of_denom_pos [of q a d] by simp
  then show ?thesis
    using NFraction q q' fraction_payload [OF q q']
    by (simp add: exact_coefficient_def number_payload_def target_name_def mk_literal_def
        check_annotations_def to_python_def)
qed (simp_all add: exact_coefficient_def number_payload_def target_name_def mk_literal_def
    check_annotations_def to_python_def finite_number_def split: if_splits)

lemma exact_coefficient_numberD: "exact_coefficient (VNumber n) = Inr m \<Longrightarrow> finite_number n"
  by (cases n) (auto simp: exact_coefficient_def number_payload_def finite_number_def split: if_splits)

lemma exact_fraction_number: "exact_fraction (VNumber n) = Inr q \<longleftrightarrow> finite_number n \<and> q = number_value n"
proof (cases "finite_number n")
  case True
  then show ?thesis by (auto simp: exact_fraction_def fraction_of_value exact_coefficient_number)
next
  case False
  then show ?thesis by (auto simp: exact_fraction_def dest: exact_coefficient_numberD)
qed

lemma exact_fraction_finite: "finite_number n \<Longrightarrow> exact_fraction (VNumber n) = Inr (number_value n)"
  by (simp add: exact_fraction_number)

lemma list_all2_exact:
  "list_all2 (\<lambda>x q. exact_fraction (VNumber x) = Inr q) xs qs \<longleftrightarrow>
     (\<forall>x\<in>set xs. finite_number x) \<and> qs = map number_value xs"
  by (induction xs arbitrary: qs) (auto simp: exact_fraction_number list_all2_Cons1)

lemma exact_fractions:
  "mapE (\<lambda>x. exact_fraction (VNumber x)) xs = Inr qs \<longleftrightarrow>
     (\<forall>x\<in>set xs. finite_number x) \<and> qs = map number_value xs"
  by (simp add: mapE_eq_Inr list_all2_exact)

lemma fraction_sum_value:
  "fraction_sum xs = Inr q \<longleftrightarrow> (\<forall>x\<in>set xs. finite_number x) \<and> q = sum_list (map number_value xs)"
  by (auto simp: fraction_sum_def exact_fractions)

lemma fraction_sums:
  "mapE fraction_sum A = Inr qs \<longleftrightarrow>
     (\<forall>x\<in>set (concat A). finite_number x) \<and> qs = map (\<lambda>row. sum_list (map number_value row)) A"
  unfolding mapE_eq_Inr
  by (induction A arbitrary: qs) (auto simp: fraction_sum_value list_all2_Cons1)

lemma check_nodes_iff:
  "check_nodes cs totals = Inr u \<longleftrightarrow> (\<forall>x\<in>set cs. finite_number x) \<and> map number_value cs = totals"
  by (induction cs totals rule: check_nodes.induct) (auto simp: exact_fraction_number)


lemma rows_loop_shape:
  "rows_loop s diagonal i A = Inr rs \<Longrightarrow>
   length rs = length A \<and> (\<forall>k<length rs. length (rs ! k) = i + k + (if diagonal then 1 else 0))"
proof (induction s diagonal i A arbitrary: rs rule: rows_loop.induct)
  case (2 s diagonal i raw A)
  then obtain row rest where r: "mapE exact_coefficient raw = Inr row" "rows_loop s diagonal (Suc i) A = Inr rest"
    "rs = take (i + (if diagonal then 1 else 0)) row # rest" "i + (if diagonal then 1 else 0) \<le> length raw"
    by (auto simp: Let_def)
  have "length row = length raw" using r(1) by (rule mapE_Inr_length)
  moreover have "length rest = length A \<and>
      (\<forall>k<length rest. length (rest ! k) = Suc i + k + (if diagonal then 1 else 0))"
    using "2.IH" r "2.prems" by (auto simp: Let_def)
  ultimately show ?case using r by (auto simp: nth_Cons split: nat.split)
qed simp


lemma mk_tableau_wf: "mk_tableau diagonal A b c name = Inr t \<Longrightarrow> wf_tableau diagonal t"
proof -
  assume "mk_tableau diagonal A b c name = Inr t"
  then obtain ws rs cs where
    ws: "weights b = Inr ws" and rs: "rows A (length ws) diagonal = Inr rs"
    and total: "fraction_sum ws = Inr 1" and name: "name \<noteq> Some ''''" and cs: "nodes rs c = Inr cs"
    and t: "t = \<lparr>tb_A = rs, tb_b = ws, tb_c = cs, tb_name = name\<rparr>"
    by (auto simp: mk_tableau_def)
  have "length rs = length ws" "\<forall>k<length rs. length (rs ! k) = k + (if diagonal then 1 else 0)"
    using rs rows_loop_shape [of "length ws" diagonal 0 A rs] by (auto simp: rows_def)
  moreover have "ws \<noteq> []" using ws by (auto simp: weights_def)
  moreover have "\<forall>x\<in>set (concat rs). finite_number x" "\<forall>x\<in>set cs. finite_number x"
    "map number_value cs = map (\<lambda>row. sum_list (map number_value row)) rs"
    using cs by (auto simp: nodes_def fraction_sums check_nodes_iff finite_number_def split: option.splits)
  moreover from this(3) have "length cs = length rs" by (metis length_map)
  moreover have "number_value (cs ! i) = sum_list (map number_value (rs ! i))" if "i < length rs" for i
    using \<open>map number_value cs = _\<close> \<open>length cs = length rs\<close> that by (metis nth_map)
  ultimately show ?thesis
    using total name by (simp add: t wf_tableau_def fraction_sum_value ball_Un)
qed


subsection \<open>Certificates of constructed tableaux\<close>

text \<open>The dense rational array of a tableau: missing entries are zero.\<close>

definition padded :: "nat \<Rightarrow> py_number list \<Rightarrow> rat list" where
  "padded s row = map (\<lambda>j. if j < length row then number_value (row ! j) else 0) [0..<s]"

definition dense_values :: "tableau \<Rightarrow> rat list list" where
  "dense_values t = map (padded (stages t)) (tb_A t)"

lemma length_padded [simp]: "length (padded s row) = s"
  by (simp add: padded_def)

lemma dense_padded:
  assumes "\<forall>x\<in>set (concat A). finite_number x" "length A = s"
  shows "dense A s = Inr (map (padded s) A)"
proof -
  have "dense A s = Inr (map (\<lambda>i. padded s (A ! i)) [0..<s])"
    unfolding dense_def
  proof (rule mapE_all)
    fix i assume "i \<in> set [0..<s]"
    then have i: "i < length A" using assms(2) by simp
    have "dense_row s (A ! i) = Inr (padded s (A ! i))"
      unfolding dense_row_def padded_def
      using assms(1) nth_mem [OF i] by (intro mapE_all) (auto simp: exact_fraction_finite)
    then show "(if i < length A then dense_row s (A ! i) else Inl (IndexError ''tuple index out of range'')) =
        Inr (padded s (A ! i))" using i by simp
  qed
  also have "map (\<lambda>i. padded s (A ! i)) [0..<s] = map (padded s) A"
    using assms(2) by (auto intro: nth_equalityI)
  finally show ?thesis .
qed

lemma sum_padded: "length row \<le> s \<Longrightarrow> sum_list (padded s row) = sum_list (map number_value row)"
proof -
  assume le: "length row \<le> s"
  have "padded s row = map number_value row @ replicate (s - length row) 0"
    using le by (intro nth_equalityI) (auto simp: padded_def nth_append)
  then show ?thesis by (simp add: sum_list_replicate)
qed

lemma row_length:
  "wf_tableau diagonal t \<Longrightarrow> row \<in> set (tb_A t) \<Longrightarrow> length row \<le> stages t"
  by (auto simp: wf_tableau_def stages_def in_set_conv_nth)

lemma wf_tableau_butcher:
  assumes "wf_tableau diagonal t"
  shows "butcher (stages t) (dense_values t) (map number_value (tb_b t)) (map number_value (tb_c t))"
proof -
  have len: "length (tb_A t) = stages t" "length (tb_c t) = stages t" "length (tb_b t) = stages t"
    using assms by (simp_all add: wf_tableau_def stages_def)
  have "map number_value (tb_c t) = mul_vec (dense_values t) (map (\<lambda>_. 1) (dense_values t))"
  proof (rule nth_equalityI)
    fix i assume "i < length (map number_value (tb_c t))"
    then have i: "i < length (tb_A t)" using len by simp
    have "inner (padded (stages t) (tb_A t ! i)) (map (\<lambda>_. 1) (dense_values t)) =
        sum_list (padded (stages t) (tb_A t ! i))"
      by (rule inner_ones) (simp add: dense_values_def len)
    also have "\<dots> = sum_list (map number_value (tb_A t ! i))"
      using row_length [OF assms nth_mem [OF i]] by (rule sum_padded)
    finally show "map number_value (tb_c t) ! i = mul_vec (dense_values t) (map (\<lambda>_. 1) (dense_values t)) ! i"
      using assms i len by (simp add: wf_tableau_def mul_vec_def dense_values_def)
  qed (simp add: len dense_values_def)
  then show ?thesis by (simp add: butcher_def square_def dense_values_def len)
qed

lemma wf_tableau_fractions:
  assumes "wf_tableau diagonal t"
  shows "dense (tb_A t) (stages t) = Inr (dense_values t)"
    "mapE (\<lambda>x. exact_fraction (VNumber x)) (tb_b t) = Inr (map number_value (tb_b t))"
    "mapE (\<lambda>x. exact_fraction (VNumber x)) (tb_c t) = Inr (map number_value (tb_c t))"
  using assms dense_padded [of "tb_A t" "stages t"]
  by (auto simp: wf_tableau_def dense_values_def stages_def exact_fractions ball_Un)

text \<open>The powers of the array applied to the vector of ones.\<close>

fun power_vec :: "rat list list \<Rightarrow> nat \<Rightarrow> rat list \<Rightarrow> rat list" where
  "power_vec A 0 x = x"
| "power_vec A (Suc k) x = mul_vec A (power_vec A k x)"

lemma power_vec_shift: "power_vec A k (mul_vec A x) = power_vec A (Suc k) x"
  by (induction k) simp_all

lemma length_power_vec [simp]: "length x = length A \<Longrightarrow> length (power_vec A k x) = length A"
  by (cases k) simp_all

lemma stability_loop_powers:
  assumes "square s A" "length b = s" "length x = s"
  shows "stability_loop n A b x acc = Inr (acc @ map (\<lambda>k. inner b (power_vec A k x)) [0..<n])"
  using assms(3)
proof (induction n arbitrary: x acc)
  case (Suc n)
  have "map (\<lambda>k. inner b (power_vec A k x)) [0..<Suc n] =
      inner b x # map (\<lambda>k. inner b (power_vec A k (mul_vec A x))) [0..<n]"
    by (simp add: upt_conv_Cons map_Suc_upt [symmetric] power_vec_shift comp_def del: upt_Suc)
  moreover have "length (mul_vec A x) = s" using assms(1) by (simp add: square_def)
  ultimately show ?case
    using assms Suc by (simp add: dot_inner matvec_mul_vec [of s])
qed simp

lemma stability_powers:
  assumes "square s A" "length b = s"
  shows "stability A b = Inr (pop_zeros (1 # map (\<lambda>k. inner b (power_vec A k (map (\<lambda>_. 1) A))) [0..<s]))"
proof -
  have "map (\<lambda>_. 1) b = map (\<lambda>_. 1 :: rat) A"
    using assms by (intro nth_equalityI) (auto simp: square_def)
  then show ?thesis
    using assms by (simp add: stability_def stability_loop_powers [of s] square_def)
qed

lemma certificate_total:
  assumes "butcher s A b c"
  shows "is_ok (certificate_from_coefficients A b c)"
  using butcherD [OF assms] proved_order_cases [OF assms]
  by (simp add: certificate_from_coefficients_def stability_powers [of s])

lemma wf_tableau_certificate:
  assumes "wf_tableau diagonal t"
  shows "certify_runge_kutta t =
    certificate_from_coefficients (dense_values t) (map number_value (tb_b t)) (map number_value (tb_c t))"
  by (simp add: certify_runge_kutta_def wf_tableau_fractions [OF assms])


lemma certificate_fields:
  assumes "certificate_from_coefficients A b c = Inr cert"
  shows "mc_A cert = A" "mc_b cert = b" "mc_c cert = c"
    "proved_order A b c = Inr (mp_order (mc_properties cert))"
    "stability A b = Inr (mp_stability (mc_properties cert))"
    "mp_ssp (mc_properties cert) = map_of known_ssp (A, b, c)"
  using assms by (auto simp: certificate_from_coefficients_def)

text \<open>
  C34. The order in the certificate of a constructed tableau is exact up to four: the certificate exists,
  its order is between one and four, every rooted tree with at most that many vertices satisfies Butcher's
  order condition, and when the order is below four some tree with one more vertex violates it.
\<close>

theorem certified_order_exact:
  assumes "mk_tableau diagonal A b c name = Inr t"
  shows "\<exists>cert p. certify_runge_kutta t = Inr cert \<and> mp_order (mc_properties cert) = Order p
    \<and> mc_A cert = dense_values t \<and> mc_b cert = map number_value (tb_b t)
    \<and> 1 \<le> p \<and> p \<le> 4
    \<and> (\<forall>\<tau>. tree_order \<tau> \<le> p \<longrightarrow> order_condition (mc_A cert) (mc_b cert) \<tau>)
    \<and> (p < 4 \<longrightarrow> (\<exists>\<tau>. tree_order \<tau> = p + 1 \<and> \<not> order_condition (mc_A cert) (mc_b cert) \<tau>))"
proof -
  define A' b' c' where d: "A' = dense_values t" "b' = map number_value (tb_b t)" "c' = map number_value (tb_c t)"
  have wf: "wf_tableau diagonal t" using assms by (rule mk_tableau_wf)
  then have but: "butcher (stages t) A' b' c'" unfolding d by (rule wf_tableau_butcher)
  have "sum_list b' = 1" using wf by (simp add: d wf_tableau_def)
  then have one: "conditions A' b' (Suc 0)" by (simp add: conditions_1 [OF but])
  obtain cert where cert: "certificate_from_coefficients A' b' c' = Inr cert"
    using certificate_total [OF but] by (auto simp: is_ok_iff)
  have upto: "\<forall>\<tau>. tree_order \<tau> \<le> p \<longrightarrow> order_condition A' b' \<tau>"
    if "\<forall>n. 1 \<le> n \<and> n \<le> p \<longrightarrow> conditions A' b' n" for p
    using that tree_order_pos by (auto simp: conditions_def Suc_le_eq)
  have "\<exists>p. proved_order A' b' c' = Inr (Order p) \<and> 1 \<le> p \<and> p \<le> 4
      \<and> (\<forall>n. 1 \<le> n \<and> n \<le> p \<longrightarrow> conditions A' b' n) \<and> (p < 4 \<longrightarrow> \<not> conditions A' b' (p + 1))"
    using one by (auto simp: proved_order_cases [OF but] le_Suc_eq numeral_eq_Suc)
  then obtain p where "proved_order A' b' c' = Inr (Order p)" "1 \<le> p" "p \<le> 4"
    "\<forall>n. 1 \<le> n \<and> n \<le> p \<longrightarrow> conditions A' b' n" "p < 4 \<longrightarrow> \<not> conditions A' b' (p + 1)" by blast
  then show ?thesis
    using certificate_fields [OF cert] cert wf_tableau_certificate [OF wf] upto [of p]
    by (intro exI [of _ cert] exI [of _ p]) (auto simp: d conditions_def)
qed

definition ints :: "int list \<Rightarrow> scalar_value list" where
  "ints = map (\<lambda>n. VNumber (NInt n))"

definition ratios :: "rat list \<Rightarrow> scalar_value list" where
  "ratios = map (\<lambda>q. VNumber (NFraction q))"

lemma ssprk3_certified:
  "bindE (runge_kutta_tableau [ints [], ints [1], ratios [1 / 4, 1 / 4]] (ratios [1 / 6, 1 / 6, 2 / 3]) None None)
     certify_runge_kutta =
   Inr \<lparr>mc_A = [[0, 0, 0], [1, 0, 0], [1 / 4, 1 / 4, 0]], mc_b = [1 / 6, 1 / 6, 2 / 3], mc_c = [0, 1, 1 / 2],
     mc_properties = \<lparr>mp_order = Order 3, mp_abscissae = [0, 1, 1 / 2], mp_stability = [1, 1, 1 / 2, 1 / 6],
       mp_weights = [1 / 6, 1 / 6, 2 / 3],
       mp_ssp = Some \<lparr>ssp_coefficient = 1, ssp_source = ''exact Shu-Osher convex decomposition''\<rparr>\<rparr>\<rparr>"
  by code_simp

text \<open>Both steps succeed together, so the tableau of the sample exists.\<close>

lemma ssprk3_parts:
  obtains t cert where
    "runge_kutta_tableau [ints [], ints [1], ratios [1 / 4, 1 / 4]] (ratios [1 / 6, 1 / 6, 2 / 3]) None None = Inr t"
    "certify_runge_kutta t = Inr cert" "mc_A cert = [[0, 0, 0], [1, 0, 0], [1 / 4, 1 / 4, 0]]"
    "mc_b cert = [1 / 6, 1 / 6, 2 / 3]" "mp_order (mc_properties cert) = Order 3"
    "mp_stability (mc_properties cert) = [1, 1, 1 / 2, 1 / 6]"
    "\<exists>ssp. mp_ssp (mc_properties cert) = Some ssp \<and> ssp_coefficient ssp = 1"
  using ssprk3_certified unfolding bindE_eq_Inr by fastforce

theorem certified_order_exact_witness:
  "\<exists>t cert. mk_tableau False [ints [], ints [1], ratios [1 / 4, 1 / 4]] (ratios [1 / 6, 1 / 6, 2 / 3]) None None = Inr t
     \<and> certify_runge_kutta t = Inr cert \<and> mp_order (mc_properties cert) = Order 3
     \<and> (\<exists>\<tau>. tree_order \<tau> = 4 \<and> \<not> order_condition (mc_A cert) (mc_b cert) \<tau>)"
proof -
  obtain t cert where s:
    "mk_tableau False [ints [], ints [1], ratios [1 / 4, 1 / 4]] (ratios [1 / 6, 1 / 6, 2 / 3]) None None = Inr t"
    "certify_runge_kutta t = Inr cert" "mp_order (mc_properties cert) = Order 3"
    by (rule ssprk3_parts) (auto simp: runge_kutta_tableau_def)
  show ?thesis using certified_order_exact [OF s(1)] s by auto
qed

subsection \<open>The step of a method\<close>

text \<open>
  One explicit step of size \<open>h\<close> from \<open>u\<close>: the rates are computed stage by stage from the previous ones;
  \<open>f i\<close> is the right-hand side that stage \<open>i\<close> evaluates.
\<close>

definition combo :: "rat list \<Rightarrow> 'v :: real_vector list \<Rightarrow> 'v" where
  "combo row ks = sum_list (map2 (\<lambda>a k. real_of_rat a *\<^sub>R k) row ks)"

fun rk_rates :: "(nat \<Rightarrow> 'v \<Rightarrow> 'v) \<Rightarrow> real \<Rightarrow> 'v \<Rightarrow> rat list list \<Rightarrow> 'v :: real_vector list \<Rightarrow> 'v list" where
  "rk_rates f h u [] ks = ks"
| "rk_rates f h u (row # A) ks = rk_rates f h u A (ks @ [f (length ks) (u + h *\<^sub>R combo row ks)])"

definition rk_step :: "(nat \<Rightarrow> 'v \<Rightarrow> 'v) \<Rightarrow> real \<Rightarrow> rat list list \<Rightarrow> rat list \<Rightarrow> 'v \<Rightarrow> 'v :: real_vector" where
  "rk_step f h A b u = u + h *\<^sub>R combo b (rk_rates f h u A [])"

definition poly_value :: "rat list \<Rightarrow> complex \<Rightarrow> complex" where
  "poly_value p z = (\<Sum>k<length p. of_real (real_of_rat (p ! k)) * z ^ k)"

lemma combo_sum:
  "combo row ks = (\<Sum>j<min (length row) (length ks). real_of_rat (row ! j) *\<^sub>R ks ! j)"
  by (simp add: combo_def sum_list_sum_nth atLeast0LessThan min_def)

lemma inner_sum: "length x = length y \<Longrightarrow> inner x y = (\<Sum>j<length x. x ! j * y ! j)"
  by (simp add: inner_def sum_list_sum_nth atLeast0LessThan)

definition strictly_lower :: "rat list list \<Rightarrow> bool" where
  "strictly_lower A \<longleftrightarrow> (\<forall>i<length A. \<forall>j. i \<le> j \<and> j < length (A ! i) \<longrightarrow> A ! i ! j = 0)"

lemma poly_value_pop_zeros: "poly_value (pop_zeros p) z = poly_value p z"
proof (induction p rule: pop_zeros.induct)
  case (1 p)
  show ?case
  proof (cases "1 < length p \<and> last p = 0")
    case True
    then have p: "p = butlast p @ [0]" by (metis append_butlast_last_id length_0_conv not_one_less_zero)
    have "poly_value p z = poly_value (butlast p) z"
      by (subst (1) p) (simp add: poly_value_def nth_append del: append_butlast_last_id)
    then show ?thesis using True 1 by (subst pop_zeros.simps) simp
  qed (subst pop_zeros.simps, auto)
qed

text \<open>A strictly lower triangular array is nilpotent.\<close>

lemma power_vec_zero:
  assumes "square s A" "strictly_lower A" "length x = s"
  shows "i < k \<Longrightarrow> i < s \<Longrightarrow> power_vec A k x ! i = 0"
proof (induction k arbitrary: i)
  case (Suc k)
  have A: "length A = s" "length (A ! i) = s" using assms(1) Suc.prems by (auto simp: square_def)
  have "A ! i ! j * power_vec A k x ! j = 0" if "j < s" for j
  proof (cases "j < i")
    case True
    then show ?thesis using Suc that by simp
  next
    case False
    then show ?thesis using assms(2) A Suc.prems that by (simp add: strictly_lower_def)
  qed
  then have "(\<Sum>j < s. A ! i ! j * power_vec A k x ! j) = 0" by (intro sum.neutral) blast
  then show ?case
    using A assms(3) Suc.prems by (simp add: mul_vec_def inner_sum)
qed simp

text \<open>The stage values of the test equation are a finite Neumann series.\<close>

definition neumann :: "rat list list \<Rightarrow> complex \<Rightarrow> nat \<Rightarrow> complex" where
  "neumann A z i = (\<Sum>k<length A. of_real (real_of_rat (power_vec A k (map (\<lambda>_. 1) A) ! i)) * z ^ k)"

lemma neumann_step:
  assumes "square s A" "strictly_lower A" "i < s"
  shows "1 + z * (\<Sum>j < s. of_real (real_of_rat (A ! i ! j)) * neumann A z j) = neumann A z i"
proof -
  let ?p = "\<lambda>k i. complex_of_real (real_of_rat (power_vec A k (map (\<lambda>_. 1) A) ! i))"
  have len: "length A = s" "length (A ! i) = s" using assms by (auto simp: square_def)
  have next_power: "?p (Suc k) i = (\<Sum>j < s. of_real (real_of_rat (A ! i ! j)) * ?p k j)" for k
    using len assms(3) by (simp add: mul_vec_def inner_sum of_rat_sum of_rat_mult)
  have "(\<Sum>j < s. of_real (real_of_rat (A ! i ! j)) * neumann A z j) = (\<Sum>k < s. ?p (Suc k) i * z ^ k)"
    unfolding neumann_def len next_power sum_distrib_left sum_distrib_right mult.assoc by (rule sum.swap)
  then have "1 + z * (\<Sum>j < s. of_real (real_of_rat (A ! i ! j)) * neumann A z j) =
      ?p 0 i * z ^ 0 + (\<Sum>k < s. ?p (Suc k) i * z ^ Suc k)"
    using len assms(3) by (simp add: sum_distrib_left mult_ac)
  also have "\<dots> = (\<Sum>k<Suc s. ?p k i * z ^ k)" by (simp add: sum.lessThan_Suc_shift del: sum.lessThan_Suc)
  also have "\<dots> = neumann A z i"
    using power_vec_zero [OF assms(1,2), of "map (\<lambda>_. 1) A" i s] len assms(3) by (simp add: neumann_def)
  finally show ?thesis .
qed

lemma rk_rates_test_equation:
  assumes "square s A" "strictly_lower A" "n \<le> s"
  shows "rk_rates (\<lambda>_ y. l * y) h u (drop n A) (map (\<lambda>i. l * u * neumann A (of_real h * l) i) [0..<n]) =
    map (\<lambda>i. l * u * neumann A (of_real h * l) i) [0..<s]"
  using assms(3)
proof (induction n rule: inc_induct)
  case base
  then show ?case using assms(1) by (simp add: square_def)
next
  case (step n)
  let ?N = "neumann A (of_real h * l)"
  have len: "length A = s" "length (A ! n) = s" using assms(1) step.hyps by (auto simp: square_def)
  have "combo (A ! n) (map (\<lambda>i. l * u * ?N i) [0..<n]) =
      (\<Sum>j<n. of_real (real_of_rat (A ! n ! j)) * (l * u * ?N j))"
    using step.hyps len by (simp add: combo_sum min_def scaleR_conv_of_real)
  also have "\<dots> = (\<Sum>j < s. of_real (real_of_rat (A ! n ! j)) * (l * u * ?N j))"
    using step.hyps len assms(2) by (intro sum.mono_neutral_left) (auto simp: strictly_lower_def)
  finally have combo: "combo (A ! n) (map (\<lambda>i. l * u * ?N i) [0..<n]) =
      l * u * (\<Sum>j < s. of_real (real_of_rat (A ! n ! j)) * ?N j)"
    by (simp add: sum_distrib_left mult_ac)
  have "l * (u + h *\<^sub>R combo (A ! n) (map (\<lambda>i. l * u * ?N i) [0..<n])) =
      l * u * (1 + (of_real h * l) * (\<Sum>j < s. of_real (real_of_rat (A ! n ! j)) * ?N j))"
    unfolding combo by (simp add: scaleR_conv_of_real algebra_simps)
  also have "\<dots> = l * u * ?N n" using neumann_step [OF assms(1,2)] step.hyps by simp
  finally have "rk_rates (\<lambda>_ y. l * y) h u (A ! n # drop (Suc n) A) (map (\<lambda>i. l * u * ?N i) [0..<n]) =
      rk_rates (\<lambda>_ y. l * y) h u (drop (Suc n) A) (map (\<lambda>i. l * u * ?N i) [0..<Suc n])"
    by (simp only: rk_rates.simps) simp
  then show ?case using step len by (simp add: Cons_nth_drop_Suc)
qed

lemma test_equation_step:
  assumes "square s A" "strictly_lower A" "length b = s" "stability A b = Inr p"
  shows "rk_step (\<lambda>_ y. l * y) h A b u = poly_value p (of_real h * l) * u"
proof -
  let ?z = "of_real h * l"
  let ?q = "map (\<lambda>k. inner b (power_vec A k (map (\<lambda>_. 1) A))) [0..<s]"
  have len: "length A = s" using assms(1) by (simp add: square_def)
  have "rk_rates (\<lambda>_ y. l * y) h u A [] = map (\<lambda>i. l * u * neumann A ?z i) [0..<s]"
    using rk_rates_test_equation [OF assms(1,2), of 0] by simp
  then have "combo b (rk_rates (\<lambda>_ y. l * y) h u A []) =
      l * u * (\<Sum>i < s. of_real (real_of_rat (b ! i)) * neumann A ?z i)"
    using assms(3) by (simp add: combo_sum scaleR_conv_of_real sum_distrib_left mult_ac)
  also have "(\<Sum>i < s. of_real (real_of_rat (b ! i)) * neumann A ?z i) =
      (\<Sum>k < s. of_real (real_of_rat (?q ! k)) * ?z ^ k)"
    using assms(3) len
    by (simp add: neumann_def inner_sum of_rat_sum of_rat_mult sum_distrib_left sum_distrib_right mult.assoc)
      (rule sum.swap)
  finally have "rk_step (\<lambda>_ y. l * y) h A b u =
      (1 + ?z * (\<Sum>k < s. of_real (real_of_rat (?q ! k)) * ?z ^ k)) * u"
    by (simp add: rk_step_def scaleR_conv_of_real algebra_simps)
  also have "1 + ?z * (\<Sum>k < s. of_real (real_of_rat (?q ! k)) * ?z ^ k) = poly_value (1 # ?q) ?z"
    by (simp add: poly_value_def sum.lessThan_Suc_shift sum_distrib_left mult_ac del: sum.lessThan_Suc)
  finally have "rk_step (\<lambda>_ y. l * y) h A b u = poly_value (1 # ?q) ?z * u" .
  moreover have "p = pop_zeros (1 # ?q)" using assms(4) by (simp add: stability_powers [OF assms(1,3)])
  ultimately show ?thesis by (simp only: poly_value_pop_zeros)
qed

lemma strictly_lower_dense: "wf_tableau False t \<Longrightarrow> strictly_lower (dense_values t)"
  by (auto simp: wf_tableau_def strictly_lower_def dense_values_def padded_def stages_def)

text \<open>
  C35. The stability polynomial of a certificate is the stability function of the method: one step of an
  explicit tableau on the linear test equation \<open>y' = l y\<close> with a complex rate multiplies the value by the
  polynomial at \<open>h l\<close>.
\<close>

theorem stability_polynomial_is_step:
  assumes "runge_kutta_tableau A b c name = Inr t" "certify_runge_kutta t = Inr cert"
  shows "rk_step (\<lambda>_ y. l * y) h (mc_A cert) (mc_b cert) u =
    poly_value (mp_stability (mc_properties cert)) (of_real h * l) * u"
proof -
  have wf: "wf_tableau False t" using assms(1) mk_tableau_wf by (auto simp: runge_kutta_tableau_def)
  note cert = certificate_fields [OF assms(2) [unfolded wf_tableau_certificate [OF wf]]]
  show ?thesis
    unfolding cert(1,2)
    using butcherD [OF wf_tableau_butcher [OF wf]] strictly_lower_dense [OF wf] cert(5)
    by (intro test_equation_step)
qed

theorem stability_polynomial_is_step_witness:
  "rk_step (\<lambda>_ y. \<i> * y) 2 [[0, 0, 0], [1, 0, 0], [1 / 4, 1 / 4, 0]] [1 / 6, 1 / 6, 2 / 3] 3 =
     poly_value [1, 1, 1 / 2, 1 / 6] (of_real 2 * \<i>) * 3"
proof (rule ssprk3_parts)
  fix t cert
  assume s: "runge_kutta_tableau [ints [], ints [1], ratios [1 / 4, 1 / 4]] (ratios [1 / 6, 1 / 6, 2 / 3]) None None = Inr t"
    "certify_runge_kutta t = Inr cert" "mc_A cert = [[0, 0, 0], [1, 0, 0], [1 / 4, 1 / 4, 0]]"
    "mc_b cert = [1 / 6, 1 / 6, 2 / 3]" "mp_stability (mc_properties cert) = [1, 1, 1 / 2, 1 / 6]"
  show ?thesis using stability_polynomial_is_step [OF s(1,2), of \<i> 2 3] unfolding s .
qed

subsection \<open>Strong stability\<close>

definition convex_set :: "'v :: real_vector set \<Rightarrow> bool" where
  "convex_set S \<longleftrightarrow> (\<forall>x\<in>S. \<forall>y\<in>S. \<forall>t. 0 \<le> t \<and> t \<le> 1 \<longrightarrow> (1 - t) *\<^sub>R x + t *\<^sub>R y \<in> S)"

definition euler_keeps :: "('v :: real_vector \<Rightarrow> 'v) \<Rightarrow> real \<Rightarrow> 'v set \<Rightarrow> bool" where
  "euler_keeps f h S \<longleftrightarrow> (\<forall>u\<in>S. u + h *\<^sub>R f u \<in> S)"

lemma convex_setD: "convex_set S \<Longrightarrow> x \<in> S \<Longrightarrow> y \<in> S \<Longrightarrow> 0 \<le> t \<Longrightarrow> t \<le> 1 \<Longrightarrow> (1 - t) *\<^sub>R x + t *\<^sub>R y \<in> S"
  by (auto simp: convex_set_def)

text \<open>A shorter forward Euler step is a convex combination of staying and stepping.\<close>

lemma euler_keeps_shorter:
  assumes "convex_set S" "euler_keeps f h S" "0 \<le> k" "k \<le> h"
  shows "euler_keeps f k S"
  unfolding euler_keeps_def
proof
  fix u assume u: "u \<in> S"
  show "u + k *\<^sub>R f u \<in> S"
  proof (cases "h = 0")
    case False
    have "(1 - k / h) *\<^sub>R u + (k / h) *\<^sub>R (u + h *\<^sub>R f u) \<in> S"
      using assms u False by (intro convex_setD) (auto simp: euler_keeps_def divide_le_eq)
    moreover have "(1 - k / h) *\<^sub>R u + (k / h) *\<^sub>R (u + h *\<^sub>R f u) = u + k *\<^sub>R f u"
      using False by (simp add: scaleR_add_right scaleR_diff_left)
    ultimately show ?thesis by simp
  qed (use assms u in \<open>simp add: euler_keeps_def\<close>)
qed

lemma ssprk2_keeps:
  assumes "convex_set S" "euler_keeps f h S" "u \<in> S"
  shows "rk_step (\<lambda>_. f) h [[0, 0], [1, 0]] [1 / 2, 1 / 2] u \<in> S"
proof -
  define u1 where "u1 = u + h *\<^sub>R f u"
  have "u1 \<in> S" "u1 + h *\<^sub>R f u1 \<in> S" using assms by (simp_all add: u1_def euler_keeps_def)
  then have "(1 - 1 / 2) *\<^sub>R u + (1 / 2) *\<^sub>R (u1 + h *\<^sub>R f u1) \<in> S" using assms by (intro convex_setD) auto
  moreover have "(1 - 1 / 2) *\<^sub>R u + (1 / 2) *\<^sub>R (u1 + h *\<^sub>R f u1) =
      rk_step (\<lambda>_. f) h [[0, 0], [1, 0]] [1 / 2, 1 / 2] u"
    by (simp add: rk_step_def combo_def u1_def of_rat_divide scaleR_add_right
        scaleR_add_left [of "1 / 2" "1 / 2" u, simplified, symmetric])
  ultimately show ?thesis by simp
qed

lemma convex_split:
  "(3 / 4) *\<^sub>R u + (1 / 4) *\<^sub>R u = u" "(3 / 4) *\<^sub>R u + ((1 / 4) *\<^sub>R u + w) = u + w"
  "(1 / 3) *\<^sub>R u + (2 / 3) *\<^sub>R u = u" "(1 / 3) *\<^sub>R u + ((2 / 3) *\<^sub>R u + w) = u + w"
  for u w :: "'v :: real_vector"
  by (simp_all add: add.assoc [symmetric] scaleR_add_left [symmetric])

lemma ssprk3_keeps:
  assumes "convex_set S" "euler_keeps f h S" "u \<in> S"
  shows "rk_step (\<lambda>_. f) h [[0, 0, 0], [1, 0, 0], [1 / 4, 1 / 4, 0]] [1 / 6, 1 / 6, 2 / 3] u \<in> S"
proof -
  define u1 where "u1 = u + h *\<^sub>R f u"
  define u2 where "u2 = (1 - 1 / 4) *\<^sub>R u + (1 / 4) *\<^sub>R (u1 + h *\<^sub>R f u1)"
  have "u1 \<in> S" "u1 + h *\<^sub>R f u1 \<in> S" using assms by (simp_all add: u1_def euler_keeps_def)
  then have "u2 \<in> S" unfolding u2_def using assms by (intro convex_setD) auto
  then have "u2 + h *\<^sub>R f u2 \<in> S" using assms by (simp add: euler_keeps_def)
  then have "(1 - 2 / 3) *\<^sub>R u + (2 / 3) *\<^sub>R (u2 + h *\<^sub>R f u2) \<in> S" using assms by (intro convex_setD) auto
  moreover have u2: "u2 = u + h *\<^sub>R ((1 / 4) *\<^sub>R f u + (1 / 4) *\<^sub>R f u1)"
    by (simp add: u2_def u1_def scaleR_add_right convex_split)
  moreover have "(1 - 2 / 3) *\<^sub>R u + (2 / 3) *\<^sub>R (u2 + h *\<^sub>R f u2) =
      u + h *\<^sub>R ((1 / 6) *\<^sub>R f u + (1 / 6) *\<^sub>R f u1 + (2 / 3) *\<^sub>R f u2)"
    unfolding u2 by (simp add: scaleR_add_right convex_split)
  moreover have "u + h *\<^sub>R ((1 / 6) *\<^sub>R f u + (1 / 6) *\<^sub>R f u1 + (2 / 3) *\<^sub>R f u2) =
      rk_step (\<lambda>_. f) h [[0, 0, 0], [1, 0, 0], [1 / 4, 1 / 4, 0]] [1 / 6, 1 / 6, 2 / 3] u"
    unfolding u2 by (simp add: rk_step_def combo_def u1_def of_rat_divide add.assoc)
  ultimately show ?thesis by simp
qed

lemma euler_step_keeps: "euler_keeps f h S \<Longrightarrow> u \<in> S \<Longrightarrow> rk_step (\<lambda>_. f) h [[0]] [1] u \<in> S"
  by (simp add: rk_step_def combo_def euler_keeps_def)

text \<open>
  C36. A tableau that carries an SSP certificate with coefficient \<open>r\<close> preserves every convex set that
  forward Euler preserves at step \<open>h\<close>, for every step up to \<open>r h\<close>, whatever the right-hand side.
\<close>

theorem ssp_certificate_sound:
  fixes S :: "'v :: real_vector set"
  assumes "runge_kutta_tableau A b c name = Inr t" "certify_runge_kutta t = Inr cert"
    and "mp_ssp (mc_properties cert) = Some ssp" "convex_set S" "euler_keeps f h S"
    and "0 \<le> k" "k \<le> real_of_rat (ssp_coefficient ssp) * h" "u \<in> S"
  shows "rk_step (\<lambda>_. f) k (mc_A cert) (mc_b cert) u \<in> S"
proof -
  have wf: "wf_tableau False t" using assms(1) mk_tableau_wf by (auto simp: runge_kutta_tableau_def)
  note cert = certificate_fields [OF assms(2) [unfolded wf_tableau_certificate [OF wf]]]
  have key: "(mc_A cert, mc_b cert, mc_c cert) \<in> {([[0]], [1], [0]), ssprk2_key, ssprk3_key}"
    and coefficient: "ssp_coefficient ssp = 1"
    using assms(3) by (auto simp: cert known_ssp_def split: if_splits)
  have "euler_keeps f k S"
    using assms(4-7) coefficient by (intro euler_keeps_shorter [of S f h k]) auto
  then show ?thesis
    using key euler_step_keeps ssprk2_keeps [OF assms(4)] ssprk3_keeps [OF assms(4)] assms(8)
    by (auto simp: ssprk2_key_def ssprk3_key_def)
qed

text \<open>Decay \<open>y' = - y\<close> keeps the non-negative numbers under forward Euler with step one.\<close>

theorem ssp_certificate_sound_witness:
  "rk_step (\<lambda>_ y :: real. - y) (1 / 2) [[0, 0, 0], [1, 0, 0], [1 / 4, 1 / 4, 0]] [1 / 6, 1 / 6, 2 / 3] 3 \<in> {0..}"
proof (rule ssprk3_parts)
  fix t cert
  assume s: "runge_kutta_tableau [ints [], ints [1], ratios [1 / 4, 1 / 4]] (ratios [1 / 6, 1 / 6, 2 / 3]) None None = Inr t"
    "certify_runge_kutta t = Inr cert" "mc_A cert = [[0, 0, 0], [1, 0, 0], [1 / 4, 1 / 4, 0]]"
    "mc_b cert = [1 / 6, 1 / 6, 2 / 3]"
    "\<exists>ssp. mp_ssp (mc_properties cert) = Some ssp \<and> ssp_coefficient ssp = 1"
  then obtain ssp where ssp: "mp_ssp (mc_properties cert) = Some ssp" "ssp_coefficient ssp = 1" by blast
  have "convex_set {0 :: real..}" "euler_keeps (\<lambda>y :: real. - y) 1 {0..}"
    by (auto simp: convex_set_def euler_keeps_def)
  then show ?thesis
    using ssp_certificate_sound [OF s(1,2) ssp(1), of "{0 :: real..}" "\<lambda>y. - y" 1 "1 / 2" 3]
    unfolding s ssp by simp
qed

end
