(* ===== verification/Program_Certificate.thy ===== *)
theory Program_Certificate
  imports Runge_Kutta
begin

text \<open>
  The reconstruction of a Runge--Kutta certificate from a normalized Program graph:
  \<^verbatim>\<open>certify_program_graph\<close> of \<^verbatim>\<open>pops/time/_methods/properties.py\<close>, with what it reads of
  \<^verbatim>\<open>pops/time/_graph/nodes.py\<close>, \<^verbatim>\<open>pops/time/points.py\<close> and \<^verbatim>\<open>ScalarLiteral.to_data\<close>.

  \<^item> Canonical data is a tree \<open>datum\<close>.  A numeral text (\<^verbatim>\<open>str(n)\<close>, \<^verbatim>\<open>str(decimal)\<close>, \<^verbatim>\<open>x.hex()\<close>) is the number
    that it prints; the payload of a custom literal is not modelled.
  \<^item> A node keeps the fields the certifier reads.  \<open>gn_coeffs\<close> is \<^verbatim>\<open>attrs["attrs"]["coeffs"]\<close>, \<open>None\<close> when one
    of the two keys is missing.
  \<^item> \<open>eval_graph\<close> is the specification side: the value of every node for a right-hand side \<open>f\<close> per rate call.
\<close>

subsection \<open>Canonical literal data\<close>
















subsection \<open>Points and nodes\<close>








subsection \<open>Reconstruction\<close>









definition dense_rows :: "nat \<Rightarrow> rat list list \<Rightarrow> rat list list" where
  "dense_rows s A = map (\<lambda>row. map (\<lambda>j. if j < length row then row ! j else 0) [0..<s]) A"





subsection \<open>The value of a graph\<close>











subsection \<open>The reconstructed method\<close>











lemma length_dense_rows [simp]: "length (dense_rows s A) = length A"
  by (simp add: dense_rows_def)






subsection \<open>Heun's method as a graph\<close>









end
