(* ===== verification/Field_Context.thy ===== *)
theory Field_Context
  imports Consumer_Effects
begin

text \<open>
  Materialized fields and the policies under which a consumer may read them: \<^verbatim>\<open>pops/fields/context.py\<close> and
  \<^verbatim>\<open>pops/fields/policies.py\<close>, over the canonical handles and time points they mention.

  \<^item> A \<^verbatim>\<open>Handle\<close> has its qualified id, its kind, the nodes of its owner path, the qualified id of its block
    reference, and the rest of its canonical data as text.  A \<^verbatim>\<open>Clock\<close> is its owner, its canonical data and its
    qualified id.
  \<^item> \<^verbatim>\<open>FieldReadError\<close> and \<^verbatim>\<open>FieldAttemptRejected\<close> are the two \<open>RuntimeError\<close> values below.
  \<^item> \<open>OtherPolicy\<close> stands for a subclass of \<^verbatim>\<open>FieldReadPolicy\<close> that the module does not know; the failure actions
    are the two of the module, whose \<^verbatim>\<open>fail\<close> always raises.
\<close>

subsection \<open>Handles and time points\<close>

datatype owner_kind = O_case | O_model_definition | O_block | O_layout | O_descriptor | O_consumer | O_shared

record owner_segment =
  os_kind :: owner_kind
  os_name :: pystr

record handle =
  hd_id :: pystr
  hd_kind :: pystr
  hd_owner :: "owner_segment list"
  hd_block :: "pystr option"
  hd_data :: pystr

record clock =
  cl_owner :: "pystr option"
  cl_data :: pystr
  cl_id :: pystr

record clock_point =
  tp_clock :: clock
  tp_step :: int
  tp_offset :: pystr

definition clock_data :: "clock \<Rightarrow> frozen" where
  "clock_data c = FText (cl_data c)"

definition point_data :: "clock_point \<Rightarrow> frozen" where
  "point_data p =
     FMap [(ascii ''schema_version'', FInt 1), (ascii ''clock'', clock_data (tp_clock p)),
           (ascii ''step'', FInt (tp_step p)), (ascii ''offset'', FText (tp_offset p))]"

subsection \<open>Inputs, layouts and validity\<close>

record field_input =
  fi_reference :: handle
  fi_version :: identity

record layout_binding =
  lb_layout :: handle
  lb_generation :: int

definition mk_layout_binding :: "handle \<Rightarrow> int \<Rightarrow> layout_binding result" where
  "mk_layout_binding layout generation =
     bindE (raise_if (hd_kind layout \<noteq> ascii ''layout'') (TypeError ''LayoutBinding Handle kind must be layout'')) (\<lambda>_.
     bindE (raise_if (generation < 0) (ValueError ''LayoutBinding generation must be an integer >= 0'')) (\<lambda>_.
     Inr \<lparr>lb_layout = layout, lb_generation = generation\<rparr>))"

definition layout_data :: "layout_binding \<Rightarrow> frozen" where
  "layout_data b =
     FMap [(ascii ''layout'', FText (hd_data (lb_layout b))), (ascii ''generation'', FInt (lb_generation b))]"

datatype materialization = Accepted | Provisional pystr

definition mk_provisional :: "pystr \<Rightarrow> materialization result" where
  "mk_provisional attempt_id =
     (if attempt_id = [] then Inl (ValueError ''Provisional attempt_id must be a non-empty string'')
      else Inr (Provisional attempt_id))"

record field_validity =
  fv_points :: "clock_point list"
  fv_layout :: layout_binding
  fv_reason :: "pystr option"

definition mk_validity :: "clock_point list \<Rightarrow> layout_binding \<Rightarrow> pystr option \<Rightarrow> field_validity result" where
  "mk_validity points layout invalid_reason =
     bindE (raise_if (invalid_reason = Some []) (ValueError ''FieldValidity invalid_reason must be a non-empty string'')) (\<lambda>_.
     bindE (raise_if (invalid_reason = None \<and> points = [])
       (ValueError ''a valid FieldValidity requires at least one TimePoint'')) (\<lambda>_.
     bindE (raise_if (\<not> distinct points) (ValueError ''FieldValidity points must be unique'')) (\<lambda>_.
     bindE (raise_if (1 < card (set (map tp_clock points))) (ValueError ''FieldValidity points must share one Clock'')) (\<lambda>_.
     Inr \<lparr>fv_points = points, fv_layout = layout, fv_reason = invalid_reason\<rparr>))))"

definition valid_at :: "clock_point \<Rightarrow> layout_binding \<Rightarrow> field_validity result" where
  "valid_at point layout = mk_validity [point] layout None"

definition invalid_validity :: "layout_binding \<Rightarrow> pystr \<Rightarrow> field_validity result" where
  "invalid_validity layout reason = mk_validity [] layout (Some reason)"

definition validity_contains :: "field_validity \<Rightarrow> clock_point \<Rightarrow> layout_binding \<Rightarrow> bool" where
  "validity_contains v point layout \<longleftrightarrow> fv_reason v = None \<and> layout = fv_layout v \<and> point \<in> set (fv_points v)"

subsection \<open>Read policies\<close>

datatype field_consumer = C_program | C_diagnostic | C_output | C_tagging

fun field_consumer_value :: "field_consumer \<Rightarrow> string" where
  "field_consumer_value C_program = ''program''"
| "field_consumer_value C_diagnostic = ''diagnostic''"
| "field_consumer_value C_output = ''output''"
| "field_consumer_value C_tagging = ''tagging''"

definition field_read_error :: py_error where "field_read_error = RuntimeError ''FieldReadError''"

definition field_attempt_rejected :: py_error where "field_attempt_rejected = RuntimeError ''FieldAttemptRejected''"

datatype field_failure = FailFieldRead | RejectFieldAttempt

fun field_fail :: "field_failure \<Rightarrow> py_error" where
  "field_fail FailFieldRead = field_read_error"
| "field_fail RejectFieldAttempt = field_attempt_rejected"

datatype read_policy =
    HoldLastValue field_failure
  | RecomputeAtDiagnostic field_failure
  | RecomputeAtOutput field_failure
  | RecomputeAtTagging field_failure
  | OtherPolicy

fun recompute_consumer :: "read_policy \<Rightarrow> (field_consumer \<times> field_failure) option" where
  "recompute_consumer (RecomputeAtDiagnostic f) = Some (C_diagnostic, f)"
| "recompute_consumer (RecomputeAtOutput f) = Some (C_output, f)"
| "recompute_consumer (RecomputeAtTagging f) = Some (C_tagging, f)"
| "recompute_consumer _ = None"

subsection \<open>Field contexts\<close>

record field_context =
  fc_operator :: handle
  fc_inputs :: "field_input list"
  fc_clock :: clock
  fc_point :: clock_point
  fc_layout :: layout_binding
  fc_materialization :: materialization
  fc_validity :: field_validity

definition mk_field_context :: "field_context \<Rightarrow> field_context result" where
  "mk_field_context c =
     bindE (raise_if (hd_kind (fc_operator c) \<noteq> ascii ''field_operator'')
       (TypeError ''FieldContext operator Handle kind must be field_operator'')) (\<lambda>_.
     bindE (raise_if (\<not> distinct (map fi_reference (fc_inputs c)))
       (ValueError ''FieldContext inputs must contain each dependency exactly once'')) (\<lambda>_.
     bindE (raise_if (cl_owner (fc_clock c) = None)
       (TypeError ''FieldContext clock must be an owner-qualified exact Clock'')) (\<lambda>_.
     bindE (raise_if (tp_clock (fc_point c) \<noteq> fc_clock c)
       (ValueError ''FieldContext point must use its declared clock'')) (\<lambda>_.
     bindE (raise_if (fv_layout (fc_validity c) \<noteq> fc_layout c)
       (ValueError ''FieldContext validity must target its exact layout generation'')) (\<lambda>_.
     bindE (raise_if (list_ex (\<lambda>p. tp_clock p \<noteq> fc_clock c) (fv_points (fc_validity c)))
       (ValueError ''FieldContext validity points must use its declared clock'')) (\<lambda>_.
     Inr c))))))"

definition invalidate :: "field_context \<Rightarrow> pystr \<Rightarrow> field_context result" where
  "invalidate c reason =
     bindE (invalid_validity (fc_layout c) reason) (\<lambda>v. mk_field_context (c\<lparr>fc_validity := v\<rparr>))"

definition accept_field :: "field_context \<Rightarrow> field_validity option \<Rightarrow> field_context result" where
  "accept_field c validity =
     bindE (case validity of Some v \<Rightarrow> Inr v | None \<Rightarrow> valid_at (fc_point c) (fc_layout c)) (\<lambda>v.
     mk_field_context (c\<lparr>fc_materialization := Accepted, fc_validity := v\<rparr>))"

datatype field_read =
    UseMaterializedField identity
  | UseHeldField identity clock_point clock_point
  | RecomputeField identity field_consumer clock_point field_failure

text \<open>\<open>mint\<close> is \<^verbatim>\<open>field_identity("field-context", self.to_data())\<close>.\<close>

definition resolve_read ::
  "(field_context \<Rightarrow> identity result) \<Rightarrow> field_context \<Rightarrow> field_consumer \<Rightarrow> clock_point \<Rightarrow> layout_binding \<Rightarrow>
   read_policy option \<Rightarrow> field_read result" where
  "resolve_read mint c consumer at layout policy =
     bindE (raise_if (tp_clock at \<noteq> fc_clock c)
       (ValueError ''field read TimePoint must use the FieldContext clock'')) (\<lambda>_.
     if validity_contains (fc_validity c) at layout \<and> fc_materialization c = Accepted
     then bindE (mint c) (\<lambda>i. Inr (UseMaterializedField i))
     else case policy of
       None \<Rightarrow> Inl field_read_error
     | Some p \<Rightarrow>
       (case p of
          HoldLastValue f \<Rightarrow>
            bindE (raise_if (fc_materialization c \<noteq> Accepted) (field_fail f)) (\<lambda>_.
            bindE (raise_if (layout \<noteq> fc_layout c) (field_fail f)) (\<lambda>_.
            bindE (mint c) (\<lambda>i. Inr (UseHeldField i (fc_point c) at))))
        | OtherPolicy \<Rightarrow> Inl (TypeError ''unsupported FieldReadPolicy'')
        | _ \<Rightarrow>
          (case recompute_consumer p of
             None \<Rightarrow> Inl (TypeError ''unsupported FieldReadPolicy'')
           | Some (owner, f) \<Rightarrow>
             bindE (raise_if (owner \<noteq> consumer) (field_fail f)) (\<lambda>_.
             bindE (mint c) (\<lambda>i. Inr (RecomputeField i consumer at f))))))"

subsection \<open>What a read may return\<close>

text \<open>
  A value is used as it is only where it was accepted and declared valid; it is held only when accepted and on
  the layout generation it was computed on; it is recomputed only for the consumer the policy names.
\<close>

lemma resolve_read_sound:
  assumes "resolve_read mint c consumer at layout policy = Inr r"
  shows "tp_clock at = fc_clock c
    \<and> (case r of
         UseMaterializedField i \<Rightarrow>
           mint c = Inr i \<and> fc_materialization c = Accepted \<and> validity_contains (fc_validity c) at layout
       | UseHeldField i source requested \<Rightarrow>
           mint c = Inr i \<and> fc_materialization c = Accepted \<and> layout = fc_layout c
           \<and> source = fc_point c \<and> requested = at \<and> (\<exists>f. policy = Some (HoldLastValue f))
       | RecomputeField i owner requested f \<Rightarrow>
           mint c = Inr i \<and> owner = consumer \<and> requested = at
           \<and> (\<exists>p. policy = Some p \<and> recompute_consumer p = Some (consumer, f)))"
  using assms by (cases r) (auto simp: resolve_read_def split: if_splits option.splits read_policy.splits)

lemma resolve_read_accepted:
  assumes "accept_field c None = Inr c'" "mint c' = Inr i"
  shows "resolve_read mint c' consumer (fc_point c) (fc_layout c) policy = Inr (UseMaterializedField i)"
proof -
  have "c' = c\<lparr>fc_materialization := Accepted, fc_validity := \<lparr>fv_points = [fc_point c], fv_layout = fc_layout c, fv_reason = None\<rparr>\<rparr>"
    "tp_clock (fc_point c) = fc_clock c"
    using assms(1) by (auto simp: accept_field_def valid_at_def mk_validity_def mk_field_context_def)
  then show ?thesis using assms(2) by (simp add: resolve_read_def validity_contains_def)
qed

lemma resolve_read_invalidated:
  assumes "invalidate c reason = Inr c'" "resolve_read mint c' consumer at layout policy = Inr r"
  shows "\<nexists>i. r = UseMaterializedField i"
proof -
  have "fv_reason (fc_validity c') = Some reason"
    using assms(1) by (auto simp: invalidate_def invalid_validity_def mk_validity_def mk_field_context_def)
  then show ?thesis using resolve_read_sound [OF assms(2)] by (auto simp: validity_contains_def)
qed

end
