(* ===== verification/Consumer_Graph.thy ===== *)
theory Consumer_Graph
  imports Field_Context
begin

text \<open>
  The consumer graph and the schedules of its nodes: the domains of \<^verbatim>\<open>pops/time/_schedule/domains.py\<close>, the
  triggers of \<^verbatim>\<open>pops/time/_schedule/api.py\<close> as consumers see them, and \<^verbatim>\<open>ConsumerMoment\<close>,
  \<^verbatim>\<open>ConsumerQuantity\<close>, \<^verbatim>\<open>DiagnosticQuantity\<close>, \<^verbatim>\<open>ConsumerManifest\<close> and \<^verbatim>\<open>ConsumerGraph\<close> of
  \<^verbatim>\<open>pops/output/_consumer_contracts.py\<close>.

  \<^item> A trigger class that this theory does not name (a third-party trigger, and \<^verbatim>\<open>EveryDt\<close>, whose decimal
    lattice is not modelled) is \<open>ExtTrigger\<close> with its own data; its protocol methods are the functions of a
    \<open>trigger_provider\<close>.  The \<^verbatim>\<open>at\<close> point of a domain other than \<^verbatim>\<open>Stage\<close> is its canonical text.
  \<^item> A physical time is its canonical text; a \<^verbatim>\<open>StagePoint\<close> compares by its coordinates and identity, not by its
    name.  The provider data of a manifest (\<^verbatim>\<open>output_format_data\<close>, \<^verbatim>\<open>operation_data\<close>) is given: the validation that
    normalizes it is not modelled.
  \<^item> The heap of ready consumers is the sorted list of its elements: \<^verbatim>\<open>heappop\<close> removes the least.
\<close>

subsection \<open>Moments, domains and triggers\<close>

record stage_point =
  sp_name :: pystr
  sp_key :: pystr
  sp_data :: pystr

type_synonym event_handle = "pystr \<times> pystr"

record moment =
  mo_point :: clock_point
  mo_accepted_step :: int
  mo_attempt :: int
  mo_time :: pystr
  mo_clock_tick :: int
  mo_wall_tick :: int
  mo_stage :: "stage_point option"
  mo_level :: "int option"
  mo_events :: "event_handle list"
  mo_layouts :: "layout_binding list"
  mo_at_start :: bool
  mo_at_end :: bool

text \<open>The normalization of \<^verbatim>\<open>events\<close> and \<^verbatim>\<open>layouts\<close> in \<^verbatim>\<open>ConsumerMoment.__post_init__\<close>.\<close>

definition moment_events :: "event_handle list \<Rightarrow> event_handle list result" where
  "moment_events supplied =
     (let events = sort supplied in
      bindE (raise_if (\<not> distinct events) (ValueError ''ConsumerMoment.events must be unique'')) (\<lambda>_. Inr events))"

definition moment_layouts :: "layout_binding list \<Rightarrow> layout_binding list result" where
  "moment_layouts supplied =
     (let layouts = sort_key (hd_id \<circ> lb_layout) supplied in
      bindE (raise_if (\<not> distinct (map (hd_id \<circ> lb_layout) layouts))
        (ValueError ''ConsumerMoment.layouts contains duplicate layouts'')) (\<lambda>_. Inr layouts))"

definition layout_for :: "moment \<Rightarrow> pystr \<Rightarrow> layout_binding result" where
  "layout_for m layout_id =
     (case filter (\<lambda>b. hd_id (lb_layout b) = layout_id) (mo_layouts m) of
        [] \<Rightarrow> Inl (KeyError ''layout'') | b # _ \<Rightarrow> Inr b)"

datatype domain_kind =
    AcceptedStep
  | Attempt
  | Stage stage_point
  | ClockTick
  | AMRLevel int
  | Event event_handle
  | WallOutput

record domain =
  dm_clock :: clock
  dm_at :: "pystr option"
  dm_kind :: domain_kind

definition mk_amr_level :: "clock \<Rightarrow> pystr option \<Rightarrow> int \<Rightarrow> domain result" where
  "mk_amr_level clock at level =
     (if level < 0 then Inl (ValueError ''AMRLevel level must be a non-negative int'')
      else Inr \<lparr>dm_clock = clock, dm_at = at, dm_kind = AMRLevel level\<rparr>)"

definition consumer_coordinate :: "domain_kind \<Rightarrow> moment \<Rightarrow> int option" where
  "consumer_coordinate d m =
     (case d of
        AcceptedStep \<Rightarrow> Some (mo_accepted_step m)
      | Attempt \<Rightarrow> Some (mo_attempt m)
      | Stage at \<Rightarrow> if map_option sp_key (mo_stage m) = Some (sp_key at) then Some (mo_accepted_step m) else None
      | ClockTick \<Rightarrow> Some (mo_clock_tick m)
      | AMRLevel level \<Rightarrow> if mo_level m = Some level then Some (mo_accepted_step m) else None
      | Event event \<Rightarrow> if event \<in> set (mo_events m) then Some (mo_accepted_step m) else None
      | WallOutput \<Rightarrow> Some (mo_wall_tick m))"

text \<open>\<^verbatim>\<open>Domain.consumer_occurrence_evidence\<close>.\<close>

datatype domain_evidence =
  Ev_none | Ev_stage "stage_point option" | Ev_level "int option" | Ev_event event_handle

definition domain_occurrence_evidence :: "domain_kind \<Rightarrow> moment \<Rightarrow> domain_evidence" where
  "domain_occurrence_evidence d m =
     (case d of
        Stage at \<Rightarrow> Ev_stage (mo_stage m)
      | AMRLevel level \<Rightarrow> Ev_level (mo_level m)
      | Event event \<Rightarrow> Ev_event event
      | _ \<Rightarrow> Ev_none)"

text \<open>The condition of a \<^verbatim>\<open>When\<close>: an exact \<^verbatim>\<open>bool\<close>, \<^verbatim>\<open>None\<close>, or another object (a Program predicate).\<close>

datatype schedule_condition = C_bool bool | C_none | C_object pystr

datatype 'x trigger =
    Always
  | Every int
  | AtStart
  | AtEnd
  | When schedule_condition
  | ExtTrigger 'x

record 'x trigger_provider =
  trg_due :: "'x \<Rightarrow> int \<Rightarrow> moment \<Rightarrow> bool result"
  trg_evidence :: "'x \<Rightarrow> int option \<Rightarrow> moment \<Rightarrow> pystr option result"
  trg_at_start :: "'x \<Rightarrow> bool"
  trg_always :: "'x \<Rightarrow> bool"

definition mk_every :: "int \<Rightarrow> 'x trigger result" where
  "mk_every n = (if n \<le> 0 then Inl (ValueError ''Every n must be a positive int'') else Inr (Every n))"

definition unresolved_condition :: py_error where
  "unresolved_condition = TypeError ''consumer schedule condition is unresolved''"

fun consumer_due :: "'x trigger_provider \<Rightarrow> 'x trigger \<Rightarrow> int \<Rightarrow> moment \<Rightarrow> bool result" where
  "consumer_due tp Always coordinate m = Inr (\<not> mo_at_start m)"
| "consumer_due tp (Every n) coordinate m = Inr (\<not> mo_at_start m \<and> coordinate mod n = 0)"
| "consumer_due tp AtStart coordinate m = Inr (mo_at_start m)"
| "consumer_due tp AtEnd coordinate m = Inr (\<not> mo_at_start m \<and> mo_at_end m)"
| "consumer_due tp (When condition) coordinate m =
     (if mo_at_start m then Inr False
      else case condition of C_bool b \<Rightarrow> Inr b | _ \<Rightarrow> Inl unresolved_condition)"
| "consumer_due tp (ExtTrigger x) coordinate m = trg_due tp x coordinate m"

fun trigger_occurrence_evidence :: "'x trigger_provider \<Rightarrow> 'x trigger \<Rightarrow> int option \<Rightarrow> moment \<Rightarrow> pystr option result" where
  "trigger_occurrence_evidence tp (ExtTrigger x) coordinate m = trg_evidence tp x coordinate m"
| "trigger_occurrence_evidence tp _ coordinate m = Inr None"

fun consumer_may_fire_at_start :: "'x trigger_provider \<Rightarrow> 'x trigger \<Rightarrow> bool" where
  "consumer_may_fire_at_start tp AtStart = True"
| "consumer_may_fire_at_start tp (ExtTrigger x) = trg_at_start tp x"
| "consumer_may_fire_at_start tp _ = False"

fun is_always :: "'x trigger_provider \<Rightarrow> 'x trigger \<Rightarrow> bool" where
  "is_always tp Always = True"
| "is_always tp (ExtTrigger x) = trg_always tp x"
| "is_always tp _ = False"

datatype off_policy = Hold | Skip | Zero | AccumulateDt | OffError | ExtOff pystr

record 'x schedule =
  sc_domain :: domain
  sc_trigger :: "'x trigger"
  sc_off :: "off_policy option"

definition mk_schedule :: "'x trigger_provider \<Rightarrow> 'x schedule \<Rightarrow> 'x schedule result" where
  "mk_schedule tp sch =
     (if is_always tp (sc_trigger sch) \<and> sc_off sch \<noteq> None
      then Inl (ValueError ''Always has no off-cadence instant; off must be omitted'') else Inr sch)"

subsection \<open>Quantities and manifests\<close>

datatype consumer_kind = DIAGNOSTIC | SCIENTIFIC_OUTPUT | CHECKPOINT | MONITOR

record quantity =
  qu_identity :: identity
  qu_reference :: handle
  qu_resource :: pystr
  qu_layout :: pystr
  qu_levels :: "int list"
  qu_field :: "field_context option"
  qu_policy :: "read_policy option"

text \<open>\<open>mint\<close> is \<^verbatim>\<open>make_identity("consumer-quantity", self._payload())\<close>.\<close>

definition mk_quantity :: "(quantity \<Rightarrow> identity result) \<Rightarrow> quantity \<Rightarrow> quantity result" where
  "mk_quantity mint q =
     bindE (check_text (qu_resource q)) (\<lambda>_.
     bindE (check_text (qu_layout q)) (\<lambda>_.
     bindE (mapE check_index (qu_levels q)) (\<lambda>_.
     bindE (raise_if (\<not> sorted_unique (qu_levels q)) (ValueError ''ConsumerQuantity.levels must be sorted and unique'')) (\<lambda>_.
     bindE (case qu_field q of None \<Rightarrow> Inr () | Some c \<Rightarrow>
         bindE (raise_if (qu_reference q \<noteq> fc_operator c)
           (ValueError ''ConsumerQuantity field reference and FieldContext disagree'')) (\<lambda>_.
         raise_if (hd_id (lb_layout (fc_layout c)) \<noteq> qu_layout q)
           (ValueError ''ConsumerQuantity layout and FieldContext layout disagree''))) (\<lambda>_.
     bindE (raise_if (qu_policy q \<noteq> None \<and> qu_field q = None)
       (ValueError ''a field_policy requires an exact field_context'')) (\<lambda>_.
     bindE (mint q) (\<lambda>i. Inr (q\<lparr>qu_identity := i\<rparr>))))))))"

text \<open>A reduction names one operation of a diagnostic's execution plan.\<close>

datatype reduction = R_sum | R_abs_sum | R_sum_sq | R_min | R_max | R_abs_max | R_step_change_l2 | R_accepted_balance

record diagnostic_quantity =
  dq_identity :: identity
  dq_reference :: handle
  dq_resource :: pystr
  dq_layout :: pystr
  dq_levels :: "int list"
  dq_reductions :: "reduction list"

fun diagnostic_collective :: "reduction \<Rightarrow> string option" where
  "diagnostic_collective R_sum = Some ''global_sum''"
| "diagnostic_collective R_abs_sum = Some ''global_sum''"
| "diagnostic_collective R_sum_sq = Some ''global_sum''"
| "diagnostic_collective R_min = Some ''global_min''"
| "diagnostic_collective R_max = Some ''global_max''"
| "diagnostic_collective R_abs_max = Some ''global_max''"
| "diagnostic_collective R_step_change_l2 = Some ''global_sum''"
| "diagnostic_collective R_accepted_balance = None"

text \<open>\<^verbatim>\<open>tuple(sorted({...}))\<close> over the reductions that have a collective.\<close>

definition diagnostic_collective_operations :: "reduction list \<Rightarrow> pystr list" where
  "diagnostic_collective_operations rs = sort (remdups (map ascii (List.map_filter diagnostic_collective rs)))"

record 'x manifest =
  cm_handle :: handle
  cm_kind :: consumer_kind
  cm_quantities :: "quantity list"
  cm_schedule :: "'x schedule"
  cm_target :: pystr
  cm_format :: "(pystr \<times> frozen) list option"
  cm_operation :: "(pystr \<times> frozen) list option"
  cm_mode :: parallel_mode
  cm_diagnostics :: "diagnostic_quantity list"
  cm_dependencies :: "handle list"
  cm_action :: failure_action
  cm_identity :: identity

definition qualified_id :: "'x manifest \<Rightarrow> pystr" where
  "qualified_id m = hd_id (cm_handle m)"

text \<open>The dependency part of \<^verbatim>\<open>ConsumerManifest.__post_init__\<close>.\<close>

definition check_dependencies :: "handle \<Rightarrow> handle list \<Rightarrow> handle list result" where
  "check_dependencies h deps =
     (let dependencies = sort_key hd_id deps in
      bindE (raise_if (\<not> distinct dependencies) (ValueError ''ConsumerManifest contains duplicate dependencies'')) (\<lambda>_.
      bindE (raise_if (h \<in> set dependencies) (ValueError ''ConsumerManifest cannot depend on itself'')) (\<lambda>_.
      Inr dependencies)))"

text \<open>
  The diagnostic part: \<open>providers\<close> is the number of diagnostic descriptors, \<open>async\<close> whether the operation is an
  asynchronous scientific observer.
\<close>

definition check_diagnostic_quantities ::
  "'x trigger_provider \<Rightarrow> consumer_kind \<Rightarrow> bool \<Rightarrow> nat \<Rightarrow> 'x schedule \<Rightarrow> diagnostic_quantity list \<Rightarrow> diagnostic_quantity list result" where
  "check_diagnostic_quantities tp kind async providers sch supplied =
     (let quantities = sort_key (token \<circ> dq_identity) supplied;
          embeds = kind \<in> {DIAGNOSTIC, SCIENTIFIC_OUTPUT} \<or> kind = MONITOR \<and> async in
      bindE (raise_if (\<not> distinct (map dq_identity quantities))
        (ValueError ''ConsumerManifest contains duplicate diagnostic quantities'')) (\<lambda>_.
      bindE (raise_if (length quantities \<noteq> providers)
        (ValueError ''ConsumerManifest must lower every diagnostic descriptor exactly once'')) (\<lambda>_.
      bindE (raise_if (quantities \<noteq> [] \<and> \<not> embeds)
        (ValueError ''only ConsoleMonitor, ScientificOutput, or AsyncScientificOutput can carry diagnostic quantities'')) (\<lambda>_.
      bindE (raise_if (list_ex (\<lambda>q. R_accepted_balance \<in> set (dq_reductions q)) quantities
            \<and> consumer_may_fire_at_start tp (sc_trigger sch))
        (ValueError ''Balance schedule cannot fire at_start'')) (\<lambda>_.
      Inr quantities)))))"

text \<open>The resource a quantity or a diagnostic quantity selects.\<close>

record consumer_row =
  cr_identity :: identity
  cr_reference :: handle
  cr_resource :: pystr
  cr_layout :: pystr
  cr_levels :: "int list"

definition quantity_row :: "quantity \<Rightarrow> consumer_row" where
  "quantity_row q = \<lparr>cr_identity = qu_identity q, cr_reference = qu_reference q, cr_resource = qu_resource q,
     cr_layout = qu_layout q, cr_levels = qu_levels q\<rparr>"

definition diagnostic_row :: "diagnostic_quantity \<Rightarrow> consumer_row" where
  "diagnostic_row q = \<lparr>cr_identity = dq_identity q, cr_reference = dq_reference q, cr_resource = dq_resource q,
     cr_layout = dq_layout q, cr_levels = dq_levels q\<rparr>"

definition consumer_collective_requirements :: "'x manifest \<Rightarrow> (consumer_row \<times> pystr \<times> pystr) list" where
  "consumer_collective_requirements m =
     (if cm_mode m \<in> {ROOT, COLLECTIVE}
      then map (\<lambda>q. (quantity_row q, ascii ''gather'', ascii ''explicit_communicator'')) (cm_quantities m) else [])
     @ concat (map (\<lambda>q. map (\<lambda>op. (diagnostic_row q, op, ascii ''native_reduction_provider''))
         (diagnostic_collective_operations (dq_reductions q))) (cm_diagnostics m))"

subsection \<open>The graph\<close>

text \<open>\<^verbatim>\<open>for follower in sorted(followers[current])\<close>: decrement, and push what reaches zero.\<close>

definition decrement :: "'k \<Rightarrow> ('k \<times> int) list \<Rightarrow> ('k \<times> int) list" where
  "decrement f indegree = map (\<lambda>(k, d). (k, if k = f then d - 1 else d)) indegree"

fun release_followers ::
  "'k::linorder list \<Rightarrow> ('k \<times> int) list \<Rightarrow> 'k list \<Rightarrow> ('k \<times> int) list \<times> 'k list" where
  "release_followers [] indegree ready = (indegree, ready)"
| "release_followers (f # fs) indegree ready =
     (let indegree' = decrement f indegree in
      release_followers fs indegree' (if map_of indegree' f = Some 0 then insort f ready else ready))"

definition degree_sum :: "('k \<times> int) list \<Rightarrow> nat" where
  "degree_sum indegree = sum_list (map (nat \<circ> snd) indegree)"

lemma degree_sum_decrement: "degree_sum (decrement f indegree) \<le> degree_sum indegree"
  by (induction indegree) (auto simp: degree_sum_def decrement_def intro: add_mono)

lemma degree_sum_push:
  "map_of (decrement f indegree) f = Some 0 \<Longrightarrow> degree_sum (decrement f indegree) < degree_sum indegree"
proof (induction indegree)
  case (Cons p indegree)
  obtain k d where p: "p = (k, d)" by (cases p)
  show ?case
  proof (cases "k = f")
    case True
    then have "d = 1" using Cons.prems p by (simp add: decrement_def)
    then show ?thesis using degree_sum_decrement [of f indegree] p True by (simp add: degree_sum_def decrement_def)
  next
    case False
    then have "map_of (decrement f indegree) f = Some 0" using Cons.prems p by (simp add: decrement_def)
    then show ?thesis using Cons.IH p False by (simp add: degree_sum_def decrement_def)
  qed
qed (simp add: decrement_def)

lemma release_followers_measure:
  "release_followers fs indegree ready = (indegree', ready') \<Longrightarrow>
   length ready' + degree_sum indegree' \<le> length ready + degree_sum indegree"
proof (induction fs arbitrary: indegree ready)
  case (Cons f fs)
  let ?ready = "if map_of (decrement f indegree) f = Some 0 then insort f ready else ready"
  have "length ready' + degree_sum indegree' \<le> length ?ready + degree_sum (decrement f indegree)"
    using Cons by (simp add: Let_def)
  also have "\<dots> \<le> length ready + degree_sum indegree"
    using degree_sum_push [of f indegree] degree_sum_decrement [of f indegree] by auto
  finally show ?case .
qed simp

function topology_loop :: "('k::linorder \<Rightarrow> 'k list) \<Rightarrow> ('k \<times> int) list \<Rightarrow> 'k list \<Rightarrow> 'k list \<Rightarrow> 'k list" where
  "topology_loop followers indegree [] topology = topology"
| "topology_loop followers indegree (current # ready) topology =
     (let (indegree', ready') = release_followers (sort (followers current)) indegree ready in
      topology_loop followers indegree' ready' (topology @ [current]))"
  by pat_completeness auto
termination
proof (relation "measure (\<lambda>(followers, indegree, ready, topology). length ready + degree_sum indegree)", goal_cases)
  case (2 followers indegree current ready topology r indegree' ready')
  then show ?case
    using release_followers_measure [of "sort (followers current)" indegree ready indegree' ready'] by simp
qed simp

record 'x consumer_graph =
  cg_nodes :: "'x manifest list"
  cg_topology :: "'x manifest list"
  cg_identity :: identity

definition node_table :: "'x manifest list \<Rightarrow> (pystr \<times> 'x manifest) list" where
  "node_table ns = map (\<lambda>m. (qualified_id m, m)) ns"

definition check_dependency :: "'x manifest list \<Rightarrow> handle \<Rightarrow> unit result" where
  "check_dependency ns dep =
     (case map_of (node_table ns) (hd_id dep) of
        None \<Rightarrow> Inl (ValueError ''ConsumerGraph dependency is not an exact graph node'')
      | Some m \<Rightarrow> raise_if (cm_handle m \<noteq> dep) (ValueError ''ConsumerGraph dependency is not an exact graph node''))"

definition followers_of :: "'x manifest list \<Rightarrow> pystr \<Rightarrow> pystr list" where
  "followers_of ns v =
     concat (map (\<lambda>m. map (\<lambda>_. qualified_id m) (filter (\<lambda>d. hd_id d = v) (cm_dependencies m))) ns)"

definition initial_degrees :: "'x manifest list \<Rightarrow> (pystr \<times> int) list" where
  "initial_degrees ns = map (\<lambda>m. (qualified_id m, int (length (cm_dependencies m)))) ns"

definition topology_ids :: "'x manifest list \<Rightarrow> pystr list" where
  "topology_ids ns =
     (let indegree = initial_degrees ns
      in topology_loop (followers_of ns) indegree (sort (map fst (filter (\<lambda>p. snd p = 0) indegree))) [])"

text \<open>\<open>mint\<close> is \<^verbatim>\<open>make_identity("consumer-graph", self._payload())\<close>, a function of the nodes and the topology.\<close>

definition mk_consumer_graph ::
  "('x manifest list \<times> pystr list \<Rightarrow> identity result) \<Rightarrow> 'x manifest list \<Rightarrow>
   'x consumer_graph result" where
  "mk_consumer_graph mint manifests =
     (let ns = sort_key qualified_id manifests in
      bindE (raise_if (\<not> distinct (map qualified_id ns))
        (ValueError ''ConsumerGraph contains duplicate consumer handles'')) (\<lambda>_.
      bindE (mapE (\<lambda>m. mapE (check_dependency ns) (cm_dependencies m)) ns) (\<lambda>_.
      let ids = topology_ids ns in
      bindE (raise_if (length ids \<noteq> length ns) (ValueError ''ConsumerGraph contains a dependency cycle'')) (\<lambda>_.
      bindE (mapE (\<lambda>i. case map_of (node_table ns) i of None \<Rightarrow> Inl (KeyError ''node'') | Some m \<Rightarrow> Inr m) ids) (\<lambda>topology.
      bindE (mint (ns, map qualified_id topology)) (\<lambda>i.
      Inr \<lparr>cg_nodes = ns, cg_topology = topology, cg_identity = i\<rparr>))))))"

subsection \<open>The topological order\<close>

lemma map_of_decrement: "map_of (decrement f indegree) w = map_option (\<lambda>d. if w = f then d - 1 else d) (map_of indegree w)"
  by (induction indegree) (auto simp: decrement_def)

lemma fst_decrement: "map fst (decrement f indegree) = map fst indegree"
  by (induction indegree) (auto simp: decrement_def)

lemma release_followers_result:
  assumes "release_followers fs indegree ready = (indegree', ready')"
    and "\<forall>w\<in>set fs. \<exists>d. map_of indegree w = Some d \<and> int (count (mset fs) w) \<le> d"
    and "distinct ready" "set ready \<inter> set fs = {}"
  shows "map fst indegree' = map fst indegree
    \<and> (\<forall>w. map_of indegree' w = map_option (\<lambda>d. d - int (count (mset fs) w)) (map_of indegree w))
    \<and> distinct ready'
    \<and> set ready' = set ready \<union> {w \<in> set fs. map_of indegree w = Some (int (count (mset fs) w))}"
  using assms
proof (induction fs arbitrary: indegree ready)
  case Nil
  then show ?case by (auto simp: option.map_ident)
next
  case (Cons f fs)
  let ?ind = "decrement f indegree"
  let ?ready = "if map_of ?ind f = Some 0 then insort f ready else ready"
  obtain d where d: "map_of indegree f = Some d" "1 + int (count (mset fs) f) \<le> d"
    using Cons.prems(2) by auto
  have run: "release_followers fs ?ind ?ready = (indegree', ready')"
    using Cons.prems(1) by (simp add: Let_def)
  have bound: "\<forall>w\<in>set fs. \<exists>d. map_of ?ind w = Some d \<and> int (count (mset fs) w) \<le> d"
  proof
    fix w
    assume "w \<in> set fs"
    then obtain e where "map_of indegree w = Some e" "int (count (mset (f # fs)) w) \<le> e" using Cons.prems(2) by auto
    then show "\<exists>d. map_of ?ind w = Some d \<and> int (count (mset fs) w) \<le> d"
      by (cases "w = f") (auto simp: map_of_decrement)
  qed
  have pushed: "map_of ?ind f = Some 0 \<longleftrightarrow> d = 1" using d by (simp add: map_of_decrement)
  have fresh: "f \<notin> set fs" if "d = 1"
    using d(2) that by (simp add: count_mset_0_iff)
  have IH: "map fst indegree' = map fst ?ind
    \<and> (\<forall>w. map_of indegree' w = map_option (\<lambda>d. d - int (count (mset fs) w)) (map_of ?ind w))
    \<and> distinct ready'
    \<and> set ready' = set ?ready \<union> {w \<in> set fs. map_of ?ind w = Some (int (count (mset fs) w))}"
    using Cons.prems(3,4) pushed fresh by (intro Cons.IH [OF run bound]) (auto simp: set_insort_key distinct_insort)
  have "set ?ready \<union> {w \<in> set fs. map_of ?ind w = Some (int (count (mset fs) w))} =
      set ready \<union> {w \<in> set (f # fs). map_of indegree w = Some (int (count (mset (f # fs)) w))}"
  proof (cases "d = 1")
    case True
    then show ?thesis using pushed fresh d by (auto simp: map_of_decrement set_insort_key count_mset_0_iff split: if_splits)
  next
    case False
    then have "f \<notin> set fs \<Longrightarrow> map_of indegree f \<noteq> Some (int (count (mset (f # fs)) f))"
      using d by (simp add: not_in_iff [THEN iffD1])
    then show ?thesis using pushed False d by (auto simp: map_of_decrement split: if_splits)
  qed
  moreover have "map_option (\<lambda>d. d - int (count (mset fs) w)) (map_of ?ind w) =
      map_option (\<lambda>d. d - int (count (mset (f # fs)) w)) (map_of indegree w)" for w
    by (cases "map_of indegree w") (auto simp: map_of_decrement)
  ultimately show ?case using IH by (simp add: fst_decrement)
qed

text \<open>The dependencies of a node that the order does not hold yet.\<close>

definition remaining :: "('k \<Rightarrow> 'k list) \<Rightarrow> 'k list \<Rightarrow> 'k \<Rightarrow> nat" where
  "remaining deps placed w = length (filter (\<lambda>d. d \<notin> set placed) (deps w))"

lemma remaining_snoc:
  assumes "c \<notin> set placed"
  shows "remaining deps placed w = remaining deps (placed @ [c]) w + count (mset (deps w)) c"
proof -
  have "length (filter (\<lambda>d. d \<notin> set placed) xs) =
      length (filter (\<lambda>d. d \<noteq> c \<and> d \<notin> set placed) xs) + count (mset xs) c" for xs
    using assms by (induction xs) auto
  then show ?thesis by (simp add: remaining_def conj_commute)
qed

lemma remaining_zero: "remaining deps placed w = 0 \<longleftrightarrow> set (deps w) \<subseteq> set placed"
  by (auto simp: remaining_def filter_empty_conv)

definition dependency_ordered :: "('k \<Rightarrow> 'k list) \<Rightarrow> 'k list \<Rightarrow> bool" where
  "dependency_ordered deps xs \<longleftrightarrow> (\<forall>i < length xs. set (deps (xs ! i)) \<subseteq> set (take i xs))"

lemma dependency_ordered_Nil: "dependency_ordered deps []"
  by (simp add: dependency_ordered_def)

lemma dependency_ordered_snoc:
  "dependency_ordered deps (xs @ [c]) \<longleftrightarrow> dependency_ordered deps xs \<and> set (deps c) \<subseteq> set xs"
  by (auto simp: dependency_ordered_def nth_append less_Suc_eq all_conj_distrib)

lemma dependency_ordered_member:
  assumes "dependency_ordered deps xs" "x \<in> set xs"
  shows "set (deps x) \<subseteq> set xs"
proof -
  obtain i where "i < length xs" "x = xs ! i" using assms(2) by (auto simp: in_set_conv_nth)
  then have "set (deps x) \<subseteq> set (take i xs)" using assms(1) by (simp add: dependency_ordered_def)
  then show ?thesis using set_take_subset [of i xs] by (rule subset_trans)
qed

definition kahn_invariant :: "('k::linorder \<Rightarrow> 'k list) \<Rightarrow> 'k list \<Rightarrow> ('k \<times> int) list \<Rightarrow> 'k list \<Rightarrow> 'k list \<Rightarrow> bool" where
  "kahn_invariant deps ids indegree ready placed \<longleftrightarrow>
     map fst indegree = ids
     \<and> (\<forall>w \<in> set ids. map_of indegree w = Some (int (remaining deps placed w)))
     \<and> distinct ready
     \<and> set ready = {w \<in> set ids. w \<notin> set placed \<and> remaining deps placed w = 0}
     \<and> distinct placed \<and> set placed \<subseteq> set ids \<and> dependency_ordered deps placed"

lemma kahn_step:
  assumes inv: "kahn_invariant deps ids indegree (c # ready) placed"
    and fol: "\<And>v w. count (mset (followers v)) w = (if w \<in> set ids then count (mset (deps w)) v else 0)"
    and run: "release_followers (sort (followers c)) indegree ready = (indegree', ready')"
  shows "kahn_invariant deps ids indegree' ready' (placed @ [c])"
proof -
  let ?n = "\<lambda>w. count (mset (followers c)) w"
  let ?placed = "placed @ [c]"
  have c: "c \<in> set ids" "c \<notin> set placed" "set (deps c) \<subseteq> set placed" and keys: "map fst indegree = ids"
    and deg: "\<And>w. w \<in> set ids \<Longrightarrow> map_of indegree w = Some (int (remaining deps placed w))"
    and ready: "distinct (c # ready)" "set (c # ready) = {w \<in> set ids. w \<notin> set placed \<and> remaining deps placed w = 0}"
    and placed: "distinct placed" "set placed \<subseteq> set ids" "dependency_ordered deps placed"
    using inv by (auto simp: kahn_invariant_def remaining_zero)
  have split: "remaining deps placed w = remaining deps ?placed w + ?n w" if "w \<in> set ids" for w
    using remaining_snoc [OF c(2)] fol that by simp
  have mem: "w \<in> set (followers c) \<longleftrightarrow> w \<in> set ids \<and> 0 < ?n w" for w
    using fol [of c w] by (metis count_mset_0_iff not_gr_zero)
  have res: "map fst indegree' = map fst indegree
    \<and> (\<forall>w. map_of indegree' w = map_option (\<lambda>d. d - int (count (mset (sort (followers c))) w)) (map_of indegree w))
    \<and> distinct ready'
    \<and> set ready' = set ready \<union> {w \<in> set (sort (followers c)). map_of indegree w = Some (int (count (mset (sort (followers c))) w))}"
  proof (rule release_followers_result [OF run])
    show "\<forall>w\<in>set (sort (followers c)). \<exists>d. map_of indegree w = Some d \<and> int (count (mset (sort (followers c))) w) \<le> d"
    proof
      fix w
      assume "w \<in> set (sort (followers c))"
      then have "w \<in> set ids" using mem [of w] by (simp only: set_sort)
      then show "\<exists>d. map_of indegree w = Some d \<and> int (count (mset (sort (followers c))) w) \<le> d"
        using deg [of w] split [of w] by simp
    qed
    show "set ready \<inter> set (sort (followers c)) = {}"
    proof (rule ccontr)
      assume "set ready \<inter> set (sort (followers c)) \<noteq> {}"
      then obtain w where w: "w \<in> set ready" "w \<in> set (followers c)" by auto
      then have "remaining deps placed w = 0" "w \<in> set ids" using ready(2) by auto
      then show False using split [of w] mem [of w] w(2) by linarith
    qed
  qed (use ready in simp)
  have zero: "w \<in> set ready' \<longleftrightarrow> w \<in> set ids \<and> w \<notin> set ?placed \<and> remaining deps ?placed w = 0" for w
  proof (cases "w \<in> set ids")
    case True
    have used: "?n w = 0" if "w \<in> set ?placed"
    proof -
      have "set (deps w) \<subseteq> set placed"
        using that c(3) dependency_ordered_member [OF placed(3)] by auto
      then show ?thesis using fol [of c w] c(2) True by (auto simp: count_mset_0_iff)
    qed
    have "w \<in> set ready' \<longleftrightarrow> w \<in> set ready \<or> w \<in> set (followers c) \<and> remaining deps ?placed w = 0"
      using res deg [OF True] split [OF True] by simp
    moreover have "w \<in> set ready \<longleftrightarrow> w \<noteq> c \<and> w \<notin> set placed \<and> remaining deps placed w = 0"
      using ready True by (cases "w = c") (auto simp: set_eq_iff)
    moreover have "w \<in> set (followers c) \<longleftrightarrow> ?n w \<noteq> 0" using mem [of w] True by linarith
    ultimately show ?thesis using used split [OF True] True by (metis Un_iff add_is_0 empty_iff list.set set_append insert_iff)
  next
    case False
    then have "w \<notin> set (followers c)" using mem [of w] by argo
    moreover have "w \<notin> set ready" using ready(2) False by (metis (no_types, lifting) list.set_intros(2) mem_Collect_eq)
    ultimately show ?thesis using res False by simp
  qed
  have deg': "map_of indegree' w = Some (int (remaining deps ?placed w))" if "w \<in> set ids" for w
    using res deg [OF that] split [OF that] by simp
  have "set ready' = {w \<in> set ids. w \<notin> set ?placed \<and> remaining deps ?placed w = 0}"
    using zero by blast
  then show ?thesis
    unfolding kahn_invariant_def using res keys placed c deg' by (simp add: dependency_ordered_snoc)
qed

lemma kahn_loop:
  assumes "kahn_invariant deps ids indegree ready placed"
    and "\<And>v w. count (mset (followers v)) w = (if w \<in> set ids then count (mset (deps w)) v else 0)"
  shows "\<exists>indegree'. kahn_invariant deps ids indegree' [] (topology_loop followers indegree ready placed)"
  using assms
proof (induction followers indegree ready placed rule: topology_loop.induct)
  case (2 followers indegree current ready topology)
  obtain indegree' ready' where run: "release_followers (sort (followers current)) indegree ready = (indegree', ready')"
    by (cases "release_followers (sort (followers current)) indegree ready")
  show ?case
    using "2.IH" [OF refl run [symmetric]] kahn_step [OF "2.prems"(1) "2.prems"(2) run] "2.prems"(2) run by simp
qed auto

lemma finished_order_complete:
  assumes "kahn_invariant deps ids indegree [] placed" "distinct ids"
    and closed: "\<And>w. w \<in> set ids \<Longrightarrow> set (deps w) \<subseteq> set ids"
    and "acyclic {(d, w). w \<in> set ids \<and> d \<in> set (deps w)}"
  shows "set placed = set ids"
proof (rule ccontr)
  assume "set placed \<noteq> set ids"
  then obtain w0 where w0: "w0 \<in> set ids - set placed" using assms(1) by (auto simp: kahn_invariant_def)
  let ?r = "{(d, w). w \<in> set ids \<and> d \<in> set (deps w)}"
  have "finite ?r"
    by (rule finite_subset [of _ "set ids \<times> set ids"]) (use closed in auto)
  then have "wf ?r" using assms(4) by (rule finite_acyclic_wf)
  then obtain z where z: "z \<in> set ids - set placed" "\<And>y. (y, z) \<in> ?r \<Longrightarrow> y \<notin> set ids - set placed"
    using w0 by (rule wfE_min) blast
  then have "set (deps z) \<subseteq> set placed" using closed by blast
  then show False using z(1) assms(1) by (auto simp: kahn_invariant_def remaining_zero)
qed

lemma ordered_position:
  assumes "dependency_ordered deps xs" "distinct xs" "(d, w) \<in> {(d, w). w \<in> set xs \<and> d \<in> set (deps w)}"
  shows "\<exists>i j. i < j \<and> j < length xs \<and> xs ! i = d \<and> xs ! j = w"
proof -
  obtain j where j: "j < length xs" "xs ! j = w" using assms(3) by (auto simp: in_set_conv_nth)
  then have "d \<in> set (take j xs)" using assms(1,3) by (auto simp: dependency_ordered_def)
  then obtain i where "i < j" "xs ! i = d" using j by (auto simp: in_set_conv_nth)
  then show ?thesis using j by blast
qed

lemma ordered_acyclic:
  assumes "dependency_ordered deps xs" "distinct xs"
  shows "acyclic {(d, w). w \<in> set xs \<and> d \<in> set (deps w)}"
proof -
  define pos where "pos = (\<lambda>x. LEAST i. i < length xs \<and> xs ! i = x)"
  have pos: "pos (xs ! i) = i" if "i < length xs" for i
    unfolding pos_def using that assms(2) by (intro Least_equality) (auto simp: nth_eq_iff_index_eq)
  have "{(d, w). w \<in> set xs \<and> d \<in> set (deps w)} \<subseteq> measure pos"
  proof
    fix p
    assume "p \<in> {(d, w). w \<in> set xs \<and> d \<in> set (deps w)}"
    then obtain d w where p: "p = (d, w)" "(d, w) \<in> {(d, w). w \<in> set xs \<and> d \<in> set (deps w)}" by auto
    obtain i j where "i < j" "j < length xs" "xs ! i = d" "xs ! j = w"
      using ordered_position [OF assms p(2)] by blast
    then show "p \<in> measure pos" using p(1) pos [of i] pos [of j] by auto
  qed
  then have "wf {(d, w). w \<in> set xs \<and> d \<in> set (deps w)}" by (rule wf_subset [OF wf_measure])
  then show ?thesis by (rule wf_acyclic)
qed

subsection \<open>The order of a consumer graph\<close>

definition dependency_ids :: "'x manifest list \<Rightarrow> pystr \<Rightarrow> pystr list" where
  "dependency_ids ns w =
     (case map_of (node_table ns) w of None \<Rightarrow> [] | Some m \<Rightarrow> map hd_id (cm_dependencies m))"

definition depends_on :: "'x manifest list \<Rightarrow> (pystr \<times> pystr) set" where
  "depends_on ms = {(hd_id d, qualified_id m) | d m. m \<in> set ms \<and> d \<in> set (cm_dependencies m)}"

lemma fst_node_table: "map fst (node_table ns) = map qualified_id ns"
  by (simp add: node_table_def comp_def)

lemma node_table_Some:
  "distinct (map qualified_id ns) \<Longrightarrow> map_of (node_table ns) w = Some m \<longleftrightarrow> m \<in> set ns \<and> qualified_id m = w"
  by (auto simp: map_of_eq_Some_iff fst_node_table) (auto simp: node_table_def)

lemma node_table_member:
  "distinct (map qualified_id ns) \<Longrightarrow> m \<in> set ns \<Longrightarrow> map_of (node_table ns) (qualified_id m) = Some m"
  by (simp add: node_table_Some)

lemma count_single_followers:
  "count (mset (map (\<lambda>_. a) (filter (\<lambda>d. hd_id d = v) ds))) w = (if w = a then count (mset (map hd_id ds)) v else 0)"
  by (induction ds) auto

lemma followers_count:
  "distinct (map qualified_id ns) \<Longrightarrow>
   count (mset (followers_of ns v)) w =
     (if w \<in> set (map qualified_id ns) then count (mset (dependency_ids ns w)) v else 0)"
proof (induction ns)
  case (Cons m ns)
  have "count (mset (followers_of (m # ns) v)) w =
      (if w = qualified_id m then count (mset (map hd_id (cm_dependencies m))) v else 0) + count (mset (followers_of ns v)) w"
    using count_single_followers [of "qualified_id m" v "cm_dependencies m" w] by (simp add: followers_of_def)
  also have "\<dots> = (if w \<in> set (map qualified_id (m # ns)) then count (mset (dependency_ids (m # ns) w)) v else 0)"
    using Cons by (auto simp: dependency_ids_def node_table_def)
  finally show ?case .
qed (simp add: followers_of_def)

lemma initial_invariant:
  assumes "distinct (map qualified_id ns)"
  shows "kahn_invariant (dependency_ids ns) (map qualified_id ns) (initial_degrees ns)
    (sort (map fst (filter (\<lambda>p. snd p = 0) (initial_degrees ns)))) []"
proof -
  have deg: "map_of (initial_degrees ns) (qualified_id m) = Some (int (remaining (dependency_ids ns) [] (qualified_id m)))"
    if "m \<in> set ns" for m
  proof -
    have "(qualified_id m, int (length (cm_dependencies m))) \<in> set (initial_degrees ns)"
      using that by (auto simp: initial_degrees_def)
    then show ?thesis
      using assms that by (simp add: map_of_eq_Some_iff initial_degrees_def comp_def remaining_def dependency_ids_def node_table_member)
  qed
  have ready: "w \<in> set (map fst (filter (\<lambda>p. snd p = 0) (initial_degrees ns))) \<longleftrightarrow>
      w \<in> set (map qualified_id ns) \<and> remaining (dependency_ids ns) [] w = 0" for w
    using assms by (auto simp: initial_degrees_def remaining_def dependency_ids_def node_table_member image_iff)
  have "distinct (map fst (filter (\<lambda>p. snd p = 0) (initial_degrees ns)))"
    using assms by (intro distinct_map_filter) (simp add: initial_degrees_def comp_def)
  moreover have "set (sort (map fst (filter (\<lambda>p. snd p = 0) (initial_degrees ns)))) =
      {w \<in> set (map qualified_id ns). w \<notin> set [] \<and> remaining (dependency_ids ns) [] w = 0}"
    using ready by (simp only: set_sort) auto
  moreover have "map fst (initial_degrees ns) = map qualified_id ns"
    by (simp add: initial_degrees_def comp_def)
  ultimately show ?thesis
    using deg unfolding kahn_invariant_def by (simp add: dependency_ordered_Nil)
qed

lemma topology_ids_invariant:
  assumes "distinct (map qualified_id ns)"
  shows "\<exists>indegree. kahn_invariant (dependency_ids ns) (map qualified_id ns) indegree [] (topology_ids ns)"
  using kahn_loop [OF initial_invariant [OF assms] followers_count [OF assms]] by (simp add: topology_ids_def Let_def)

definition resolved :: "'x manifest list \<Rightarrow> bool" where
  "resolved ms \<longleftrightarrow> (\<forall>m \<in> set ms. \<forall>d \<in> set (cm_dependencies m). d \<in> cm_handle ` set ms)"

lemma check_dependency_ok:
  assumes "distinct (map qualified_id ns)"
  shows "is_ok (check_dependency ns d) \<longleftrightarrow> d \<in> cm_handle ` set ns"
proof (cases "map_of (node_table ns) (hd_id d)")
  case None
  then have "hd_id d \<notin> qualified_id ` set ns" by (simp add: map_of_eq_None_iff node_table_def image_image)
  then show ?thesis using None by (auto simp: check_dependency_def qualified_id_def)
next
  case (Some m)
  have "m = n" if "n \<in> set ns" "cm_handle n = d" for n
    using node_table_member [OF assms that(1)] Some that(2) by (simp add: qualified_id_def)
  moreover have "m \<in> set ns" using Some by (simp add: node_table_Some [OF assms])
  ultimately have "d \<in> cm_handle ` set ns \<longleftrightarrow> cm_handle m = d" by blast
  then show ?thesis using Some by (simp add: check_dependency_def raise_if_def)
qed

lemma dependency_relation:
  assumes "distinct (map qualified_id ns)"
  shows "depends_on ns = {(d, w). w \<in> set (map qualified_id ns) \<and> d \<in> set (dependency_ids ns w)}"
  using node_table_member [OF assms] by (auto simp: depends_on_def dependency_ids_def) blast

lemma topology_ids_order:
  assumes "distinct (map qualified_id ns)" "resolved ns"
  shows "length (topology_ids ns) = length ns \<longleftrightarrow> acyclic (depends_on ns)"
    and "length (topology_ids ns) = length ns \<Longrightarrow> mset (topology_ids ns) = mset (map qualified_id ns)"
    and "dependency_ordered (dependency_ids ns) (topology_ids ns)"
proof -
  obtain indegree where inv: "kahn_invariant (dependency_ids ns) (map qualified_id ns) indegree [] (topology_ids ns)"
    using topology_ids_invariant [OF assms(1)] by blast
  then have placed: "distinct (topology_ids ns)" "set (topology_ids ns) \<subseteq> set (map qualified_id ns)"
    and ord: "dependency_ordered (dependency_ids ns) (topology_ids ns)" by (simp_all add: kahn_invariant_def)
  have complete: "set (topology_ids ns) = set (map qualified_id ns)" if "length (topology_ids ns) = length ns"
    using placed that assms(1) by (metis List.finite_set card_subset_eq distinct_card length_map)
  have closed: "set (dependency_ids ns w) \<subseteq> set (map qualified_id ns)" if "w \<in> set (map qualified_id ns)" for w
    using assms(2) that node_table_member [OF assms(1)] by (fastforce simp: resolved_def dependency_ids_def qualified_id_def)
  show "length (topology_ids ns) = length ns \<longleftrightarrow> acyclic (depends_on ns)"
  proof
    assume "length (topology_ids ns) = length ns"
    then show "acyclic (depends_on ns)"
      using ordered_acyclic [OF ord placed(1)] complete by (simp add: dependency_relation [OF assms(1)])
  next
    assume "acyclic (depends_on ns)"
    then have "set (topology_ids ns) = set (map qualified_id ns)"
      using finished_order_complete [OF inv assms(1) closed] by (simp add: dependency_relation [OF assms(1)])
    then show "length (topology_ids ns) = length ns"
      using placed(1) assms(1) by (metis distinct_card length_map)
  qed
  show "mset (topology_ids ns) = mset (map qualified_id ns)" if "length (topology_ids ns) = length ns"
    using complete [OF that] placed(1) assms(1) by (metis set_eq_iff_mset_eq_distinct)
  show "dependency_ordered (dependency_ids ns) (topology_ids ns)" by (rule ord)
qed

definition lookup_nodes :: "'x manifest list \<Rightarrow> pystr list \<Rightarrow> 'x manifest list" where
  "lookup_nodes ns ids = map (\<lambda>i. the (map_of (node_table ns) i)) ids"

lemma lookup_nodes_ids:
  assumes "distinct (map qualified_id ns)" "mset ids = mset (map qualified_id ns)"
  shows "map qualified_id (lookup_nodes ns ids) = ids" and "mset (lookup_nodes ns ids) = mset ns"
    and "mapE (\<lambda>i. case map_of (node_table ns) i of None \<Rightarrow> Inl (KeyError ''node'') | Some m \<Rightarrow> Inr m) ids =
      Inr (lookup_nodes ns ids)"
proof -
  have hit: "\<exists>m \<in> set ns. map_of (node_table ns) i = Some m \<and> qualified_id m = i" if "i \<in> set ids" for i
    using that mset_eq_setD [OF assms(2)] node_table_member [OF assms(1)] by auto
  show "map qualified_id (lookup_nodes ns ids) = ids"
    unfolding lookup_nodes_def using hit by (auto intro!: map_idI simp: comp_def) fastforce
  have "map (\<lambda>i. the (map_of (node_table ns) i)) (map qualified_id ns) = ns"
    using node_table_member [OF assms(1)] by (auto intro!: map_idI simp: comp_def)
  then show "mset (lookup_nodes ns ids) = mset ns"
    unfolding lookup_nodes_def by (metis assms(2) mset_map)
  show "mapE (\<lambda>i. case map_of (node_table ns) i of None \<Rightarrow> Inl (KeyError ''node'') | Some m \<Rightarrow> Inr m) ids =
      Inr (lookup_nodes ns ids)"
    unfolding lookup_nodes_def using hit by (intro mapE_all) fastforce
qed

lemma resolved_perm: "mset ms = mset ns \<Longrightarrow> resolved ms = resolved ns"
  by (auto simp: resolved_def dest: mset_eq_setD)

lemma depends_on_perm: "mset ms = mset ns \<Longrightarrow> depends_on ms = depends_on ns"
  by (auto simp: depends_on_def dest: mset_eq_setD)

lemma mk_consumer_graph_Inr:
  assumes "mk_consumer_graph mint ms = Inr g"
  shows "distinct (map qualified_id ms) \<and> resolved ms \<and> acyclic (depends_on ms)"
    and "mset (cg_nodes g) = mset ms" and "distinct (map qualified_id (cg_nodes g))" and "resolved (cg_nodes g)"
    and "cg_topology g = lookup_nodes (cg_nodes g) (topology_ids (cg_nodes g))"
    and "mset (topology_ids (cg_nodes g)) = mset (map qualified_id (cg_nodes g))"
proof -
  let ?ns = "sort_key qualified_id ms"
  have d: "distinct (map qualified_id ?ns)" and chk: "is_ok (mapE (\<lambda>m. mapE (check_dependency ?ns) (cm_dependencies m)) ?ns)"
    and len: "length (topology_ids ?ns) = length ?ns" and n: "cg_nodes g = ?ns"
    and top: "mapE (\<lambda>i. case map_of (node_table ?ns) i of None \<Rightarrow> Inl (KeyError ''node'') | Some m \<Rightarrow> Inr m)
      (topology_ids ?ns) = Inr (cg_topology g)"
    using assms by (auto simp: mk_consumer_graph_def Let_def is_ok_iff simp del: distinct_map_sort_key)
  have r: "resolved ?ns"
    using chk by (simp add: mapE_is_ok check_dependency_ok [OF d] resolved_def)
  note order = topology_ids_order [OF d r]
  show "distinct (map qualified_id ms) \<and> resolved ms \<and> acyclic (depends_on ms)"
    using d r order(1) len resolved_perm [of ms ?ns] depends_on_perm [of ms ?ns] by simp
  show "mset (cg_nodes g) = mset ms" "distinct (map qualified_id (cg_nodes g))" "resolved (cg_nodes g)"
    using n d r by (simp_all del: distinct_map_sort_key) 
  show ids: "mset (topology_ids (cg_nodes g)) = mset (map qualified_id (cg_nodes g))"
    using order(2) [OF len] n by simp
  show "cg_topology g = lookup_nodes (cg_nodes g) (topology_ids (cg_nodes g))"
    using top lookup_nodes_ids(3) [OF d order(2) [OF len]] n by simp
qed

lemma mk_consumer_graph_ok:
  assumes "\<And>x. is_ok (mint x)" "distinct (map qualified_id ms)" "resolved ms" "acyclic (depends_on ms)"
  shows "is_ok (mk_consumer_graph mint ms)"
proof -
  let ?ns = "sort_key qualified_id ms"
  have d: "distinct (map qualified_id ?ns)" and r: "resolved ?ns" and a: "acyclic (depends_on ?ns)"
    using assms(2-) resolved_perm [of ?ns ms] depends_on_perm [of ?ns ms] by simp_all
  obtain ys where "mapE (\<lambda>m. mapE (check_dependency ?ns) (cm_dependencies m)) ?ns = Inr ys"
    using r unfolding resolved_def check_dependency_ok [OF d, symmetric] by (metis (no_types, lifting) mapE_is_ok is_ok_iff)
  moreover obtain i where "mint (?ns, map qualified_id (lookup_nodes ?ns (topology_ids ?ns))) = Inr i"
    using assms(1) by (metis is_ok_iff)
  ultimately show ?thesis
    using d topology_ids_order [OF d r] lookup_nodes_ids [OF d] a unfolding mk_consumer_graph_def Let_def
    by (simp del: distinct_map_sort_key)
qed

lemma mk_consumer_graph_perm:
  assumes "mset ms' = mset ms"
  shows "mk_consumer_graph mint ms' = mk_consumer_graph mint ms"
proof (cases "distinct (map qualified_id ms)")
  case True
  then have "sort_key qualified_id ms' = sort_key qualified_id ms"
    using assms sort_key_perm_eq [of ms' ms qualified_id] mset_eq_setD [OF assms] by (simp add: distinct_map)
  then show ?thesis by (simp add: mk_consumer_graph_def)
next
  case False
  then have "\<not> distinct (map qualified_id ms')"
    using assms mset_eq_imp_distinct_iff [of "map qualified_id ms'" "map qualified_id ms"] by simp
  then show ?thesis using False by (simp add: mk_consumer_graph_def Let_def)
qed

lemma topology_dependencies:
  assumes "mk_consumer_graph mint ms = Inr g" "i < length (cg_topology g)" "d \<in> set (cm_dependencies (cg_topology g ! i))"
  shows "\<exists>j < i. cm_handle (cg_topology g ! j) = d"
proof -
  let ?ns = "cg_nodes g" and ?ids = "topology_ids (cg_nodes g)"
  note g = mk_consumer_graph_Inr(3,4,5,6) [OF assms(1)]
  have ids: "map qualified_id (cg_topology g) = ?ids" and nodes: "mset (cg_topology g) = mset ?ns"
    using lookup_nodes_ids [OF g(1,4)] g(3) by simp_all
  let ?m = "cg_topology g ! i"
  have m: "?m \<in> set ?ns" using assms(2) nodes by (metis mset_eq_setD nth_mem)
  have "hd_id d \<in> set (dependency_ids ?ns (qualified_id ?m))"
    using assms(3) node_table_member [OF g(1) m] by (simp add: dependency_ids_def)
  moreover have "qualified_id ?m = ?ids ! i" using ids assms(2) by (metis nth_map)
  moreover have "i < length ?ids" using ids assms(2) by (metis length_map)
  ultimately have "hd_id d \<in> set (take i ?ids)"
    using topology_ids_order(3) [OF g(1,2)] by (auto simp: dependency_ordered_def)
  then obtain j where j: "j < i" "j < length ?ids" "?ids ! j = hd_id d" by (auto simp: in_set_conv_nth)
  have "d \<in> cm_handle ` set ?ns" using g(2) m assms(3) unfolding resolved_def by blast
  then obtain n where n: "n \<in> set ?ns" "cm_handle n = d" by auto
  have "cg_topology g ! j = the (map_of (node_table ?ns) (hd_id d))"
    using g(3) j by (simp add: lookup_nodes_def)
  also have "\<dots> = n" using node_table_member [OF g(1) n(1)] n(2) by (simp add: qualified_id_def)
  finally show ?thesis using j(1) n(2) by blast
qed

text \<open>
  C39.  Construction of a \<^verbatim>\<open>ConsumerGraph\<close> (Kahn's algorithm over the sorted consumer handles): it
  succeeds exactly when the consumer handles are distinct, every dependency is the exact handle of a node, and
  the dependency relation has no cycle; the topology then holds every manifest exactly once, each after all its
  dependencies; and the result, exception included, does not depend on the order in which the manifests are
  supplied.
\<close>

theorem consumer_graph_topology:
  assumes "\<And>x. is_ok (mint x)"
  shows "(is_ok (mk_consumer_graph mint ms) \<longleftrightarrow>
      distinct (map qualified_id ms) \<and> resolved ms \<and> acyclic (depends_on ms))
    \<and> (\<forall>g. mk_consumer_graph mint ms = Inr g \<longrightarrow>
        mset (cg_topology g) = mset ms
        \<and> (\<forall>i < length (cg_topology g). \<forall>d \<in> set (cm_dependencies (cg_topology g ! i)).
            \<exists>j < i. cm_handle (cg_topology g ! j) = d))
    \<and> (\<forall>ms'. mset ms' = mset ms \<longrightarrow> mk_consumer_graph mint ms' = mk_consumer_graph mint ms)"
proof (intro conjI allI impI ballI)
  show "is_ok (mk_consumer_graph mint ms) \<longleftrightarrow>
      distinct (map qualified_id ms) \<and> resolved ms \<and> acyclic (depends_on ms)"
    using mk_consumer_graph_Inr(1) [of mint ms] mk_consumer_graph_ok [OF assms, of ms] by (auto simp: is_ok_iff)
next
  fix g
  assume g: "mk_consumer_graph mint ms = Inr g"
  note nodes = mk_consumer_graph_Inr(2,3,5,6) [OF g]
  show "mset (cg_topology g) = mset ms"
    using lookup_nodes_ids(2) [OF nodes(2,4)] nodes(1,3) by simp
next
  fix g i d
  assume "mk_consumer_graph mint ms = Inr g" "i < length (cg_topology g)" "d \<in> set (cm_dependencies (cg_topology g ! i))"
  then show "\<exists>j < i. cm_handle (cg_topology g ! j) = d" by (rule topology_dependencies)
next
  fix ms' assume "mset ms' = mset ms"
  then show "mk_consumer_graph mint ms' = mk_consumer_graph mint ms" by (rule mk_consumer_graph_perm)
qed

definition sample_identity :: "string \<Rightarrow> identity" where
  "sample_identity d = \<lparr>id_domain = ascii d, id_schema_version = 1, id_algorithm = ascii ''sha256'', id_digest = []\<rparr>"

definition sample_handle :: "string \<Rightarrow> handle" where
  "sample_handle name = \<lparr>hd_id = ascii name, hd_kind = ascii ''consumer'', hd_owner = [], hd_block = None, hd_data = []\<rparr>"

definition sample_clock :: clock where
  "sample_clock = \<lparr>cl_owner = Some (ascii ''case''), cl_data = ascii ''main'', cl_id = ascii ''pops.clock.v1::main''\<rparr>"

definition sample_manifest :: "string \<Rightarrow> string list \<Rightarrow> unit manifest" where
  "sample_manifest name deps =
     \<lparr>cm_handle = sample_handle name, cm_kind = MONITOR, cm_quantities = [],
      cm_schedule = \<lparr>sc_domain = \<lparr>dm_clock = sample_clock, dm_at = None, dm_kind = AcceptedStep\<rparr>, sc_trigger = Every 2, sc_off = None\<rparr>,
      cm_target = ascii ''out'', cm_format = None, cm_operation = None, cm_mode = SERIAL, cm_diagnostics = [],
      cm_dependencies = map sample_handle deps, cm_action = FailRun, cm_identity = sample_identity ''consumer-manifest''\<rparr>"

theorem consumer_graph_topology_witness:
  "(\<exists>g. mk_consumer_graph (\<lambda>_. Inr (sample_identity ''consumer-graph'')) [sample_manifest ''a'' [''b''], sample_manifest ''b'' []] = Inr g
      \<and> map qualified_id (cg_topology g) = [ascii ''b'', ascii ''a''])
   \<and> acyclic (depends_on [sample_manifest ''a'' [''b''], sample_manifest ''b'' []])
   \<and> \<not> acyclic (depends_on [sample_manifest ''a'' [''b''], sample_manifest ''b'' [''a'']])"
proof (intro conjI)
  let ?mint = "\<lambda>_. Inr (sample_identity ''consumer-graph'')"
  let ?good = "[sample_manifest ''a'' [''b''], sample_manifest ''b'' []]"
  let ?bad = "[sample_manifest ''a'' [''b''], sample_manifest ''b'' [''a'']]"
  have iff: "is_ok (mk_consumer_graph ?mint ms) \<longleftrightarrow> distinct (map qualified_id ms) \<and> resolved ms \<and> acyclic (depends_on ms)"
    for ms :: "unit manifest list"
    by (rule consumer_graph_topology [THEN conjunct1]) simp
  have top: "map_sum id (\<lambda>g. map qualified_id (cg_topology g)) (mk_consumer_graph ?mint ?good) = Inr [ascii ''b'', ascii ''a'']"
    by code_simp
  then show "\<exists>g. mk_consumer_graph ?mint ?good = Inr g \<and> map qualified_id (cg_topology g) = [ascii ''b'', ascii ''a'']"
    by (cases "mk_consumer_graph ?mint ?good") auto
  from top have "is_ok (mk_consumer_graph ?mint ?good)" by (cases "mk_consumer_graph ?mint ?good") auto
  then show "acyclic (depends_on ?good)" using iff by blast
  have "\<not> is_ok (mk_consumer_graph ?mint ?bad)" by code_simp
  moreover have "distinct (map qualified_id ?bad)" "resolved ?bad" by code_simp+
  ultimately show "\<not> acyclic (depends_on ?bad)"
    using iff by blast
qed

end
