(* ===== verification/Runtime_Plan.thy ===== *)
theory Runtime_Plan
  imports Consumer_Effects
begin

text \<open>
  The immutable contracts of a runtime plan (\<^verbatim>\<open>pops/runtime/_runtime_plan_contracts.py\<close>) and the plain data they are
  read from (\<^verbatim>\<open>pops/_frozen_data.py\<close>, the row readers of \<^verbatim>\<open>pops/runtime/_runtime_planning.py\<close>).

  Every contract seals the identity of its payload; \<open>mint\<close> is that \<^verbatim>\<open>make_identity\<close>, over the datatype of payloads.
  A constructor takes a record whose identity field is not set yet.
\<close>

subsection \<open>Plain data\<close>

datatype raw_key = KText pystr | KOther

datatype raw_value =
    VNone | VBool bool | VInt int | VText pystr | VBytes "byte list" | VFloat
  | VList "raw_value list" | VMap "(raw_key \<times> raw_value) list" | VOpaque

definition plain_key :: "raw_key \<Rightarrow> pystr result" where
  "plain_key k =
     (case k of KText s \<Rightarrow> if s = [] then Inl (ValueError ''noncanonical_runtime_evidence'') else Inr s
      | KOther \<Rightarrow> Inl (ValueError ''noncanonical_runtime_evidence''))"

text \<open>All keys are tested before any item is read.\<close>

function (sequential) plain :: "raw_value \<Rightarrow> frozen result" where
  "plain VNone = Inr FNone"
| "plain (VBool b) = Inr (FBool b)"
| "plain (VInt n) = Inr (FInt n)"
| "plain (VText s) = Inr (FText s)"
| "plain (VBytes bs) = Inr (FBytes bs)"
| "plain VFloat = Inl (ValueError ''noncanonical_runtime_evidence'')"
| "plain (VList xs) = bindE (mapE plain xs) (\<lambda>ys. Inr (FList ys))"
| "plain (VMap kvs) =
     bindE (mapE (\<lambda>p. plain_key (fst p)) kvs) (\<lambda>keys.
     bindE (mapE (\<lambda>p. plain (snd p)) kvs) (\<lambda>items. Inr (FMap (zip keys items))))"
| "plain VOpaque = Inl (ValueError ''opaque_runtime_evidence'')"
  by pat_completeness auto
termination by (relation "measure size") (auto simp: size_list_estimation' less_Suc_eq_le elim: size_list_estimation')

text \<open>\<^verbatim>\<open>_exact\<close>: a mapping with the required fields and no others than the optional ones.\<close>

definition exact_row :: "pystr list \<Rightarrow> pystr list \<Rightarrow> frozen \<Rightarrow> (pystr \<times> frozen) list result" where
  "exact_row required optional row =
     (case row of
        FMap kvs \<Rightarrow>
          (if set required \<subseteq> fst ` set kvs \<and> fst ` set kvs \<subseteq> set required \<union> set optional then Inr kvs
           else Inl (ValueError ''runtime_row_fields_mismatch''))
      | _ \<Rightarrow> Inl (ValueError ''runtime_row_not_mapping''))"

definition row_get :: "(pystr \<times> frozen) list \<Rightarrow> pystr \<Rightarrow> frozen" where
  "row_get kvs key = (case map_of kvs key of None \<Rightarrow> FNone | Some v \<Rightarrow> v)"

definition row_text :: "frozen \<Rightarrow> pystr result" where
  "row_text v =
     (case v of FText s \<Rightarrow> if is_ok (check_text s) then Inr s else Inl (ValueError ''invalid_runtime_text'')
      | _ \<Rightarrow> Inl (ValueError ''invalid_runtime_text''))"

definition row_positive :: "frozen \<Rightarrow> int result" where
  "row_positive v =
     (case v of FInt n \<Rightarrow> if n < 1 then Inl (ValueError ''invalid_runtime_integer'') else Inr n
      | _ \<Rightarrow> Inl (ValueError ''invalid_runtime_integer''))"

subsection \<open>Contracts\<close>

definition check_positive :: "int \<Rightarrow> int result" where
  "check_positive n = (if n < 1 then Inl (TypeError ''must be an integer >= 1'') else Inr n)"

definition check_strings :: "pystr list \<Rightarrow> pystr list result" where
  "check_strings xs =
     bindE (mapE check_text xs) (\<lambda>ys. if distinct ys then Inr ys else Inl (ValueError ''contains duplicate values''))"

definition read_mode :: pystr where "read_mode = ascii ''read''"

definition write_mode :: pystr where "write_mode = ascii ''write''"

record field_access =
  fa_resource :: pystr
  fa_mode :: pystr
  fa_space :: pystr

definition mk_field_access :: "field_access \<Rightarrow> field_access result" where
  "mk_field_access a =
     bindE (check_text (fa_resource a)) (\<lambda>_.
     bindE (raise_if (fa_mode a \<notin> {read_mode, write_mode}) (ValueError ''FieldAccess.mode must be read or write'')) (\<lambda>_.
     bindE (check_text (fa_space a)) (\<lambda>_. Inr a)))"

record runtime_call =
  rc_identity :: identity
  rc_ordinal :: int
  rc_block :: pystr
  rc_component :: pystr
  rc_component_type :: pystr
  rc_manifest :: identity
  rc_layout :: pystr
  rc_entry :: pystr
  rc_reads :: "field_access list"
  rc_writes :: "field_access list"
  rc_requirements :: "frozen list"
  rc_effects :: "frozen list"
  rc_clocks :: "frozen list"

record halo =
  ha_identity :: identity
  ha_call :: pystr
  ha_resource :: pystr
  ha_layout :: pystr
  ha_depth :: int

record transfer =
  tr_identity :: identity
  tr_mapping :: pystr
  tr_provider :: pystr
  tr_component :: pystr
  tr_source_layout :: pystr
  tr_target_layout :: pystr
  tr_source_subject :: pystr
  tr_target_subject :: pystr
  tr_source_representation :: pystr
  tr_target_representation :: pystr
  tr_operation_abi :: int
  tr_synchronization :: pystr

record collective =
  co_identity :: identity
  co_call :: pystr
  co_resource :: pystr
  co_operation :: pystr
  co_strategy :: pystr
  co_communicator :: pystr
  co_sequence :: int

record fence =
  fe_identity :: identity
  fe_resource :: pystr
  fe_before :: pystr
  fe_after :: pystr
  fe_source :: pystr
  fe_target :: pystr

record clock_join =
  cj_identity :: identity
  cj_call :: pystr
  cj_source :: pystr
  cj_target :: pystr
  cj_policy :: pystr

record communication_plan =
  pc_identity :: identity
  pc_layout :: pystr
  pc_communicator :: pystr
  pc_halos :: "halo list"
  pc_transfers :: "transfer list"
  pc_collectives :: "collective list"
  pc_fences :: "fence list"
  pc_joins :: "clock_join list"

record resource_use =
  ru_resource :: pystr
  ru_space :: pystr
  ru_first :: int
  ru_last :: int
  ru_modes :: "pystr list"

record buffer_allocation =
  bf_resource :: pystr
  bf_space :: pystr
  bf_size :: int
  bf_first :: int
  bf_last :: int

record resource_plan =
  rpl_identity :: identity
  rpl_layout :: pystr
  rpl_context :: identity
  rpl_spaces :: "pystr list"
  rpl_uses :: "resource_use list"
  rpl_buffers :: "buffer_allocation list"
  rpl_providers :: "pystr list"
  rpl_fence_ids :: "pystr list"
  rpl_declared :: "frozen list"

datatype determinism_class = Bitwise | Reproducible | Statistical | Nondeterministic

record determinism_guarantee =
  dg_identity :: identity
  dg_class :: determinism_class
  dg_scope :: "pystr list"
  dg_assumptions :: "(pystr \<times> frozen) list"
  dg_evidence :: "(pystr \<times> frozen) list"
  dg_context :: identity

record runtime_plan =
  rt_identity :: identity
  rt_install :: identity
  rt_platform :: identity
  rt_context :: identity
  rt_layout :: pystr
  rt_calls :: "runtime_call list"
  rt_communication :: communication_plan
  rt_resources :: resource_plan
  rt_determinism :: determinism_guarantee

datatype plan_payload =
    P_call runtime_call | P_halo halo | P_transfer transfer | P_collective collective | P_fence fence
  | P_join clock_join | P_communication communication_plan | P_resources resource_plan
  | P_determinism determinism_guarantee | P_bundle runtime_plan

definition rc_token :: "runtime_call \<Rightarrow> pystr" where "rc_token c = token (rc_identity c)"

definition co_token :: "collective \<Rightarrow> pystr" where "co_token c = token (co_identity c)"

definition fe_token :: "fence \<Rightarrow> pystr" where "fe_token f = token (fe_identity f)"

definition call_accesses :: "runtime_call \<Rightarrow> field_access list" where
  "call_accesses c = rc_reads c @ rc_writes c"

definition mk_runtime_call :: "(plan_payload \<Rightarrow> identity result) \<Rightarrow> runtime_call \<Rightarrow> runtime_call result" where
  "mk_runtime_call mint c =
     bindE (check_index (rc_ordinal c)) (\<lambda>_.
     bindE (mapE check_text [rc_block c, rc_component c, rc_component_type c, rc_layout c, rc_entry c]) (\<lambda>_.
     bindE (check_identity ''component-semantics'' (rc_manifest c)) (\<lambda>_.
     bindE (raise_if (list_ex (\<lambda>a. fa_mode a \<noteq> read_mode) (rc_reads c)) (TypeError ''RuntimeCall.reads'')) (\<lambda>_.
     bindE (raise_if (list_ex (\<lambda>a. fa_mode a \<noteq> write_mode) (rc_writes c)) (TypeError ''RuntimeCall.writes'')) (\<lambda>_.
     bindE (mint (P_call c)) (\<lambda>i. Inr (c\<lparr>rc_identity := i\<rparr>)))))))"

definition mk_halo :: "(plan_payload \<Rightarrow> identity result) \<Rightarrow> halo \<Rightarrow> halo result" where
  "mk_halo mint h =
     bindE (mapE check_text [ha_call h, ha_resource h, ha_layout h]) (\<lambda>_.
     bindE (check_positive (ha_depth h)) (\<lambda>_.
     bindE (mint (P_halo h)) (\<lambda>i. Inr (h\<lparr>ha_identity := i\<rparr>))))"

definition mk_transfer :: "(plan_payload \<Rightarrow> identity result) \<Rightarrow> transfer \<Rightarrow> transfer result" where
  "mk_transfer mint t =
     bindE (mapE check_text [tr_mapping t, tr_provider t, tr_component t, tr_source_layout t, tr_target_layout t,
       tr_source_subject t, tr_target_subject t, tr_source_representation t, tr_target_representation t,
       tr_synchronization t]) (\<lambda>_.
     bindE (check_positive (tr_operation_abi t)) (\<lambda>_.
     bindE (raise_if (tr_source_layout t = tr_target_layout t) (ValueError ''LayoutTransfer must cross distinct layouts'')) (\<lambda>_.
     bindE (mint (P_transfer t)) (\<lambda>i. Inr (t\<lparr>tr_identity := i\<rparr>)))))"

definition mk_collective :: "(plan_payload \<Rightarrow> identity result) \<Rightarrow> collective \<Rightarrow> collective result" where
  "mk_collective mint c =
     bindE (mapE check_text [co_call c, co_resource c, co_operation c, co_strategy c, co_communicator c]) (\<lambda>_.
     bindE (check_index (co_sequence c)) (\<lambda>_.
     bindE (mint (P_collective c)) (\<lambda>i. Inr (c\<lparr>co_identity := i\<rparr>))))"

definition mk_fence :: "(plan_payload \<Rightarrow> identity result) \<Rightarrow> fence \<Rightarrow> fence result" where
  "mk_fence mint f =
     bindE (mapE check_text [fe_resource f, fe_before f, fe_after f, fe_source f, fe_target f]) (\<lambda>_.
     bindE (raise_if (fe_before f = fe_after f) (ValueError ''Fence cannot split one opaque RuntimeCall'')) (\<lambda>_.
     bindE (raise_if (fe_source f = fe_target f) (ValueError ''Fence requires distinct memory spaces'')) (\<lambda>_.
     bindE (mint (P_fence f)) (\<lambda>i. Inr (f\<lparr>fe_identity := i\<rparr>)))))"

definition mk_clock_join :: "(plan_payload \<Rightarrow> identity result) \<Rightarrow> clock_join \<Rightarrow> clock_join result" where
  "mk_clock_join mint j =
     bindE (mapE check_text [cj_call j, cj_source j, cj_target j, cj_policy j]) (\<lambda>_.
     bindE (raise_if (cj_source j = cj_target j) (ValueError ''ClockJoin requires distinct clocks'')) (\<lambda>_.
     bindE (mint (P_join j)) (\<lambda>i. Inr (j\<lparr>cj_identity := i\<rparr>))))"

definition check_collective_sequence :: "collective list \<Rightarrow> unit result" where
  "check_collective_sequence cs =
     raise_if (map co_sequence cs \<noteq> map int [0..<length cs]) (ValueError ''CommunicationPlan collective sequence must be contiguous'')"

definition mk_communication_plan ::
  "(plan_payload \<Rightarrow> identity result) \<Rightarrow> communication_plan \<Rightarrow> communication_plan result" where
  "mk_communication_plan mint p =
     bindE (mapE check_text [pc_layout p, pc_communicator p]) (\<lambda>_.
     bindE (check_collective_sequence (pc_collectives p)) (\<lambda>_.
     bindE (mint (P_communication p)) (\<lambda>i. Inr (p\<lparr>pc_identity := i\<rparr>))))"

definition mk_resource_use :: "resource_use \<Rightarrow> resource_use result" where
  "mk_resource_use u =
     bindE (mapE check_text [ru_resource u, ru_space u]) (\<lambda>_.
     bindE (mapE check_index [ru_first u, ru_last u]) (\<lambda>_.
     bindE (raise_if (ru_last u < ru_first u) (ValueError ''ResourceUse.last_call precedes first_call'')) (\<lambda>_.
     bindE (check_strings (ru_modes u)) (\<lambda>modes.
     bindE (raise_if (modes = [] \<or> \<not> set modes \<subseteq> {read_mode, write_mode} \<or> modes \<noteq> sort modes)
       (ValueError ''ResourceUse.modes must be sorted read/write values'')) (\<lambda>_. Inr u)))))"

definition mk_buffer :: "buffer_allocation \<Rightarrow> buffer_allocation result" where
  "mk_buffer b =
     bindE (mapE check_text [bf_resource b, bf_space b]) (\<lambda>_.
     bindE (check_positive (bf_size b)) (\<lambda>_.
     bindE (mapE check_index [bf_first b, bf_last b]) (\<lambda>_.
     bindE (raise_if (bf_last b < bf_first b) (ValueError ''BufferAllocation.last_call precedes first_call'')) (\<lambda>_. Inr b))))"

definition mk_resource_plan :: "(plan_payload \<Rightarrow> identity result) \<Rightarrow> resource_plan \<Rightarrow> resource_plan result" where
  "mk_resource_plan mint p =
     bindE (check_text (rpl_layout p)) (\<lambda>_.
     bindE (check_identity ''execution-context'' (rpl_context p)) (\<lambda>_.
     bindE (check_strings (rpl_spaces p)) (\<lambda>_.
     bindE (check_strings (rpl_providers p)) (\<lambda>_.
     bindE (check_strings (rpl_fence_ids p)) (\<lambda>_.
     bindE (mint (P_resources p)) (\<lambda>i. Inr (p\<lparr>rpl_identity := i\<rparr>)))))))"

definition mk_determinism ::
  "(plan_payload \<Rightarrow> identity result) \<Rightarrow> determinism_guarantee \<Rightarrow> determinism_guarantee result" where
  "mk_determinism mint d =
     bindE (check_strings (dg_scope d)) (\<lambda>_.
     bindE (check_identity ''execution-context'' (dg_context d)) (\<lambda>_.
     bindE (mint (P_determinism d)) (\<lambda>i. Inr (d\<lparr>dg_identity := i\<rparr>))))"

definition require_assumptions :: "determinism_guarantee \<Rightarrow> (pystr \<times> frozen) list \<Rightarrow> unit result" where
  "require_assumptions d actual =
     raise_if (\<not> list_all (\<lambda>k. map_of actual k = map_of (dg_assumptions d) k) (map fst actual @ map fst (dg_assumptions d)))
       (ValueError ''determinism_assumption_mismatch'')"

definition referenced_calls :: "communication_plan \<Rightarrow> pystr list" where
  "referenced_calls p =
     map ha_call (pc_halos p) @ map co_call (pc_collectives p) @ map cj_call (pc_joins p)
     @ map fe_before (pc_fences p) @ map fe_after (pc_fences p)"

text \<open>The payload of a bundle holds every field but its identity.\<close>

definition bundle_payload :: "runtime_plan \<Rightarrow> plan_payload" where
  "bundle_payload b = P_bundle (b\<lparr>rt_identity := rt_install b\<rparr>)"

definition mk_runtime_plan :: "(plan_payload \<Rightarrow> identity result) \<Rightarrow> runtime_plan \<Rightarrow> runtime_plan result" where
  "mk_runtime_plan mint b =
     bindE (raise_if (id_domain (rt_install b) \<noteq> ascii ''bind'' \<or> id_domain (rt_platform b) \<noteq> ascii ''platform-manifest''
         \<or> id_domain (rt_context b) \<noteq> ascii ''execution-context'')
       (TypeError ''RuntimePlanBundle received an identity with the wrong domain'')) (\<lambda>_.
     bindE (check_text (rt_layout b)) (\<lambda>_.
     bindE (raise_if (map rc_ordinal (rt_calls b) \<noteq> map int [0..<length (rt_calls b)])
       (ValueError ''RuntimePlanBundle call ordinals must be contiguous'')) (\<lambda>_.
     bindE (raise_if (pc_layout (rt_communication b) \<noteq> rt_layout b \<or> rpl_layout (rt_resources b) \<noteq> rt_layout b)
       (ValueError ''RuntimePlanBundle subordinate layout identities disagree'')) (\<lambda>_.
     bindE (raise_if (rpl_context (rt_resources b) \<noteq> rt_context b \<or> dg_context (rt_determinism b) \<noteq> rt_context b)
       (ValueError ''RuntimePlanBundle execution-context identities disagree'')) (\<lambda>_.
     bindE (raise_if (\<not> set (referenced_calls (rt_communication b)) \<subseteq> rc_token ` set (rt_calls b))
       (ValueError ''RuntimePlanBundle communication references unknown RuntimeCalls'')) (\<lambda>_.
     bindE (raise_if (rpl_fence_ids (rt_resources b) \<noteq> map fe_token (pc_fences (rt_communication b)))
       (ValueError ''ResourcePlan fence identities disagree with CommunicationPlan'')) (\<lambda>_.
     bindE (mint (bundle_payload b)) (\<lambda>i. Inr (b\<lparr>rt_identity := i\<rparr>)))))))))"

end
