(* ===== verification/Consumer_Planning.thy ===== *)
theory Consumer_Planning
  imports Consumer_Graph Consumer_Transaction Runtime_Plan
begin

text \<open>
  Planning of accepted side effects: \<^verbatim>\<open>pops/runtime/_consumer_planning.py\<close> over the consumer graph, the field
  contexts, the cursor set and a runtime plan, and \<^verbatim>\<open>consumer_block_owner\<close> of
  \<^verbatim>\<open>pops/runtime/_consumer_ownership.py\<close>.

  A \<^verbatim>\<open>refuse(...)\<close> is the \<open>ValueError\<close> of its code (\<^verbatim>\<open>RuntimePlanningError\<close> derives from \<^verbatim>\<open>ValueError\<close>).  The identities
  that the planner mints are the functions of a \<open>mints\<close> record.  The graph is a resolved one; the coverage report
  that accompanies a plan, and the deadline query, are not modelled.
\<close>

subsection \<open>Schedules and occurrences\<close>

definition schedule_coordinate :: "'x manifest \<Rightarrow> moment \<Rightarrow> int option" where
  "schedule_coordinate m mo =
     (let dom = sc_domain (cm_schedule m) in
      if dm_clock dom \<noteq> tp_clock (mo_point mo) then None else consumer_coordinate (dm_kind dom) mo)"

definition is_due :: "'x trigger_provider \<Rightarrow> 'x manifest \<Rightarrow> moment \<Rightarrow> bool result" where
  "is_due tp m mo =
     (case schedule_coordinate m mo of
        None \<Rightarrow> Inr False
      | Some coordinate \<Rightarrow>
        (case consumer_due tp (sc_trigger (cm_schedule m)) coordinate mo of
           Inl e \<Rightarrow> Inl (if e = unresolved_condition then ValueError ''unresolved_consumer_condition'' else e)
         | Inr due \<Rightarrow> Inr due))"

datatype occurrence_evidence =
    Trigger_evidence pystr
  | Point_evidence "int option" clock_point domain_evidence

record 'x mints =
  mi_occurrence :: "pystr \<times> 'x schedule \<times> occurrence_evidence \<Rightarrow> identity result"
  mi_field :: "field_context \<Rightarrow> identity result"
  mi_payload :: "identity \<times> identity \<times> resource_binding list \<times> field_resolution list \<Rightarrow> identity result"
  mi_effect :: "side_effect \<Rightarrow> identity result"

definition occurrence :: "'x trigger_provider \<Rightarrow> 'x mints \<Rightarrow> 'x manifest \<Rightarrow> moment \<Rightarrow> identity result" where
  "occurrence tp mi m mo =
     (let sch = cm_schedule m; coordinate = schedule_coordinate m mo in
      bindE (trigger_occurrence_evidence tp (sc_trigger sch) coordinate mo) (\<lambda>trigger_evidence.
      mi_occurrence mi (qualified_id m, sch,
        (case trigger_evidence of
           Some t \<Rightarrow> Trigger_evidence t
         | None \<Rightarrow> Point_evidence coordinate (mo_point mo) (domain_occurrence_evidence (dm_kind (sc_domain sch)) mo)))))"

subsection \<open>Resources\<close>

definition consumer_resource_rows :: "'x manifest \<Rightarrow> (consumer_row \<times> pystr list) list" where
  "consumer_resource_rows m =
     map (\<lambda>q. (quantity_row q, if cm_mode m \<in> {ROOT, COLLECTIVE} then [ascii ''gather''] else [])) (cm_quantities m)
     @ map (\<lambda>q. (diagnostic_row q, diagnostic_collective_operations (dq_reductions q))) (cm_diagnostics m)"

definition row_accesses :: "runtime_plan \<Rightarrow> consumer_row \<Rightarrow> field_access list" where
  "row_accesses rt row =
     filter (\<lambda>a. fa_resource a = cr_resource row)
       (concat (map call_accesses (filter (\<lambda>c. rc_layout c = cr_layout row) (rt_calls rt))))"

definition row_collectives :: "runtime_plan \<Rightarrow> consumer_row \<Rightarrow> pystr list \<Rightarrow> collective list" where
  "row_collectives rt row expected =
     filter (\<lambda>c. co_resource c = cr_resource row \<and> co_operation c \<in> set expected) (pc_collectives (rt_communication rt))"

definition resource_binding_of :: "runtime_plan \<Rightarrow> consumer_row \<times> pystr list \<Rightarrow> resource_binding result" where
  "resource_binding_of rt = (\<lambda>(row, expected).
     (let accesses = row_accesses rt row; collectives = row_collectives rt row expected in
      bindE (raise_if (accesses = []) (ValueError ''consumer_resource_unavailable'')) (\<lambda>_.
      bindE (raise_if (\<not> set expected \<subseteq> set (map co_operation collectives)) (ValueError ''consumer_collective_unavailable'')) (\<lambda>_.
      mk_resource_binding
        \<lparr>rb_quantity = cr_identity row, rb_reference = hd_id (cr_reference row), rb_resource = cr_resource row,
         rb_layout = cr_layout row, rb_levels = cr_levels row, rb_spaces = sort (remdups (map fa_space accesses)),
         rb_collectives = sort (map co_token collectives)\<rparr>))))"

definition supports_singleton_collective :: "'x manifest \<Rightarrow> bool" where
  "supports_singleton_collective m =
     (case cm_operation m of None \<Rightarrow> False
      | Some data \<Rightarrow> map_of data (ascii ''supports_singleton_collective'') = Some (FBool True))"

definition resource_bindings :: "runtime_plan \<Rightarrow> 'x manifest \<Rightarrow> resource_binding list result" where
  "resource_bindings rt m =
     (let serial = (pc_communicator (rt_communication rt) = ascii ''serial'') in
      bindE (raise_if (cm_kind m \<in> {SCIENTIFIC_OUTPUT, MONITOR} \<and> cm_mode m = SERIAL \<and> \<not> serial)
        (ValueError ''serial_consumer_requires_serial_context'')) (\<lambda>_.
      bindE (raise_if (cm_mode m \<noteq> SERIAL \<and> serial \<and> \<not> supports_singleton_collective m)
        (ValueError ''distributed_consumer_requires_distributed_context'')) (\<lambda>_.
      mapE (resource_binding_of rt) (consumer_resource_rows m))))"

subsection \<open>Ownership of collectives\<close>

definition consumer_block_owner :: "handle \<Rightarrow> pystr list \<Rightarrow> owner_segment list \<Rightarrow> pystr option result" where
  "consumer_block_owner reference block_ids case_owner =
     (let member = (\<lambda>b. if b \<in> set block_ids then Some b else None) in
      case hd_block reference of
        Some b \<Rightarrow> Inr (member b)
      | None \<Rightarrow>
        if hd_kind reference = ascii ''block'' then Inr (member (hd_id reference))
        else if hd_kind reference \<noteq> ascii ''field'' then Inr None
        else (case remdups block_ids of
            [b] \<Rightarrow>
              (case case_owner of
                 [] \<Rightarrow> Inl (IndexError ''nodes'')
               | root # _ \<Rightarrow>
                 if os_kind root \<noteq> O_case then Inr None
                 else (case hd_owner reference of
                     [] \<Rightarrow> Inl (IndexError ''nodes'')
                   | node # _ \<Rightarrow> Inr (if node = root then Some b else None)))
          | _ \<Rightarrow> Inr None))"

record expectation =
  ex_row :: consumer_row
  ex_operation :: pystr
  ex_strategy :: pystr
  ex_owner :: "pystr option"

definition expectations_of :: "pystr list \<Rightarrow> 'x manifest \<Rightarrow> expectation list result" where
  "expectations_of block_ids m =
     mapE (\<lambda>(row, operation, strategy).
       bindE (consumer_block_owner (cr_reference row) block_ids (hd_owner (cm_handle m))) (\<lambda>owner.
       Inr \<lparr>ex_row = row, ex_operation = operation, ex_strategy = strategy, ex_owner = owner\<rparr>))
       (consumer_collective_requirements m)"

fun requirement_matches :: "collective \<Rightarrow> frozen \<Rightarrow> bool" where
  "requirement_matches c (FMap kvs) =
     (let expected = [(ascii ''capability'', FText (ascii ''collective'')), (ascii ''resource'', FText (co_resource c)),
                      (ascii ''operation'', FText (co_operation c)), (ascii ''strategy'', FText (co_strategy c))] in
      set (map fst kvs) = set (map fst expected)
      \<and> list_all (\<lambda>(name, v). map_of kvs name = Some v) expected)"
| "requirement_matches c _ = False"

definition owns_collective :: "collective \<Rightarrow> runtime_call \<Rightarrow> expectation \<Rightarrow> bool" where
  "owns_collective c call e \<longleftrightarrow>
     ex_owner e = Some (rc_block call) \<and> cr_layout (ex_row e) = rc_layout call
     \<and> cr_resource (ex_row e) = co_resource c \<and> ex_operation e = co_operation c \<and> ex_strategy e = co_strategy c"

definition calls_by_token :: "runtime_plan \<Rightarrow> (pystr \<times> runtime_call) list" where
  "calls_by_token rt = rev (map (\<lambda>c. (rc_token c, c)) (rt_calls rt))"

definition collective_owned :: "runtime_plan \<Rightarrow> pystr \<Rightarrow> expectation list \<Rightarrow> collective \<Rightarrow> unit result" where
  "collective_owned rt communicator_id expectations c =
     (let refused = ValueError ''runtime_collective_without_consumer_owner'' in
      case map_of (calls_by_token rt) (co_call c) of
        None \<Rightarrow> Inl refused
      | Some call \<Rightarrow>
        raise_if (\<not> (pc_communicator (rt_communication rt) = communicator_id \<and> co_communicator c = communicator_id)
            \<or> \<not> list_ex (\<lambda>a. fa_resource a = co_resource c) (call_accesses call)
            \<or> \<not> list_ex (requirement_matches c) (rc_requirements call)
            \<or> filter (owns_collective c call) expectations = []) refused)"

definition require_consumer_collective_ownership ::
  "runtime_plan \<Rightarrow> 'x consumer_graph \<Rightarrow> pystr \<Rightarrow> unit result" where
  "require_consumer_collective_ownership rt g communicator_id =
     bindE (raise_if (communicator_id = []) (TypeError ''collective ownership requires an exact communicator identity'')) (\<lambda>_.
     bindE (mapE (expectations_of (sort (remdups (map rc_block (rt_calls rt))))) (cg_nodes g)) (\<lambda>rows.
     bindE (mapE (collective_owned rt communicator_id (concat rows)) (pc_collectives (rt_communication rt))) (\<lambda>_. Inr ())))"

subsection \<open>Fields\<close>

definition field_consumer_of :: "consumer_kind \<Rightarrow> field_consumer" where
  "field_consumer_of kind = (if kind = DIAGNOSTIC then C_diagnostic else C_output)"

fun read_evidence :: "moment \<Rightarrow> layout_binding \<Rightarrow> field_read \<Rightarrow> identity \<times> pystr \<times> (pystr \<times> frozen) list" where
  "read_evidence mo layout (UseMaterializedField i) =
     (i, ascii ''materialized'',
      [(ascii ''requested_point'', point_data (mo_point mo)), (ascii ''layout'', layout_data layout)])"
| "read_evidence mo layout (UseHeldField i source requested) =
     (i, ascii ''held'',
      [(ascii ''source_point'', point_data source), (ascii ''requested_point'', point_data requested),
       (ascii ''layout'', layout_data layout)])"
| "read_evidence mo layout (RecomputeField i consumer requested f) =
     (i, ascii ''recompute'',
      [(ascii ''consumer'', FText (ascii (field_consumer_value consumer))), (ascii ''requested_point'', point_data requested),
       (ascii ''layout'', layout_data layout), (ascii ''explicit'', FBool True)])"

definition field_resolution_of ::
  "(field_context \<Rightarrow> identity result) \<Rightarrow> 'x manifest \<Rightarrow> moment \<Rightarrow> quantity \<Rightarrow> field_resolution option result" where
  "field_resolution_of mint m mo q =
     (case qu_field q of
        None \<Rightarrow> Inr None
      | Some context \<Rightarrow>
        (case layout_for mo (qu_layout q) of
           Inl _ \<Rightarrow> Inl (ValueError ''consumer_layout_generation_missing'')
         | Inr layout \<Rightarrow>
           (case resolve_read mint context (field_consumer_of (cm_kind m)) (mo_point mo) layout (qu_policy q) of
              Inl e \<Rightarrow> Inl (if e \<in> {field_read_error, field_attempt_rejected} then ValueError ''consumer_field_not_fresh'' else e)
            | Inr r \<Rightarrow>
              (let (i, action, evidence) = read_evidence mo layout r in
               bindE (mk_field_resolution
                 \<lparr>fr_quantity = qu_identity q, fr_context = i, fr_action = action, fr_evidence = evidence\<rparr>) (\<lambda>f.
               Inr (Some f))))))"

subsection \<open>The plan\<close>

text \<open>One iteration of the loop over the topology: the effects planned so far, and those after the consumer.\<close>

definition planned_effect ::
  "'x mints \<Rightarrow> runtime_plan \<Rightarrow> moment \<Rightarrow> (pystr \<times> resource_binding list) list \<Rightarrow> nat \<Rightarrow> 'x manifest \<Rightarrow> identity \<Rightarrow>
   schedule_cursor \<Rightarrow> side_effect result" where
  "planned_effect mi rt mo bindings ordinal m occ before =
     bindE (mapE (field_resolution_of (mi_field mi) m mo) (cm_quantities m)) (\<lambda>resolutions.
     bindE (case map_of bindings (qualified_id m) of None \<Rightarrow> Inl (KeyError ''bindings'') | Some b \<Rightarrow> Inr b) (\<lambda>resources.
     bindE (mk_payload (mi_payload mi) (rt_identity rt) occ resources (List.map_filter id resolutions)) (\<lambda>payload.
     bindE (mk_cursor (qualified_id m) (Some (token occ)) (cur_samples before + 1)) (\<lambda>after.
     bindE (mk_publication_target
       \<lparr>pt_uri = cm_target m, pt_format = cm_format m, pt_operation = cm_operation m, pt_mode = cm_mode m\<rparr>) (\<lambda>target.
     mk_side_effect (mi_effect mi)
       \<lparr>se_ordinal = int ordinal, se_consumer = qualified_id m, se_manifest = cm_identity m, se_target = target,
        se_payload = payload, se_action = cm_action m, se_before = before, se_after = after, se_identity = occ\<rparr>)))))"

definition plan_consumer ::
  "'x trigger_provider \<Rightarrow> 'x mints \<Rightarrow> runtime_plan \<Rightarrow> moment \<Rightarrow> cursor_set \<Rightarrow> (pystr \<times> resource_binding list) list \<Rightarrow>
   side_effect list \<Rightarrow> 'x manifest \<Rightarrow> side_effect list result" where
  "plan_consumer tp mi rt mo cursors bindings effects m =
     bindE (is_due tp m mo) (\<lambda>due.
     if \<not> due then Inr effects
     else
       bindE (occurrence tp mi m mo) (\<lambda>occ.
       bindE (for_consumer cursors (qualified_id m)) (\<lambda>before.
       if cur_last before = Some (token occ) then Inr effects
       else bindE (planned_effect mi rt mo bindings (length effects) m occ before) (\<lambda>e. Inr (effects @ [e])))))"

definition active_bindings ::
  "runtime_plan \<Rightarrow> moment \<Rightarrow> 'x consumer_graph \<Rightarrow> (pystr \<times> resource_binding list) list result" where
  "active_bindings rt mo g =
     mapE (\<lambda>m. bindE (resource_bindings rt m) (\<lambda>b. Inr (qualified_id m, b)))
       (filter (\<lambda>m. dm_clock (sc_domain (cm_schedule m)) = tp_clock (mo_point mo)) (cg_nodes g))"

definition plan_accepted_side_effects ::
  "'x trigger_provider \<Rightarrow> 'x mints \<Rightarrow> runtime_plan \<Rightarrow> 'x consumer_graph \<Rightarrow> moment \<Rightarrow> cursor_set \<Rightarrow> effect_plan result" where
  "plan_accepted_side_effects tp mi rt g mo cursors =
     bindE (active_bindings rt mo g) (\<lambda>bindings.
     bindE (foldE (plan_consumer tp mi rt mo cursors bindings) (cg_topology g) []) (\<lambda>effects.
     mk_effect_plan (cg_identity g) (rt_identity rt) effects))"

subsection \<open>Every planned collective has a consumer\<close>

lemma expectations_of_member:
  assumes "expectations_of block_ids m = Inr es" "e \<in> set es"
  shows "(ex_row e, ex_operation e, ex_strategy e) \<in> set (consumer_collective_requirements m)
    \<and> consumer_block_owner (cr_reference (ex_row e)) block_ids (hd_owner (cm_handle m)) = Inr (ex_owner e)"
proof -
  obtain p where "p \<in> set (consumer_collective_requirements m)"
    "(case p of (row, operation, strategy) \<Rightarrow>
       bindE (consumer_block_owner (cr_reference row) block_ids (hd_owner (cm_handle m))) (\<lambda>owner.
       Inr \<lparr>ex_row = row, ex_operation = operation, ex_strategy = strategy, ex_owner = owner\<rparr>)) = Inr e"
    using assms by (auto simp: expectations_of_def mapE_eq_Inr dest: list_all2_in_right)
  moreover obtain row operation strategy where "p = (row, operation, strategy)" by (rule prod_cases3)
  ultimately show ?thesis by auto
qed

lemma collective_has_owner:
  assumes "require_consumer_collective_ownership rt g communicator_id = Inr ()" "c \<in> set (pc_collectives (rt_communication rt))"
  shows "\<exists>call \<in> set (rt_calls rt). \<exists>m \<in> set (cg_nodes g). \<exists>row.
      rc_token call = co_call c \<and> co_communicator c = communicator_id \<and> pc_communicator (rt_communication rt) = communicator_id
      \<and> (row, co_operation c, co_strategy c) \<in> set (consumer_collective_requirements m)
      \<and> cr_resource row = co_resource c \<and> cr_layout row = rc_layout call
      \<and> consumer_block_owner (cr_reference row) (sort (remdups (map rc_block (rt_calls rt)))) (hd_owner (cm_handle m))
          = Inr (Some (rc_block call))"
proof -
  let ?blocks = "sort (remdups (map rc_block (rt_calls rt)))"
  obtain rows us where rows: "mapE (expectations_of ?blocks) (cg_nodes g) = Inr rows"
    and owned: "mapE (collective_owned rt communicator_id (concat rows)) (pc_collectives (rt_communication rt)) = Inr us"
    using assms(1) by (auto simp: require_consumer_collective_ownership_def)
  have "is_ok (collective_owned rt communicator_id (concat rows) c)"
    using owned assms(2) mapE_is_ok [of "collective_owned rt communicator_id (concat rows)" "pc_collectives (rt_communication rt)"] by simp
  then obtain call where call: "map_of (calls_by_token rt) (co_call c) = Some call"
    and comm: "pc_communicator (rt_communication rt) = communicator_id" "co_communicator c = communicator_id"
    and own: "filter (owns_collective c call) (concat rows) \<noteq> []"
    by (auto simp: collective_owned_def Let_def raise_if_def split: option.splits if_splits)
  obtain es e where e: "es \<in> set rows" "e \<in> set es" "owns_collective c call e" using own by (auto simp: filter_empty_conv)
  obtain m where m: "m \<in> set (cg_nodes g)" "expectations_of ?blocks m = Inr es"
    using rows e(1) by (auto simp: mapE_eq_Inr dest: list_all2_in_right)
  have "(co_call c, call) \<in> set (calls_by_token rt)" using call by (rule map_of_SomeD)
  then have "call \<in> set (rt_calls rt)" "rc_token call = co_call c" by (auto simp: calls_by_token_def)
  then show ?thesis
    using expectations_of_member [OF m(2) e(2)] e(3) comm m(1) unfolding owns_collective_def by metis
qed

subsection \<open>Exactly one effect for every due sample\<close>

text \<open>A consumer with a sample to take: it is due, and its cursor does not name this occurrence.\<close>

definition pending ::
  "'x trigger_provider \<Rightarrow> 'x mints \<Rightarrow> moment \<Rightarrow> cursor_set \<Rightarrow> 'x manifest \<Rightarrow> bool" where
  "pending tp mi mo cursors m \<longleftrightarrow>
     is_due tp m mo = Inr True
     \<and> (\<exists>occ before. occurrence tp mi m mo = Inr occ \<and> for_consumer cursors (qualified_id m) = Inr before
          \<and> cur_last before \<noteq> Some (token occ))"

text \<open>The effect of one sample of \<open>m\<close>, seen from the cursors it was planned with.\<close>

definition sample_effect ::
  "'x trigger_provider \<Rightarrow> 'x mints \<Rightarrow> moment \<Rightarrow> cursor_set \<Rightarrow> 'x manifest \<Rightarrow> side_effect \<Rightarrow> bool" where
  "sample_effect tp mi mo cursors m e \<longleftrightarrow>
     se_consumer e = qualified_id m \<and> se_manifest e = cm_identity m
     \<and> for_consumer cursors (qualified_id m) = Inr (se_before e)
     \<and> cur_consumer (se_after e) = qualified_id m \<and> cur_samples (se_after e) = cur_samples (se_before e) + 1
     \<and> (\<exists>occ. occurrence tp mi m mo = Inr occ \<and> cp_occurrence (se_payload e) = occ \<and> cur_last (se_after e) = Some (token occ))"

lemma planned_sample:
  assumes "planned_effect mi rt mo bindings n m occ before = Inr e"
    and "occurrence tp mi m mo = Inr occ" "for_consumer cursors (qualified_id m) = Inr before"
  shows "sample_effect tp mi mo cursors m e \<and> se_ordinal e = int n"
proof -
  obtain resources flds payload after target where
    p: "mk_payload (mi_payload mi) (rt_identity rt) occ resources flds = Inr payload"
    and c: "mk_cursor (qualified_id m) (Some (token occ)) (cur_samples before + 1) = Inr after"
    and e: "mk_side_effect (mi_effect mi)
       \<lparr>se_ordinal = int n, se_consumer = qualified_id m, se_manifest = cm_identity m, se_target = target,
        se_payload = payload, se_action = cm_action m, se_before = before, se_after = after, se_identity = occ\<rparr> = Inr e"
    using assms(1) unfolding planned_effect_def bindE_eq_Inr by blast
  have "cp_occurrence payload = occ" using p by (auto simp: mk_payload_def)
  moreover have "after = \<lparr>cur_consumer = qualified_id m, cur_last = Some (token occ), cur_samples = cur_samples before + 1\<rparr>"
    using c by (auto simp: mk_cursor_def)
  moreover obtain i where "e = \<lparr>se_ordinal = int n, se_consumer = qualified_id m, se_manifest = cm_identity m, se_target = target,
        se_payload = payload, se_action = cm_action m, se_before = before, se_after = after, se_identity = i\<rparr>"
    using e by (auto simp: mk_side_effect_def)
  ultimately show ?thesis using assms(2,3) by (simp add: sample_effect_def)
qed

lemma plan_consumer_cases:
  assumes "plan_consumer tp mi rt mo cursors bindings effects m = Inr es"
  obtains "\<not> pending tp mi mo cursors m" "es = effects"
  | e where "pending tp mi mo cursors m" "es = effects @ [e]" "sample_effect tp mi mo cursors m e"
      "se_ordinal e = int (length effects)"
proof -
  obtain due where due: "is_due tp m mo = Inr due" using assms by (auto simp: plan_consumer_def)
  show thesis
  proof (cases due)
    case False
    then show thesis using due assms by (intro that(1)) (simp_all add: plan_consumer_def pending_def)
  next
    case True
    then obtain occ before where ob: "occurrence tp mi m mo = Inr occ" "for_consumer cursors (qualified_id m) = Inr before"
      using assms due by (auto simp: plan_consumer_def)
    show thesis
    proof (cases "cur_last before = Some (token occ)")
      case True
      then show thesis using due ob assms \<open>due\<close> by (intro that(1)) (simp_all add: plan_consumer_def pending_def)
    next
      case False
      then obtain e where "planned_effect mi rt mo bindings (length effects) m occ before = Inr e" "es = effects @ [e]"
        using due ob assms \<open>due\<close> by (auto simp: plan_consumer_def)
      moreover have "pending tp mi mo cursors m" using due ob False \<open>due\<close> by (simp add: pending_def)
      ultimately show thesis using planned_sample ob by (intro that(2)) blast+
    qed
  qed
qed

lemma plan_fold:
  assumes "foldE (plan_consumer tp mi rt mo cursors bindings) ms effects = Inr es"
  shows "\<exists>new. es = effects @ new
    \<and> list_all2 (sample_effect tp mi mo cursors) (filter (pending tp mi mo cursors) ms) new
    \<and> map se_ordinal new = map (\<lambda>i. int (length effects + i)) [0..<length new]"
  using assms
proof (induction ms arbitrary: effects)
  case (Cons m ms)
  then obtain es1 where step: "plan_consumer tp mi rt mo cursors bindings effects m = Inr es1"
    and rest: "foldE (plan_consumer tp mi rt mo cursors bindings) ms es1 = Inr es" by auto
  obtain new where new: "es = es1 @ new" "list_all2 (sample_effect tp mi mo cursors) (filter (pending tp mi mo cursors) ms) new"
    "map se_ordinal new = map (\<lambda>i. int (length es1 + i)) [0..<length new]"
    using Cons.IH [OF rest] by blast
  show ?case
  proof (cases rule: plan_consumer_cases [OF step])
    case 1
    then show ?thesis using new by auto
  next
    case (2 e)
    then show ?thesis using new by (intro exI [of _ "e # new"]) (simp add: map_upt_Suc del: upt_Suc)
  qed
qed simp

text \<open>Writing the cursors of committed effects back, as a committed transaction does.\<close>

definition commit_cursors :: "cursor_set \<Rightarrow> side_effect list \<Rightarrow> cursor_set result" where
  "commit_cursors cursors es = foldE replace_cursor (map se_after es) cursors"

lemma committed_lookup:
  assumes "wf_cursors cs" "distinct (map (cur_consumer \<circ> se_after) es)" "commit_cursors cs es = Inr cs'"
  shows "e \<in> set es \<Longrightarrow> is_ok (check_text (cur_consumer (se_after e))) \<Longrightarrow>
      for_consumer cs' (cur_consumer (se_after e)) = Inr (se_after e)"
    and "k \<notin> cur_consumer ` se_after ` set es \<Longrightarrow> for_consumer cs' k = for_consumer cs k"
proof -
  have d: "distinct (map cur_consumer (map se_after es))" using assms(2) by simp
  note look = cursors.put_all_find [OF assms(1) d assms(3) [unfolded commit_cursors_def]]
  show "for_consumer cs' (cur_consumer (se_after e)) = Inr (se_after e)"
    if "e \<in> set es" "is_ok (check_text (cur_consumer (se_after e)))"
    using look(1) [of "se_after e"] that by (auto simp: for_consumer_def is_ok_iff)
  show "for_consumer cs' k = for_consumer cs k" if "k \<notin> cur_consumer ` se_after ` set es"
    using look(2) [of k] that by (simp add: for_consumer_def)
qed

lemma planned_once_quiet:
  assumes "plan_consumer tp mi rt mo cursors bindings effects m = Inr es"
    and "pending tp mi mo cursors m \<Longrightarrow> \<exists>e. sample_effect tp mi mo cursors m e \<and> for_consumer cursors' (qualified_id m) = Inr (se_after e)"
    and "\<not> pending tp mi mo cursors m \<Longrightarrow> for_consumer cursors' (qualified_id m) = for_consumer cursors (qualified_id m)"
  shows "plan_consumer tp mi rt mo cursors' bindings [] m = Inr []"
proof -
  obtain due where due: "is_due tp m mo = Inr due" using assms(1) by (auto simp: plan_consumer_def)
  show ?thesis
  proof (cases due)
    case False
    then show ?thesis using due by (simp add: plan_consumer_def)
  next
    case True
    then obtain occ before where ob: "occurrence tp mi m mo = Inr occ" "for_consumer cursors (qualified_id m) = Inr before"
      using assms(1) due by (auto simp: plan_consumer_def)
    have "\<exists>c. for_consumer cursors' (qualified_id m) = Inr c \<and> cur_last c = Some (token occ)"
    proof (cases "pending tp mi mo cursors m")
      case True
      then show ?thesis using assms(2) ob(1) by (auto simp: sample_effect_def)
    next
      case False
      then show ?thesis using assms(3) ob due \<open>due\<close> by (auto simp: pending_def)
    qed
    then show ?thesis using due True ob(1) by (auto simp: plan_consumer_def)
  qed
qed

lemma sample_effects_consumers:
  "list_all2 (sample_effect tp mi mo cursors) ms es \<Longrightarrow>
   map se_consumer es = map qualified_id ms \<and> map (cur_consumer \<circ> se_after) es = map qualified_id ms"
  by (induction rule: list_all2_induct) (auto simp: sample_effect_def)

lemma topology_ids_distinct:
  assumes "mk_consumer_graph mint ms = Inr g"
  shows "distinct (map qualified_id (cg_topology g))"
  using mk_consumer_graph_Inr(3,5,6) [OF assms] lookup_nodes_ids(1) [of "cg_nodes g" "topology_ids (cg_nodes g)"]
  by (metis mset_eq_imp_distinct_iff)

lemma committed_consumer:
  assumes "wf_cursors cursors" "distinct (map qualified_id ms)"
    and "list_all2 (sample_effect tp mi mo cursors) (filter (pending tp mi mo cursors) ms) es"
    and "commit_cursors cursors es = Inr cursors'" "m \<in> set ms"
  shows "pending tp mi mo cursors m \<Longrightarrow>
      \<exists>e. sample_effect tp mi mo cursors m e \<and> for_consumer cursors' (qualified_id m) = Inr (se_after e)"
    and "\<not> pending tp mi mo cursors m \<Longrightarrow> for_consumer cursors' (qualified_id m) = for_consumer cursors (qualified_id m)"
proof -
  let ?pend = "filter (pending tp mi mo cursors) ms"
  have keys: "map (cur_consumer \<circ> se_after) es = map qualified_id ?pend"
    using sample_effects_consumers [OF assms(3)] by simp
  have d: "distinct (map (cur_consumer \<circ> se_after) es)"
    unfolding keys using assms(2) by (rule distinct_map_filter)
  note look = committed_lookup [OF assms(1) d assms(4)]
  show "\<exists>e. sample_effect tp mi mo cursors m e \<and> for_consumer cursors' (qualified_id m) = Inr (se_after e)"
    if p: "pending tp mi mo cursors m"
  proof -
    obtain e where e: "e \<in> set es" "sample_effect tp mi mo cursors m e"
      using list_all2_in_left [OF assms(3), of m] p assms(5) by auto
    then have "cur_consumer (se_after e) = qualified_id m" "is_ok (check_text (qualified_id m))"
      by (auto simp: sample_effect_def for_consumer_def is_ok_iff)
    then show ?thesis using look(1) [OF e(1)] e(2) by auto
  qed
  show "for_consumer cursors' (qualified_id m) = for_consumer cursors (qualified_id m)"
    if p: "\<not> pending tp mi mo cursors m"
  proof -
    have "inj_on qualified_id (set ms)" using assms(2) by (simp add: distinct_map)
    then have "qualified_id m \<notin> set (map qualified_id ?pend)" using p assms(5) by (auto dest: inj_onD)
    then have "qualified_id m \<notin> cur_consumer ` se_after ` set es" by (simp add: keys [symmetric] image_image)
    then show ?thesis by (rule look(2))
  qed
qed

lemma mk_effect_plan_empty:
  "mk_effect_plan gi ri es = Inr plan \<Longrightarrow> mk_effect_plan gi ri [] = Inr (plan\<lparr>ep_effects := []\<rparr>)"
  by (cases plan) (auto simp: mk_effect_plan_def)

lemma replan_is_quiet:
  assumes "wf_cursors cursors" "distinct (map qualified_id (cg_topology g))"
    and "plan_accepted_side_effects tp mi rt g mo cursors = Inr plan"
    and "list_all2 (sample_effect tp mi mo cursors) (filter (pending tp mi mo cursors) (cg_topology g)) (ep_effects plan)"
    and "commit_cursors cursors (ep_effects plan) = Inr cursors'"
  shows "plan_accepted_side_effects tp mi rt g mo cursors' = Inr (plan\<lparr>ep_effects := []\<rparr>)"
proof -
  obtain bindings where b: "active_bindings rt mo g = Inr bindings"
    and f: "foldE (plan_consumer tp mi rt mo cursors bindings) (cg_topology g) [] = Inr (ep_effects plan)"
    and p: "mk_effect_plan (cg_identity g) (rt_identity rt) (ep_effects plan) = Inr plan"
    using assms(3) by (auto simp: plan_accepted_side_effects_def mk_effect_plan_def)
  have quiet: "plan_consumer tp mi rt mo cursors' bindings [] m = Inr []" if m: "m \<in> set (cg_topology g)" for m
  proof -
    obtain effects es where "plan_consumer tp mi rt mo cursors bindings effects m = Inr es"
      using foldE_step_ok [OF f m] by blast
    then show ?thesis
      using committed_consumer [OF assms(1,2,4,5) m] by (rule planned_once_quiet)
  qed
  have "foldE (plan_consumer tp mi rt mo cursors' bindings) (cg_topology g) [] = Inr []"
    by (rule foldE_stays) (rule quiet)
  then show ?thesis using b mk_effect_plan_empty [OF p] by (simp add: plan_accepted_side_effects_def)
qed

text \<open>
  C40.  Planning at an accepted moment gives every consumer that is due and has not taken this sample exactly one
  effect, in the order of the topology and with contiguous ordinals, and nothing to any other consumer; the plan
  is not stale for the cursors it was computed from, so a transaction can be opened on it; and once the cursors
  of its effects are written back, planning the same moment again succeeds and plans nothing, while each sampled
  consumer has advanced by exactly one sample.
\<close>

theorem planning_exactly_once:
  assumes "mk_consumer_graph mint ms = Inr g" "wf_cursors cursors"
    and "plan_accepted_side_effects tp mi rt g mo cursors = Inr plan"
  shows "map se_consumer (ep_effects plan) = map qualified_id (filter (pending tp mi mo cursors) (cg_topology g))
    \<and> distinct (map se_consumer (ep_effects plan))
    \<and> map se_ordinal (ep_effects plan) = map int [0..<length (ep_effects plan)]
    \<and> is_ok (mapE (stale_effect cursors) (ep_effects plan))
    \<and> (\<exists>cursors'. commit_cursors cursors (ep_effects plan) = Inr cursors' \<and> wf_cursors cursors'
        \<and> plan_accepted_side_effects tp mi rt g mo cursors' = Inr (plan\<lparr>ep_effects := []\<rparr>)
        \<and> (\<forall>e \<in> set (ep_effects plan). \<exists>c.
            for_consumer cursors' (se_consumer e) = Inr c \<and> cur_samples c = cur_samples (se_before e) + 1))"
proof -
  let ?es = "ep_effects plan" and ?pend = "filter (pending tp mi mo cursors) (cg_topology g)"
  have d: "distinct (map qualified_id (cg_topology g))" using assms(1) by (rule topology_ids_distinct)
  obtain bindings where f: "foldE (plan_consumer tp mi rt mo cursors bindings) (cg_topology g) [] = Inr ?es"
    using assms(3) by (auto simp: plan_accepted_side_effects_def mk_effect_plan_def)
  have samples: "list_all2 (sample_effect tp mi mo cursors) ?pend ?es"
    and ords: "map se_ordinal ?es = map int [0..<length ?es]"
    using plan_fold [OF f] by auto
  note consumers = sample_effects_consumers [OF samples]
  have dp: "distinct (map qualified_id ?pend)" using d by (rule distinct_map_filter)
  have fresh: "stale_effect cursors e = Inr ()" if "e \<in> set ?es" for e
    using list_all2_in_right [OF samples that] by (auto simp: stale_effect_def sample_effect_def)
  have dc: "distinct (map (cur_consumer \<circ> se_after) ?es)" using consumers dp by simp
  obtain cursors' where c: "commit_cursors cursors ?es = Inr cursors'" "wf_cursors cursors'"
    using cursors.put_all_ok [OF assms(2), of "map se_after ?es"] dc by (auto simp: commit_cursors_def)
  have "\<exists>c. for_consumer cursors' (se_consumer e) = Inr c \<and> cur_samples c = cur_samples (se_before e) + 1"
    if e: "e \<in> set ?es" for e
  proof -
    have "cur_consumer (se_after e) = se_consumer e" "cur_samples (se_after e) = cur_samples (se_before e) + 1"
      "is_ok (check_text (cur_consumer (se_after e)))"
      using list_all2_in_right [OF samples e] by (auto simp: sample_effect_def for_consumer_def is_ok_iff)
    then show ?thesis using committed_lookup(1) [OF assms(2) dc c(1) e] by auto
  qed
  moreover have "is_ok (mapE (stale_effect cursors) ?es)" using fresh by (simp add: mapE_is_ok)
  moreover note replan_is_quiet [OF assms(2) d assms(3) samples c(1)]
  ultimately show ?thesis using consumers dp ords c by simp
qed

definition sample_mints :: "unit mints" where
  "sample_mints =
     \<lparr>mi_occurrence = (\<lambda>(consumer, _, _). Inr ((sample_identity ''consumer-occurrence'')\<lparr>id_algorithm := consumer\<rparr>)),
      mi_field = (\<lambda>_. Inr (sample_identity ''field-context'')),
      mi_payload = (\<lambda>(_, occ, _, _). Inr (occ\<lparr>id_domain := ascii ''consumer-payload''\<rparr>)),
      mi_effect = (\<lambda>_. Inr (sample_identity ''accepted-side-effect''))\<rparr>"

definition sample_triggers :: "unit trigger_provider" where
  "sample_triggers = \<lparr>trg_due = (\<lambda>_ _ _. Inr False), trg_evidence = (\<lambda>_ _ _. Inr None),
     trg_at_start = (\<lambda>_. True), trg_always = (\<lambda>_. False)\<rparr>"

definition sample_plan :: runtime_plan where
  "sample_plan =
     (let bundle = sample_identity ''runtime-plan-bundle'' in
      \<lparr>rt_identity = bundle, rt_install = bundle, rt_platform = bundle, rt_context = bundle, rt_layout = [], rt_calls = [],
       rt_communication = \<lparr>pc_identity = bundle, pc_layout = [], pc_communicator = ascii ''serial'', pc_halos = [], pc_transfers = [],
         pc_collectives = [], pc_fences = [], pc_joins = []\<rparr>,
       rt_resources = \<lparr>rpl_identity = bundle, rpl_layout = [], rpl_context = bundle, rpl_spaces = [], rpl_uses = [],
         rpl_buffers = [], rpl_providers = [], rpl_fence_ids = [], rpl_declared = []\<rparr>,
       rt_determinism = \<lparr>dg_identity = bundle, dg_class = Bitwise, dg_scope = [], dg_assumptions = [], dg_evidence = [],
         dg_context = bundle\<rparr>\<rparr>)"

definition sample_moment :: moment where
  "sample_moment =
     \<lparr>mo_point = \<lparr>tp_clock = sample_clock, tp_step = 4, tp_offset = ascii ''0''\<rparr>, mo_accepted_step = 4, mo_attempt = 0,
      mo_time = ascii ''0x1p+0'', mo_clock_tick = 0, mo_wall_tick = 0, mo_stage = None, mo_level = None, mo_events = [],
      mo_layouts = [], mo_at_start = False, mo_at_end = False\<rparr>"

definition sample_graph :: "unit consumer_graph" where
  "sample_graph =
     \<lparr>cg_nodes = [sample_manifest ''a'' [''b''], sample_manifest ''b'' []],
      cg_topology = [sample_manifest ''b'' [], sample_manifest ''a'' [''b'']], cg_identity = sample_identity ''consumer-graph''\<rparr>"

lemma sample_graph_built:
  "mk_consumer_graph (\<lambda>_. Inr (sample_identity ''consumer-graph'')) [sample_manifest ''a'' [''b''], sample_manifest ''b'' []] = Inr sample_graph"
  by code_simp

lemma sample_planned:
  obtains plan where
    "plan_accepted_side_effects sample_triggers sample_mints sample_plan sample_graph sample_moment [] = Inr plan"
    "map se_consumer (ep_effects plan) = [ascii ''b'', ascii ''a'']"
proof -
  let ?plan = "plan_accepted_side_effects sample_triggers sample_mints sample_plan sample_graph sample_moment []"
  have "map_sum id (\<lambda>p. map se_consumer (ep_effects p)) ?plan = Inr [ascii ''b'', ascii ''a'']"
    by (simp add: plan_accepted_side_effects_def active_bindings_def sample_graph_def sample_manifest_def sample_handle_def
        sample_moment_def sample_plan_def sample_mints_def sample_triggers_def resource_bindings_def consumer_resource_rows_def
        plan_consumer_def is_due_def schedule_coordinate_def consumer_coordinate_def occurrence_def qualified_id_def
        for_consumer_def by_id_def planned_effect_def mk_payload_def mk_cursor_def mk_publication_target_def mk_side_effect_def
        mk_effect_plan_def check_text_def strip_text_def is_space_def check_index_def check_identity_def sample_identity_def
        sample_clock_def token_def hexdigest_def ascii_def map_filter_def Let_def)
  then show thesis using that by (cases ?plan) auto
qed

theorem planning_exactly_once_witness:
  "\<exists>plan cursors'.
     plan_accepted_side_effects sample_triggers sample_mints sample_plan sample_graph sample_moment [] = Inr plan
     \<and> map se_consumer (ep_effects plan) = [ascii ''b'', ascii ''a'']
     \<and> commit_cursors [] (ep_effects plan) = Inr cursors'
     \<and> plan_accepted_side_effects sample_triggers sample_mints sample_plan sample_graph sample_moment cursors' =
         Inr (plan\<lparr>ep_effects := []\<rparr>)"
proof -
  let ?plan = "plan_accepted_side_effects sample_triggers sample_mints sample_plan sample_graph sample_moment []"
  obtain plan where plan: "?plan = Inr plan" "map se_consumer (ep_effects plan) = [ascii ''b'', ascii ''a'']"
    by (rule sample_planned)
  have "wf_cursors []" by (simp add: wf_cursors_def)
  note once = planning_exactly_once [OF sample_graph_built this plan(1)]
  obtain cursors' where "commit_cursors [] (ep_effects plan) = Inr cursors'"
    "plan_accepted_side_effects sample_triggers sample_mints sample_plan sample_graph sample_moment cursors' =
       Inr (plan\<lparr>ep_effects := []\<rparr>)"
    using once [THEN conjunct2, THEN conjunct2, THEN conjunct2, THEN conjunct2] by (elim exE conjE)
  with plan have "?plan = Inr plan \<and> map se_consumer (ep_effects plan) = [ascii ''b'', ascii ''a'']
      \<and> commit_cursors [] (ep_effects plan) = Inr cursors'
      \<and> plan_accepted_side_effects sample_triggers sample_mints sample_plan sample_graph sample_moment cursors' =
          Inr (plan\<lparr>ep_effects := []\<rparr>)" by (intro conjI)
  then show ?thesis by (intro exI)
qed

end
