(* ===== verification/Schedule_Lowering.thy ===== *)
theory Schedule_Lowering
  imports Consumer_Graph
begin

text \<open>
  The native lowering of schedules: the strict IR of \<^verbatim>\<open>pops/time/_schedule/ir.py\<close>, and the projections of domains,
  triggers and off-cadence policies onto it (\<^verbatim>\<open>native_schedule_domain\<close>, \<^verbatim>\<open>native_schedule_due\<close>,
  \<^verbatim>\<open>native_schedule_off\<close> and \<^verbatim>\<open>Schedule.native_schedule_ir\<close>).  The lowering of a third-party trigger or policy is a
  function of the \<open>lowering_provider\<close>.
\<close>

subsection \<open>The lowering IR\<close>

datatype schedule_timeline = TL_accepted_step | TL_stage | TL_clock_tick | TL_amr_level

datatype due_kind = D_always | D_cache_period | D_macro_step_zero | D_at_end | D_program_predicate

datatype schedule_action = A_effective_dt | A_store | A_zero | A_accumulate_dt | A_restore | A_error

datatype schedule_comment = Comment_skip

record domain_ir =
  di_timeline :: schedule_timeline
  di_clock :: pystr
  di_stage :: "pystr option"
  di_level :: "int option"

definition mk_domain_ir :: "domain_ir \<Rightarrow> domain_ir result" where
  "mk_domain_ir d =
     bindE (raise_if (di_clock d = []) (ValueError ''ScheduleDomainIR clock_id must be non-empty qualified text'')) (\<lambda>_.
     bindE (if di_timeline d = TL_stage
            then raise_if (di_stage d = None \<or> di_stage d = Some []) (ValueError ''a STAGE schedule domain requires an exact stage identity'')
            else raise_if (di_stage d \<noteq> None) (ValueError ''only a STAGE schedule domain accepts stage_identity'')) (\<lambda>_.
     bindE (if di_timeline d = TL_amr_level
            then raise_if (case di_level d of None \<Rightarrow> True | Some l \<Rightarrow> l < 0)
                   (ValueError ''an AMR_LEVEL schedule domain requires a non-negative level'')
            else raise_if (di_level d \<noteq> None) (ValueError ''only an AMR_LEVEL schedule domain accepts level'')) (\<lambda>_.
     Inr d)))"

record due_ir =
  du_kind :: due_kind
  du_period :: "int option"
  du_predicate :: schedule_condition

definition mk_due_ir :: "due_ir \<Rightarrow> due_ir result" where
  "mk_due_ir d =
     (if du_kind d = D_cache_period then
        bindE (raise_if (case du_period d of None \<Rightarrow> True | Some p \<Rightarrow> p \<le> 0)
          (ValueError ''CACHE_PERIOD requires a positive integer period'')) (\<lambda>_.
        bindE (raise_if (du_predicate d \<noteq> C_none) (ValueError ''CACHE_PERIOD does not accept a predicate'')) (\<lambda>_. Inr d))
      else
        bindE (raise_if (du_period d \<noteq> None) (ValueError ''does not accept a period'')) (\<lambda>_.
        bindE (if du_kind d = D_program_predicate
               then raise_if (du_predicate d = C_none) (ValueError ''PROGRAM_PREDICATE requires a predicate'')
               else raise_if (du_predicate d \<noteq> C_none) (ValueError ''does not accept a predicate'')) (\<lambda>_. Inr d)))"

record off_ir =
  of_before :: "schedule_action list"
  of_after :: "schedule_action list"
  of_off :: "schedule_action list"
  of_comment :: "schedule_comment option"

definition check_actions :: "schedule_action set \<Rightarrow> schedule_action list \<Rightarrow> unit result" where
  "check_actions allowed actions =
     bindE (raise_if (\<not> distinct actions) (ValueError ''ScheduleOffIR must not contain duplicate actions'')) (\<lambda>_.
     raise_if (\<not> set actions \<subseteq> allowed) (ValueError ''ScheduleOffIR contains an action invalid''))"

definition mk_off_ir :: "off_ir \<Rightarrow> off_ir result" where
  "mk_off_ir o' =
     bindE (check_actions {A_effective_dt} (of_before o')) (\<lambda>_.
     bindE (check_actions {A_store} (of_after o')) (\<lambda>_.
     bindE (check_actions {A_zero, A_accumulate_dt, A_restore, A_error} (of_off o')) (\<lambda>_.
     bindE (raise_if (of_comment o' = Some Comment_skip \<and> (of_before o' \<noteq> [] \<or> of_after o' \<noteq> [] \<or> of_off o' \<noteq> []))
       (ValueError ''the SKIP annotation requires an empty action plan'')) (\<lambda>_.
     bindE (raise_if (A_error \<in> set (of_off o') \<and> length (of_off o') \<noteq> 1) (ValueError ''ERROR must be the only off-cadence action'')) (\<lambda>_.
     bindE (raise_if (A_zero \<in> set (of_off o') \<and> length (of_off o') \<noteq> 1) (ValueError ''ZERO must be the only off-cadence action'')) (\<lambda>_.
     bindE (raise_if ((A_accumulate_dt \<in> set (of_off o')) \<noteq> (A_effective_dt \<in> set (of_before o')))
       (ValueError ''ACCUMULATE_DT and EFFECTIVE_DT must be used together'')) (\<lambda>_.
     Inr o')))))))"

record lowering_ir =
  lw_domain :: domain_ir
  lw_due :: due_ir
  lw_off :: off_ir

definition mk_lowering_ir :: "lowering_ir \<Rightarrow> lowering_ir result" where
  "mk_lowering_ir l =
     bindE (raise_if (du_kind (lw_due l) = D_always
         \<and> (of_before (lw_off l) \<noteq> [] \<or> of_after (lw_off l) \<noteq> [] \<or> of_off (lw_off l) \<noteq> [] \<or> of_comment (lw_off l) \<noteq> None))
       (ValueError ''an ALWAYS due-test cannot have an off-cadence action plan'')) (\<lambda>_. Inr l)"

subsection \<open>Lowering of domains, triggers and policies\<close>

definition no_native_domain :: py_error where
  "no_native_domain = NotImplementedError ''this runtime does not support the schedule domain''"

definition native_schedule_domain :: "domain \<Rightarrow> domain_ir result" where
  "native_schedule_domain d =
     (let ir = (\<lambda>timeline stage level.
          mk_domain_ir \<lparr>di_timeline = timeline, di_clock = cl_id (dm_clock d), di_stage = stage, di_level = level\<rparr>) in
      case dm_kind d of
        AcceptedStep \<Rightarrow> ir TL_accepted_step None None
      | Stage at \<Rightarrow> ir TL_stage (Some (sp_data at)) None
      | ClockTick \<Rightarrow> ir TL_clock_tick None None
      | AMRLevel level \<Rightarrow> ir TL_amr_level None (Some level)
      | _ \<Rightarrow> Inl no_native_domain)"

record 'x lowering_provider =
  lp_due :: "'x \<Rightarrow> due_ir result"
  lp_off :: "pystr \<Rightarrow> off_ir result"

definition plain_due :: "due_kind \<Rightarrow> due_ir result" where
  "plain_due k = mk_due_ir \<lparr>du_kind = k, du_period = None, du_predicate = C_none\<rparr>"

fun native_schedule_due :: "'x lowering_provider \<Rightarrow> 'x trigger \<Rightarrow> due_ir result" where
  "native_schedule_due lp Always = plain_due D_always"
| "native_schedule_due lp (Every n) = mk_due_ir \<lparr>du_kind = D_cache_period, du_period = Some n, du_predicate = C_none\<rparr>"
| "native_schedule_due lp AtStart = plain_due D_macro_step_zero"
| "native_schedule_due lp AtEnd = plain_due D_at_end"
| "native_schedule_due lp (When condition) =
     mk_due_ir \<lparr>du_kind = D_program_predicate, du_period = None, du_predicate = condition\<rparr>"
| "native_schedule_due lp (ExtTrigger x) = lp_due lp x"

definition empty_off :: off_ir where
  "empty_off = \<lparr>of_before = [], of_after = [], of_off = [], of_comment = None\<rparr>"

fun native_schedule_off :: "'x lowering_provider \<Rightarrow> off_policy \<Rightarrow> off_ir result" where
  "native_schedule_off lp Hold = mk_off_ir (empty_off\<lparr>of_after := [A_store], of_off := [A_restore]\<rparr>)"
| "native_schedule_off lp Skip = mk_off_ir (empty_off\<lparr>of_comment := Some Comment_skip\<rparr>)"
| "native_schedule_off lp Zero = mk_off_ir (empty_off\<lparr>of_off := [A_zero]\<rparr>)"
| "native_schedule_off lp AccumulateDt =
     mk_off_ir (empty_off\<lparr>of_before := [A_effective_dt], of_after := [A_store], of_off := [A_accumulate_dt, A_restore]\<rparr>)"
| "native_schedule_off lp OffError = mk_off_ir (empty_off\<lparr>of_off := [A_error]\<rparr>)"
| "native_schedule_off lp (ExtOff p) = lp_off lp p"

definition native_schedule_ir :: "'x lowering_provider \<Rightarrow> 'x schedule \<Rightarrow> lowering_ir result" where
  "native_schedule_ir lp sch =
     bindE (native_schedule_domain (sc_domain sch)) (\<lambda>d.
     bindE (native_schedule_due lp (sc_trigger sch)) (\<lambda>due.
     bindE (case sc_off sch of None \<Rightarrow> mk_off_ir empty_off | Some p \<Rightarrow> native_schedule_off lp p) (\<lambda>off.
     mk_lowering_ir \<lparr>lw_domain = d, lw_due = due, lw_off = off\<rparr>)))"

definition cache_actions :: "schedule_action set" where
  "cache_actions = {A_effective_dt, A_store, A_accumulate_dt, A_restore}"

definition schedule_lowering_cache_required :: "bool \<Rightarrow> lowering_ir \<Rightarrow> bool" where
  "schedule_lowering_cache_required retained_output l =
     (let actions = of_before (lw_off l) @ of_after (lw_off l) @ of_off (lw_off l);
          cached = (if retained_output then cache_actions - {A_store, A_restore} else cache_actions) in
      list_ex (\<lambda>a. a \<in> cached) actions)"

definition native_schedule_cache_required :: "'x lowering_provider \<Rightarrow> bool \<Rightarrow> 'x schedule \<Rightarrow> bool result" where
  "native_schedule_cache_required lp retained_output sch =
     bindE (native_schedule_ir lp sch) (\<lambda>l. Inr (schedule_lowering_cache_required retained_output l))"

subsection \<open>Every constructed schedule of the module lowers\<close>

definition native_domain :: "domain \<Rightarrow> bool" where
  "native_domain d \<longleftrightarrow> cl_id (dm_clock d) \<noteq> []
     \<and> (case dm_kind d of AcceptedStep \<Rightarrow> True | Stage at \<Rightarrow> sp_data at \<noteq> [] | ClockTick \<Rightarrow> True | AMRLevel l \<Rightarrow> 0 \<le> l | _ \<Rightarrow> False)"

fun own_trigger :: "'x trigger \<Rightarrow> bool" where
  "own_trigger (ExtTrigger x) = False"
| "own_trigger (Every n) = (0 < n)"
| "own_trigger (When condition) = (condition \<noteq> C_none)"
| "own_trigger _ = True"

lemmas lowering_defs = native_schedule_domain_def mk_domain_ir_def plain_due_def mk_due_ir_def mk_off_ir_def check_actions_def
  empty_off_def mk_lowering_ir_def Let_def

lemma native_domain_lowers: "is_ok (native_schedule_domain d) \<longleftrightarrow> native_domain d"
  by (cases "dm_kind d") (auto simp: lowering_defs native_domain_def no_native_domain_def raise_if_def)

lemma own_trigger_lowers:
  assumes "own_trigger t"
  obtains due where "native_schedule_due lp t = Inr due" "du_kind due = D_always \<longleftrightarrow> is_always tp t"
  using assms by (cases t) (auto simp: lowering_defs split: schedule_condition.splits)

lemma policy_lowers:
  assumes "\<nexists>p. off = ExtOff p"
  obtains ir where "native_schedule_off lp off = Inr ir"
    "list_ex (\<lambda>a. a \<in> cache_actions) (of_before ir @ of_after ir @ of_off ir) \<longleftrightarrow> off \<in> {Hold, AccumulateDt}"
  using assms by (cases off) (auto simp: lowering_defs cache_actions_def)

text \<open>
  A schedule that its constructor accepts, with the triggers and policies of the module, lowers exactly on the
  native domains; it needs a cache exactly when its policy keeps a value.
\<close>

lemma schedule_lowers:
  assumes "mk_schedule tp sch = Inr sch'" "own_trigger (sc_trigger sch)" "\<nexists>p. sc_off sch = Some (ExtOff p)"
    and "native_domain (sc_domain sch)"
  shows "native_schedule_cache_required lp False sch = Inr (sc_off sch \<in> {Some Hold, Some AccumulateDt})"
proof -
  obtain d where d: "native_schedule_domain (sc_domain sch) = Inr d"
    using assms(4) native_domain_lowers [of "sc_domain sch"] by (auto simp: is_ok_iff)
  obtain due where due: "native_schedule_due lp (sc_trigger sch) = Inr due" "du_kind due = D_always \<longleftrightarrow> is_always tp (sc_trigger sch)"
    using assms(2) by (rule own_trigger_lowers)
  show ?thesis
  proof (cases "sc_off sch")
    case None
    then show ?thesis
      using d due(1) by (simp add: native_schedule_cache_required_def native_schedule_ir_def schedule_lowering_cache_required_def lowering_defs)
  next
    case (Some p)
    then have "du_kind due \<noteq> D_always" using assms(1) due(2) by (simp add: mk_schedule_def split: if_splits)
    moreover obtain ir where "native_schedule_off lp p = Inr ir"
      "list_ex (\<lambda>a. a \<in> cache_actions) (of_before ir @ of_after ir @ of_off ir) \<longleftrightarrow> p \<in> {Hold, AccumulateDt}"
      using policy_lowers assms(3) Some by metis
    ultimately show ?thesis
      using d due(1) Some
      by (simp add: native_schedule_cache_required_def native_schedule_ir_def schedule_lowering_cache_required_def mk_lowering_ir_def)
  qed
qed

end
