(* ===== verification/Consumer_Delivery.thy ===== *)
theory Consumer_Delivery
  imports Consumer_Planning Diagnostic_Publisher
begin

text \<open>
  Planning and the transaction together: the plan of an accepted moment (\<open>Consumer_Planning\<close>) is staged and accepted
  (\<open>Consumer_Transaction\<close>), and the reported cursors are the ones the next planning starts from.
\<close>

subsection \<open>Without skips every planned effect is delivered\<close>

lemma prepare_all_effects:
  "prepare_all pub es tx w = (Returned (), tx', w') \<Longrightarrow>
     tx_accepted tx' = tx_accepted tx \<and>
     (\<exists>more. tx_skipped tx' = tx_skipped tx @ more \<and> (more = [] \<longrightarrow> map fst (tx_prepared tx') = map fst (tx_prepared tx) @ es))"
proof (induction es arbitrary: tx w)
  case (Cons e es)
  obtain q a x w1 where po: "prepare_one pub e 0 None w = ((q, a, x), w1)" by (metis prod_cases3 surj_pair)
  show ?case
  proof (cases q)
    case (Some p)
    then have "prepare_all pub es (tx\<lparr>tx_prepared := tx_prepared tx @ [(e, p, a)]\<rparr>) w1 = (Returned (), tx', w')"
      using Cons.prems po by simp
    from Cons.IH [OF this] show ?thesis by auto
  next
    case None
    then obtain s where "prepare_all pub es (tx\<lparr>tx_skipped := tx_skipped tx @ [s]\<rparr>) w1 = (Returned (), tx', w')"
      using Cons.prems po by (auto simp: fail_tx_def Let_def split: if_splits sum.splits prod.splits)
    from Cons.IH [OF this] show ?thesis by auto
  qed
qed simp

lemma accept_loop_effects:
  "accept_loop pub cursors published waiting tx w = (Returned rep, tx', w') \<Longrightarrow>
     rp_skipped rep = tx_skipped tx'
     \<and> (\<exists>more. tx_skipped tx' = tx_skipped tx @ more
          \<and> (more = [] \<longrightarrow> map fst (tx_accepted tx') = map fst (tx_accepted tx) @ map fst waiting))"
proof (induction "attempts_left waiting" arbitrary: cursors published waiting tx w rule: less_induct)
  case less
  show ?case
  proof (cases waiting)
    case Nil
    then show ?thesis using less.prems by auto
  next
    case (Cons a rest)
    obtain e p k where a: "a = (e, p, k)" by (metis prod_cases3)
    show ?thesis
    proof (cases "accept_turn pub cursors published e p k rest tx w")
      case (Next c' pb' waiting' tx1 w1)
      have m: "attempts_left waiting' < attempts_left waiting"
        using accept_turn_measure [OF Next] by (simp add: Cons a)
      have run: "accept_loop pub c' pb' waiting' tx1 w1 = (Returned rep, tx', w')"
        using less.prems Next by (simp add: Cons a accept_loop.simps(2))
      note ih = less.hyps [OF m run]
      from Next show ?thesis by (cases rule: accept_turn_next) (use ih Cons a in auto)
    next
      case (Stop res)
      then have "accept_turn pub cursors published e p k rest tx w = Stop (Returned rep, tx', w')"
        using less.prems by (simp add: Cons a accept_loop.simps(2))
      then show ?thesis
        by (auto simp: accept_turn_def give_up_def abandon_def fail_tx_def Let_def
            split: sum.splits prod.splits if_splits option.splits)
    qed
  qed
qed

lemma delivered_effects:
  assumes "new_transaction pub plan cursors w = (Returned (), tx, w1)" "accept pub tx w1 = (Returned rep, tx', w2)" "rp_skipped rep = []"
  shows "map fst (tx_accepted tx') = ep_effects plan"
proof -
  obtain tx0 where p: "prepare_all pub (ep_effects plan) (empty_transaction plan cursors) w = (Returned (), tx0, w1)"
    "tx = tx0\<lparr>tx_state := Staged\<rparr>"
    using assms(1) by (auto simp: new_transaction_def split: sum.splits outcome.splits prod.splits)
  have run: "accept_loop pub (tx_initial tx) [] (tx_prepared tx) (tx\<lparr>tx_prepared := []\<rparr>) w1 = (Returned rep, tx', w2)"
    using assms(2) p(2) by (simp add: accept_def)
  have acc: "tx_accepted tx0 = []" using prepare_all_effects [OF p(1)] by (simp add: empty_transaction_def)
  show ?thesis
    using accept_loop_effects [OF run] prepare_all_effects [OF p(1)] assms(3) p(2) acc by (auto simp: empty_transaction_def)
qed

subsection \<open>Planned effects can be staged\<close>

lemma planned_effect_ok:
  assumes "planned_effect mi rt mo bindings n m occ before = Inr e"
    and "\<forall>e i. mi_effect mi e = Inr i \<longrightarrow> id_domain i = ascii ''accepted-side-effect''" "wf_action (cm_action m)"
  shows "effect_ok e"
proof -
  obtain e0 where e0: "mk_side_effect (mi_effect mi) e0 = Inr e" "se_action e0 = cm_action m"
    using assms(1) by (auto simp: planned_effect_def)
  then obtain i where "mi_effect mi e0 = Inr i" "e = e0\<lparr>se_identity := i\<rparr>" "is_ok (check_text (se_consumer e0))"
    "cur_consumer (se_after e0) = se_consumer e0"
    by (auto simp: mk_side_effect_def is_ok_iff)
  then show ?thesis using assms(2,3) e0(2) by (simp add: effect_ok_def)
qed

lemma planned_effects_ok:
  assumes "foldE (plan_consumer tp mi rt mo cursors bindings) ms [] = Inr es"
    and "\<forall>e i. mi_effect mi e = Inr i \<longrightarrow> id_domain i = ascii ''accepted-side-effect''" "\<forall>m \<in> set ms. wf_action (cm_action m)"
  shows "\<forall>e \<in> set es. effect_ok e"
proof (rule foldE_invariant [OF assms(1), where P = "\<lambda>es. \<forall>e \<in> set es. effect_ok e"])
  fix m es es' assume m: "m \<in> set ms" and es: "\<forall>e \<in> set es. effect_ok e" and step: "plan_consumer tp mi rt mo cursors bindings es m = Inr es'"
  have "es' = es \<or> (\<exists>n occ before e. planned_effect mi rt mo bindings n m occ before = Inr e \<and> es' = es @ [e])"
    using step by (auto simp: plan_consumer_def split: if_splits)
  then show "\<forall>e \<in> set es'. effect_ok e" using es planned_effect_ok [OF _ assms(2), of rt mo bindings _ m] bspec [OF assms(3) m] by auto
qed simp

text \<open>
  C11.  Planning and the transaction together.  Let the plan of an accepted moment be staged by a publisher that keeps
  its contract, and then accepted.  If acceptance returns and skipped no sample, every planned effect was published and
  the reported cursors are the planned ones: planning the same moment from them succeeds and plans nothing, so no
  sample is published twice.  If it fails, the reported cursors are the initial ones and planning the moment again gives
  the same plan, so no sample is lost.  It raises nothing else.
\<close>

theorem delivered_exactly_once:
  assumes "mk_consumer_graph mint ms = Inr g" "wf_cursors cursors"
    and "plan_accepted_side_effects tp mi rt g mo cursors = Inr plan"
    and "\<forall>e i. mi_effect mi e = Inr i \<longrightarrow> id_domain i = ascii ''accepted-side-effect''"
    and "\<forall>m \<in> set (cg_topology g). wf_action (cm_action m)"
    and "reporting_publisher pub good obs status footprint saved" "good w"
    and "new_transaction pub plan cursors w = (Returned (), tx, w1)" "accept pub tx w1 = (r, tx', w2)"
  shows "case r of
     Raised err \<Rightarrow> False
   | Returned rep \<Rightarrow> rp_skipped rep = [] \<longrightarrow>
       length (rp_published rep) = length (ep_effects plan)
       \<and> plan_accepted_side_effects tp mi rt g mo (rp_cursors rep) = Inr (plan\<lparr>ep_effects := []\<rparr>)
   | Publication_error rep \<Rightarrow> plan_accepted_side_effects tp mi rt g mo (rp_cursors rep) = Inr plan"
proof -
  obtain bindings where f: "foldE (plan_consumer tp mi rt mo cursors bindings) (cg_topology g) [] = Inr (ep_effects plan)"
    using assms(3) by (auto simp: plan_accepted_side_effects_def mk_effect_plan_def)
  have ok: "\<forall>e \<in> set (ep_effects plan). effect_ok e" using planned_effects_ok [OF f assms(4,5)] .
  note out = reporting_publisher.accept_outcome [OF assms(6,7,2) ok assms(8,9)]
  show ?thesis
  proof (cases r)
    case (Returned rep)
    have u: "foldE replace_cursor (tx_updates tx') cursors = Inr (rp_cursors rep)"
      "rp_published rep = map (\<lambda>(e, p, x). x) (tx_accepted tx')" using out by (simp_all add: Returned)
    have "length (rp_published rep) = length (ep_effects plan)
       \<and> plan_accepted_side_effects tp mi rt g mo (rp_cursors rep) = Inr (plan\<lparr>ep_effects := []\<rparr>)" if "rp_skipped rep = []"
    proof -
      have d: "map fst (tx_accepted tx') = ep_effects plan"
        using delivered_effects [OF assms(8) assms(9) [unfolded Returned] that] .
      obtain p0 where "accept_loop pub (tx_initial tx) [] p0 (tx\<lparr>tx_prepared := []\<rparr>) w1 = (Returned rep, tx', w2)"
        using assms(9) by (auto simp: accept_def Returned split: if_splits)
      from accept_loop_updates [OF this] have "tx_updates tx' = map (se_after \<circ> fst) (tx_accepted tx')" by simp
      then have "tx_updates tx' = map se_after (ep_effects plan)" using d by (metis map_map)
      then have c: "commit_cursors cursors (ep_effects plan) = Inr (rp_cursors rep)" using u(1) by (simp add: commit_cursors_def)
      have s: "list_all2 (Consumer_Planning.sample_effect tp mi mo cursors) (filter (pending tp mi mo cursors) (cg_topology g)) (ep_effects plan)"
        using plan_fold [OF f] by auto
      have "length (rp_published rep) = length (ep_effects plan)" using u(2) d by (metis length_map)
      then show ?thesis using replan_is_quiet [OF assms(2) topology_ids_distinct [OF assms(1)] assms(3) s c] by simp
    qed
    then show ?thesis by (simp add: Returned)
  next
    case (Publication_error rep)
    then show ?thesis using out assms(3) by simp
  next
    case (Raised err)
    then show ?thesis using out by simp
  qed
qed

text \<open>The plan of the sample graph, staged and accepted by the diagnostic publisher.\<close>

lemma sample_prepare_all:
  "\<forall>e \<in> set es. 0 < attempt_limit e \<Longrightarrow> dw_diagnostics w = Map.empty \<Longrightarrow>
     \<exists>tx' w'. prepare_all (diagnostic_publisher (sample_native m)) es tx w = (Returned (), tx', w')"
proof (induction es arbitrary: tx w)
  case (Cons e es)
  obtain w' where "prepare_one (diagnostic_publisher (sample_native m)) e 0 None w = ((Some (Diagnostic_Publisher.sample_handle (dw_next w) e), 1, None), w')"
    "dw_diagnostics w' = Map.empty"
    using sample_prepare [of w e m] Cons.prems by auto
  then show ?case using Cons.IH [of w'] Cons.prems by simp
qed simp

theorem delivered_exactly_once_witness:
  "\<exists>plan tx w1 r tx' w2.
     plan_accepted_side_effects sample_triggers sample_mints Consumer_Planning.sample_plan sample_graph sample_moment [] = Inr plan
     \<and> map se_consumer (ep_effects plan) = [ascii ''b'', ascii ''a'']
     \<and> new_transaction (diagnostic_publisher (sample_native (ascii ''disk full''))) plan [] empty_world = (Returned (), tx, w1)
     \<and> accept (diagnostic_publisher (sample_native (ascii ''disk full''))) tx w1 = (r, tx', w2) \<and> (\<forall>err. r \<noteq> Raised err)"
proof -
  let ?pub = "diagnostic_publisher (sample_native (ascii ''disk full''))"
  obtain plan where plan: "plan_accepted_side_effects sample_triggers sample_mints Consumer_Planning.sample_plan sample_graph sample_moment [] = Inr plan"
    "map se_consumer (ep_effects plan) = [ascii ''b'', ascii ''a'']" by (rule sample_planned)
  have mint: "\<forall>e i. mi_effect sample_mints e = Inr i \<longrightarrow> id_domain i = ascii ''accepted-side-effect''"
    by (simp add: sample_mints_def Consumer_Graph.sample_identity_def)
  have act: "\<forall>m \<in> set (cg_topology sample_graph). wf_action (cm_action m)" by (simp add: sample_graph_def sample_manifest_def)
  obtain bindings where f: "foldE (plan_consumer sample_triggers sample_mints Consumer_Planning.sample_plan sample_moment [] bindings)
      (cg_topology sample_graph) [] = Inr (ep_effects plan)"
    using plan(1) by (auto simp: plan_accepted_side_effects_def mk_effect_plan_def)
  have ok: "\<forall>e \<in> set (ep_effects plan). effect_ok e" using planned_effects_ok [OF f mint act] .
  have lim: "\<forall>e \<in> set (ep_effects plan). 0 < attempt_limit e" using ok attempt_limit_pos by (fastforce simp: effect_ok_def)
  have s: "list_all2 (Consumer_Planning.sample_effect sample_triggers sample_mints sample_moment [])
      (filter (pending sample_triggers sample_mints sample_moment []) (cg_topology sample_graph)) (ep_effects plan)"
    using plan_fold [OF f] by auto
  have "stale_effect [] e = Inr ()" if "e \<in> set (ep_effects plan)" for e
    using list_all2_in_right [OF s that] by (auto simp: stale_effect_def Consumer_Planning.sample_effect_def)
  then have stale: "mapE (stale_effect []) (ep_effects plan) = Inr (map (\<lambda>_. ()) (ep_effects plan))" by (rule mapE_all)
  obtain tx0 w1 where "prepare_all ?pub (ep_effects plan) (empty_transaction plan []) empty_world = (Returned (), tx0, w1)"
    using sample_prepare_all [OF lim, of empty_world "ascii ''disk full''" "empty_transaction plan []"] by (auto simp: empty_world_def)
  then obtain tx where tx: "new_transaction ?pub plan [] empty_world = (Returned (), tx, w1)"
    using stale by (simp add: new_transaction_def)
  obtain r tx' w2 where ac: "accept ?pub tx w1 = (r, tx', w2)" by (metis prod_cases3)
  have nv: "diagnostic_native (sample_native (ascii ''disk full'')) (\<lambda>t. [])"
    by (rule sample_native_contract) (simp_all add: is_space_def)
  from delivered_exactly_once [OF sample_graph_built wf_no_cursors plan(1) mint act
      diagnostic_native.publisher_contract [OF nv] empty_world_inv tx ac]
  have "\<forall>err. r \<noteq> Raised err" by (cases r) auto
  with plan tx ac show ?thesis by (intro exI conjI)
qed

end
