(* ===== verification/Runtime_Planning.thy ===== *)
theory Runtime_Planning
  imports Runtime_Plan
begin

text \<open>
  The derivation of a runtime plan from an install plan: \<^verbatim>\<open>pops/runtime/_runtime_planning.py\<close>, with the component checks
  of \<^verbatim>\<open>pops/runtime/_runtime_plan_io.py\<close>.

  \<^item> The install plan is the record of what the planner reads of it: block names, layout assignments, layout
    mappings, the identities and the facts of the proved platform.  The proof of the platform
    (\<^verbatim>\<open>proved_platform\<close>, \<^verbatim>\<open>component_features\<close>) is given, and \<open>target\<close> is \<^verbatim>\<open>manifest.require_target\<close>.
  \<^item> A component manifest carries its rows as raw values, which the planner normalizes.
  \<^item> Dictionaries are association lists in insertion order; sets are lists of which only the members matter.
\<close>

subsection \<open>Inputs\<close>

record component_manifest =
  cf_component :: pystr
  cf_type :: pystr
  cf_digest :: identity
  cf_entry_points :: "(pystr \<times> pystr) list"
  cf_reads :: "raw_value list"
  cf_writes :: "raw_value list"
  cf_requirements :: "raw_value list"
  cf_effects :: "raw_value list"
  cf_clocks :: "raw_value list"
  cf_class :: "determinism_class option"
  cf_scope :: "pystr list"
  cf_inputs :: "pystr list"
  cf_outputs :: "pystr list"
  cf_accumulation :: pystr

record layout_assignment =
  la_kind :: pystr
  la_local :: pystr
  la_subject :: pystr
  la_layout :: pystr

record platform_facts =
  pf_compute :: pystr
  pf_storage :: pystr
  pf_accumulation :: pystr
  pf_communicator :: pystr

record execution_context =
  cx_identity :: identity
  cx_device :: pystr
  cx_communicator :: pystr
  cx_world :: "int result"
  cx_capabilities :: "(pystr \<times> frozen option) list"

record install_plan =
  ip_blocks :: "pystr list"
  ip_assignments :: "layout_assignment list"
  ip_layout_plan :: pystr
  ip_mappings :: "transfer list"
  ip_bind :: identity
  ip_platform :: identity
  ip_context :: execution_context
  ip_spaces :: "pystr list"
  ip_facts :: platform_facts

subsection \<open>Blocks and components\<close>

definition add_block_layout ::
  "(pystr \<times> pystr \<times> pystr) list \<Rightarrow> layout_assignment \<Rightarrow> (pystr \<times> pystr \<times> pystr) list result" where
  "add_block_layout blocks a =
     (if la_kind a \<noteq> ascii ''block'' then Inr blocks
      else if la_local a \<in> fst ` set blocks then Inl (ValueError ''duplicate_block_layout'')
      else Inr (blocks @ [(la_local a, la_subject a, la_layout a)]))"

definition block_layouts :: "install_plan \<Rightarrow> (pystr \<times> pystr \<times> pystr) list result" where
  "block_layouts ip =
     bindE (foldE add_block_layout (ip_assignments ip) []) (\<lambda>blocks.
     bindE (raise_if (fst ` set blocks \<noteq> set (ip_blocks ip)) (ValueError ''block_layout_set_mismatch'')) (\<lambda>_. Inr blocks))"

definition component_map ::
  "install_plan \<Rightarrow> (pystr \<times> component_manifest) list \<Rightarrow> (pystr \<times> component_manifest) list result" where
  "component_map ip manifests =
     bindE (raise_if (fst ` set manifests \<noteq> set (ip_blocks ip)) (ValueError ''component_set_mismatch'')) (\<lambda>_.
     mapE (\<lambda>name. case map_of manifests name of None \<Rightarrow> Inl (KeyError ''component'') | Some m \<Rightarrow> Inr (name, m)) (ip_blocks ip))"

definition validate_component_platform ::
  "(component_manifest \<Rightarrow> unit result) \<Rightarrow> platform_facts \<Rightarrow> component_manifest \<Rightarrow> unit result" where
  "validate_component_platform target facts m =
     (case target m of
        Inl _ \<Rightarrow> Inl (ValueError ''component_target_refused'')
      | Inr _ \<Rightarrow>
        bindE (raise_if (cf_reads m \<noteq> [] \<and> pf_compute facts \<notin> set (cf_inputs m)) (ValueError ''component_input_precision_mismatch'')) (\<lambda>_.
        bindE (raise_if (cf_writes m \<noteq> [] \<and> pf_storage facts \<notin> set (cf_outputs m)) (ValueError ''component_output_precision_mismatch'')) (\<lambda>_.
        raise_if (cf_accumulation m \<noteq> pf_accumulation facts) (ValueError ''component_accumulation_precision_mismatch''))))"

definition memory_space :: "(pystr \<times> frozen) list \<Rightarrow> pystr list \<Rightarrow> pystr result" where
  "memory_space row spaces =
     bindE (case row_get row (ascii ''memory_space'') of
         FNone \<Rightarrow> (case spaces of [s] \<Rightarrow> Inr (FText s) | _ \<Rightarrow> Inl (ValueError ''ambiguous_memory_space''))
       | v \<Rightarrow> Inr v) (\<lambda>v.
     bindE (row_text v) (\<lambda>s.
     bindE (raise_if (s \<notin> set spaces) (ValueError ''unsupported_memory_space'')) (\<lambda>_. Inr s)))"

definition access_of :: "pystr \<Rightarrow> pystr list \<Rightarrow> raw_value \<Rightarrow> field_access result" where
  "access_of mode spaces value =
     bindE (plain value) (\<lambda>v.
     bindE (exact_row [ascii ''resource''] [ascii ''memory_space''] v) (\<lambda>row.
     bindE (row_text (row_get row (ascii ''resource''))) (\<lambda>resource.
     bindE (memory_space row spaces) (\<lambda>space.
     mk_field_access \<lparr>fa_resource = resource, fa_mode = mode, fa_space = space\<rparr>))))"

definition accesses :: "pystr \<Rightarrow> pystr list \<Rightarrow> raw_value list \<Rightarrow> field_access list result" where
  "accesses mode spaces values =
     bindE (mapE (access_of mode spaces) values) (\<lambda>result.
     bindE (raise_if (\<not> distinct (map (\<lambda>a. (fa_resource a, fa_space a)) result)) (ValueError ''duplicate_runtime_access'')) (\<lambda>_.
     Inr result))"

definition entry_point :: "component_manifest \<Rightarrow> pystr result" where
  "entry_point m = (case cf_entry_points m of [(_, p)] \<Rightarrow> Inr p | _ \<Rightarrow> Inl (ValueError ''ambiguous_component_entry_point''))"

subsection \<open>Requirements of a call\<close>

type_synonym buffer_spec = "int \<times> pystr \<times> pystr \<times> int"

record requirement_state =
  rq_halos :: "(pystr \<times> int) list"
  rq_collectives :: "collective list"
  rq_buffers :: "buffer_spec list"
  rq_sequence :: int

definition halo_requirement :: "runtime_call \<Rightarrow> frozen \<Rightarrow> requirement_state \<Rightarrow> requirement_state result" where
  "halo_requirement call v st =
     (let reads = remdups (map fa_resource (rc_reads call)) in
      bindE (exact_row [ascii ''capability'', ascii ''depth''] [ascii ''resource''] v) (\<lambda>row.
      bindE (case row_get row (ascii ''resource'') of
          FNone \<Rightarrow> (case reads of [r] \<Rightarrow> Inr (FText r) | _ \<Rightarrow> Inl (ValueError ''ambiguous_halo_resource''))
        | r \<Rightarrow> Inr r) (\<lambda>r.
      bindE (row_text r) (\<lambda>resource.
      bindE (raise_if (resource \<notin> set reads) (ValueError ''halo_without_declared_read'')) (\<lambda>_.
      bindE (row_positive (row_get row (ascii ''depth''))) (\<lambda>depth.
      Inr (st\<lparr>rq_halos := AList.update resource
        (max (case map_of (rq_halos st) resource of None \<Rightarrow> 0 | Some d \<Rightarrow> d) depth) (rq_halos st)\<rparr>)))))))"

definition collective_requirement ::
  "(plan_payload \<Rightarrow> identity result) \<Rightarrow> pystr \<Rightarrow> runtime_call \<Rightarrow> frozen \<Rightarrow> requirement_state \<Rightarrow> requirement_state result" where
  "collective_requirement mint communicator call v st =
     bindE (exact_row [ascii ''capability'', ascii ''resource'', ascii ''operation'', ascii ''strategy''] [] v) (\<lambda>row.
     bindE (row_text (row_get row (ascii ''resource''))) (\<lambda>resource.
     bindE (raise_if (resource \<notin> fa_resource ` set (call_accesses call)) (ValueError ''collective_without_declared_access'')) (\<lambda>_.
     bindE (row_text (row_get row (ascii ''operation''))) (\<lambda>operation.
     bindE (row_text (row_get row (ascii ''strategy''))) (\<lambda>strategy.
     bindE (mk_collective mint \<lparr>co_identity = rc_identity call, co_call = rc_token call, co_resource = resource,
       co_operation = operation, co_strategy = strategy, co_communicator = communicator, co_sequence = rq_sequence st\<rparr>) (\<lambda>c.
     Inr (st\<lparr>rq_collectives := rq_collectives st @ [c], rq_sequence := rq_sequence st + 1\<rparr>)))))))"

definition buffer_requirement ::
  "pystr list \<Rightarrow> runtime_call \<Rightarrow> frozen \<Rightarrow> requirement_state \<Rightarrow> requirement_state result" where
  "buffer_requirement spaces call v st =
     bindE (exact_row [ascii ''capability'', ascii ''resource'', ascii ''bytes''] [ascii ''memory_space''] v) (\<lambda>row.
     bindE (memory_space row spaces) (\<lambda>space.
     bindE (row_text (row_get row (ascii ''resource''))) (\<lambda>resource.
     bindE (row_positive (row_get row (ascii ''bytes''))) (\<lambda>size.
     Inr (st\<lparr>rq_buffers := rq_buffers st @ [(rc_ordinal call, resource, space, size)]\<rparr>)))))"

definition add_requirement ::
  "(plan_payload \<Rightarrow> identity result) \<Rightarrow> pystr list \<Rightarrow> pystr \<Rightarrow> runtime_call \<Rightarrow> requirement_state \<Rightarrow> frozen \<Rightarrow>
   requirement_state result" where
  "add_requirement mint spaces communicator call st v =
     bindE (exact_row [ascii ''capability'']
       (map ascii [''resource'', ''depth'', ''operation'', ''strategy'', ''bytes'', ''memory_space'']) v) (\<lambda>base.
     bindE (row_text (row_get base (ascii ''capability''))) (\<lambda>capability.
     if capability = ascii ''halo'' then halo_requirement call v st
     else if capability = ascii ''collective'' then collective_requirement mint communicator call v st
     else if capability = ascii ''buffer'' then buffer_requirement spaces call v st
     else Inl (ValueError ''unsupported_runtime_requirement'')))"

definition requirement_rows ::
  "(plan_payload \<Rightarrow> identity result) \<Rightarrow> pystr list \<Rightarrow> pystr \<Rightarrow> runtime_call \<Rightarrow> int \<Rightarrow>
   (halo list \<times> collective list \<times> buffer_spec list \<times> int) result" where
  "requirement_rows mint spaces communicator call sequence =
     bindE (foldE (add_requirement mint spaces communicator call) (rc_requirements call)
       \<lparr>rq_halos = [], rq_collectives = [], rq_buffers = [], rq_sequence = sequence\<rparr>) (\<lambda>st.
     bindE (mapE (\<lambda>(resource, depth). mk_halo mint
         \<lparr>ha_identity = rc_identity call, ha_call = rc_token call, ha_resource = resource, ha_layout = rc_layout call,
          ha_depth = depth\<rparr>) (sort_key fst (rq_halos st))) (\<lambda>halos.
     Inr (halos, rq_collectives st, rq_buffers st, rq_sequence st)))"

subsection \<open>Clocks\<close>

definition add_clock_row ::
  "(plan_payload \<Rightarrow> identity result) \<Rightarrow> runtime_call \<Rightarrow> pystr list \<times> clock_join list \<Rightarrow> frozen \<Rightarrow>
   (pystr list \<times> clock_join list) result" where
  "add_clock_row mint call = (\<lambda>(clocks, joins) v.
     bindE (exact_row [ascii ''clock'', ascii ''access''] [ascii ''target'', ascii ''policy''] v) (\<lambda>initial.
     bindE (row_text (row_get initial (ascii ''clock''))) (\<lambda>clock.
     bindE (row_text (row_get initial (ascii ''access''))) (\<lambda>access.
     if access = ascii ''join'' then
       bindE (exact_row (map ascii [''clock'', ''access'', ''target'', ''policy'']) [] v) (\<lambda>row.
       bindE (row_text (row_get row (ascii ''target''))) (\<lambda>target.
       bindE (row_text (row_get row (ascii ''policy''))) (\<lambda>policy.
       bindE (mk_clock_join mint \<lparr>cj_identity = rc_identity call, cj_call = rc_token call, cj_source = clock,
         cj_target = target, cj_policy = policy\<rparr>) (\<lambda>j.
       Inr (clocks @ [clock, target], joins @ [j])))))
     else if access \<notin> set (map ascii [''stage'', ''observe'', ''advance'', ''read'']) then Inl (ValueError ''unsupported_clock_access'')
     else if \<not> fst ` set initial \<subseteq> {ascii ''clock'', ascii ''access''} then Inl (ValueError ''clock_join_fields_without_join'')
     else Inr (clocks @ [clock], joins)))))"

definition clock_rows ::
  "(plan_payload \<Rightarrow> identity result) \<Rightarrow> runtime_call \<Rightarrow> (pystr list \<times> clock_join list) result" where
  "clock_rows mint call = foldE (add_clock_row mint call) (rc_clocks call) ([], [])"

definition join_graph :: "pystr list \<Rightarrow> clock_join list \<Rightarrow> (pystr \<times> pystr list) list" where
  "join_graph clocks joins =
     map (\<lambda>c. (c, map cj_target (filter (\<lambda>j. cj_source j = c) joins) @ map cj_source (filter (\<lambda>j. cj_target j = c) joins)))
       (remdups clocks)"

function connected_loop :: "(pystr \<times> pystr list) list \<Rightarrow> pystr list \<Rightarrow> pystr list \<Rightarrow> pystr list result" where
  "connected_loop graph [] reached = Inr reached"
| "connected_loop graph (current # pending) reached =
     (if current \<in> set reached then connected_loop graph pending reached
      else case map_of graph current of
          None \<Rightarrow> Inl (KeyError ''clock'')
        | Some ns \<Rightarrow> connected_loop graph (filter (\<lambda>n. n \<notin> set (current # reached)) ns @ pending) (current # reached))"
  by pat_completeness auto
termination
proof (relation "measures [\<lambda>(graph, pending, reached). card (fst ` set graph - set reached), \<lambda>(graph, pending, reached). length pending]",
    goal_cases)
  case (3 graph current pending reached ns)
  then have "current \<in> fst ` set graph - set reached" by (force dest: map_of_SomeD)
  then have "card (fst ` set graph - set (current # reached)) < card (fst ` set graph - set reached)"
    by (intro psubset_card_mono) auto
  then show ?case by simp
qed auto

definition require_connected_clocks :: "pystr list \<Rightarrow> clock_join list \<Rightarrow> unit result" where
  "require_connected_clocks clocks joins =
     (if card (set clocks) < 2 then Inr ()
      else
        bindE (raise_if (list_ex (\<lambda>j. cj_source j \<notin> set clocks \<or> cj_target j \<notin> set clocks) joins) (KeyError ''clock'')) (\<lambda>_.
        bindE (connected_loop (join_graph clocks joins) [Min (set clocks)] []) (\<lambda>reached.
        raise_if (set reached \<noteq> set clocks) (ValueError ''missing_clock_join''))))"

subsection \<open>Uses, fences and buffers\<close>

record use_row =
  us_first :: int
  us_last :: int
  us_modes :: "pystr list"

definition note_use ::
  "int \<Rightarrow> ((pystr \<times> pystr) \<times> use_row) list \<Rightarrow> field_access \<Rightarrow> ((pystr \<times> pystr) \<times> use_row) list" where
  "note_use ordinal uses a =
     (let key = (fa_resource a, fa_space a);
          row = (case map_of uses key of
                   None \<Rightarrow> \<lparr>us_first = ordinal, us_last = ordinal, us_modes = []\<rparr> | Some r \<Rightarrow> r)
      in AList.update key (row\<lparr>us_last := ordinal, us_modes := us_modes row @ [fa_mode a]\<rparr>) uses)"

record fence_state =
  fs_previous :: "(pystr \<times> runtime_call \<times> pystr \<times> pystr) list"
  fs_fences :: "fence list"

definition access_mode :: "field_access list \<Rightarrow> pystr" where
  "access_mode as = (if write_mode \<in> fa_mode ` set as then write_mode else read_mode)"

definition fence_resource ::
  "(plan_payload \<Rightarrow> identity result) \<Rightarrow> runtime_call \<Rightarrow> fence_state \<Rightarrow> pystr \<Rightarrow> fence_state result" where
  "fence_resource mint call st resource =
     (let as = filter (\<lambda>a. fa_resource a = resource) (call_accesses call) in
      case remdups (map fa_space as) of
        [space] \<Rightarrow>
          (let mode = access_mode as; st' = st\<lparr>fs_previous := AList.update resource (call, space, mode) (fs_previous st)\<rparr> in
           case map_of (fs_previous st) resource of
             Some (prior, prior_space, prior_mode) \<Rightarrow>
               if prior_space \<noteq> space \<and> (prior_mode = write_mode \<or> mode = write_mode) then
                 bindE (mk_fence mint \<lparr>fe_identity = rc_identity call, fe_resource = resource, fe_before = rc_token prior,
                   fe_after = rc_token call, fe_source = prior_space, fe_target = space\<rparr>) (\<lambda>f.
                 Inr (st'\<lparr>fs_fences := fs_fences st @ [f]\<rparr>))
               else Inr st'
           | None \<Rightarrow> Inr st')
      | _ \<Rightarrow> Inl (ValueError ''intra_call_cross_space_access''))"

definition call_resources :: "runtime_call \<Rightarrow> pystr list" where
  "call_resources call = sort (remdups (map fa_resource (call_accesses call)))"

definition fence_call ::
  "(plan_payload \<Rightarrow> identity result) \<Rightarrow> fence_state \<Rightarrow> runtime_call \<Rightarrow> fence_state result" where
  "fence_call mint st call = foldE (fence_resource mint call) (call_resources call) st"

definition use_of :: "(pystr \<times> pystr) \<times> use_row \<Rightarrow> resource_use" where
  "use_of = (\<lambda>((resource, space), row).
     \<lparr>ru_resource = resource, ru_space = space, ru_first = us_first row, ru_last = us_last row,
      ru_modes = sort (remdups (us_modes row))\<rparr>)"

definition note_uses :: "runtime_call list \<Rightarrow> ((pystr \<times> pystr) \<times> use_row) list" where
  "note_uses calls = foldl (\<lambda>uses c. foldl (note_use (rc_ordinal c)) uses (call_accesses c)) [] calls"

definition resource_uses_and_fences ::
  "(plan_payload \<Rightarrow> identity result) \<Rightarrow> runtime_call list \<Rightarrow> (resource_use list \<times> fence list) result" where
  "resource_uses_and_fences mint calls =
     bindE (foldE (fence_call mint) calls \<lparr>fs_previous = [], fs_fences = []\<rparr>) (\<lambda>st.
     bindE (mapE (\<lambda>p. mk_resource_use (use_of p)) (sort_key fst (note_uses calls))) (\<lambda>rows.
     Inr (rows, fs_fences st)))"

record buffer_row =
  br_size :: int
  br_first :: int
  br_last :: int

definition add_buffer ::
  "resource_use list \<Rightarrow> ((pystr \<times> pystr) \<times> buffer_row) list \<Rightarrow> buffer_spec \<Rightarrow> ((pystr \<times> pystr) \<times> buffer_row) list" where
  "add_buffer uses rows = (\<lambda>(ordinal, resource, space, size).
     (let lifetimes = rev (map (\<lambda>u. ((ru_resource u, ru_space u), ru_first u, ru_last u)) uses);
          (first, last') = (case map_of lifetimes (resource, space) of None \<Rightarrow> (ordinal, ordinal) | Some l \<Rightarrow> l);
          row = (case map_of rows (resource, space) of
                   None \<Rightarrow> \<lparr>br_size = size, br_first = first, br_last = last'\<rparr> | Some r \<Rightarrow> r)
      in AList.update (resource, space)
           \<lparr>br_size = max (br_size row) size, br_first = min (br_first row) first, br_last = max (br_last row) last'\<rparr> rows))"

definition allocations :: "buffer_spec list \<Rightarrow> resource_use list \<Rightarrow> buffer_allocation list result" where
  "allocations specs uses =
     mapE (\<lambda>((resource, space), row). mk_buffer
         \<lparr>bf_resource = resource, bf_space = space, bf_size = br_size row, bf_first = br_first row, bf_last = br_last row\<rparr>)
       (sort_key fst (foldl (add_buffer uses) [] specs))"

subsection \<open>Determinism\<close>

fun class_order :: "determinism_class \<Rightarrow> int" where
  "class_order Bitwise = 0"
| "class_order Reproducible = 1"
| "class_order Statistical = 2"
| "class_order Nondeterministic = 3"

fun class_value :: "determinism_class \<Rightarrow> string" where
  "class_value Bitwise = ''bitwise''"
| "class_value Reproducible = ''reproducible''"
| "class_value Statistical = ''statistical''"
| "class_value Nondeterministic = ''nondeterministic''"

text \<open>\<^verbatim>\<open>max(classifications, key=...)\<close>: the first of the greatest.\<close>

fun max_class :: "determinism_class list \<Rightarrow> determinism_class result" where
  "max_class [] = Inl (ValueError ''max() arg is an empty sequence'')"
| "max_class (c # cs) = Inr (foldl (\<lambda>m x. if class_order m < class_order x then x else m) c cs)"

definition assumption :: "execution_context \<Rightarrow> communication_plan \<Rightarrow> pystr \<Rightarrow> frozen result" where
  "assumption cx p name =
     (if name = ascii ''device'' then Inr (FText (cx_device cx))
      else if name = ascii ''communicator'' then Inr (FText (cx_communicator cx))
      else if name = ascii ''reduction_order'' then Inr (FList (map (FText \<circ> co_token) (pc_collectives p)))
      else if name = ascii ''reduction_strategy''
        then Inr (FList (map (\<lambda>c. FText (co_operation c @ ascii '':'' @ co_strategy c)) (pc_collectives p)))
      else if name = ascii ''rank_count'' then
        (if cx_communicator cx = ascii ''serial'' then Inr (FInt 1)
         else case cx_world cx of
             Inr n \<Rightarrow> Inr (FInt n)
           | Inl (TypeError s) \<Rightarrow> Inl (ValueError ''unknown_determinism_assumption'')
           | Inl (ValueError s) \<Rightarrow> Inl (ValueError ''unknown_determinism_assumption'')
           | Inl e \<Rightarrow> Inl e)
      else case map_of (cx_capabilities cx) name of
          Some (Some v) \<Rightarrow> Inr v
        | _ \<Rightarrow> Inl (ValueError ''unknown_determinism_assumption''))"

definition call_evidence ::
  "(pystr \<times> component_manifest) list \<Rightarrow> (identity \<Rightarrow> frozen) \<Rightarrow> runtime_call \<Rightarrow> (pystr \<times> frozen) result" where
  "call_evidence manifests identity_frozen call =
     (case filter (\<lambda>p. cf_component (snd p) = rc_component call) manifests of
        [] \<Rightarrow> Inl (RuntimeError ''StopIteration'')
      | (_, m) # _ \<Rightarrow>
        (case cf_class m of
           None \<Rightarrow> Inl (ValueError ''unspecified_component_determinism'')
         | Some c \<Rightarrow>
           Inr (rc_block call, FMap [(ascii ''component_id'', FText (rc_component call)),
             (ascii ''manifest_identity'', identity_frozen (rc_manifest call)),
             (ascii ''classification'', FText (ascii (class_value c))), (ascii ''scope'', FList (map FText (cf_scope m)))])))"

definition determinism ::
  "(plan_payload \<Rightarrow> identity result) \<Rightarrow> (identity \<Rightarrow> frozen) \<Rightarrow> runtime_call list \<Rightarrow> (pystr \<times> component_manifest) list \<Rightarrow>
   execution_context \<Rightarrow> communication_plan \<Rightarrow> determinism_guarantee result" where
  "determinism mint identity_frozen calls manifests cx p =
     bindE (mapE (\<lambda>q. case cf_class (snd q) of None \<Rightarrow> Inl (ValueError ''unspecified_component_determinism'') | Some c \<Rightarrow> Inr c)
       manifests) (\<lambda>classes.
     bindE (max_class classes) (\<lambda>classification.
     let scope = sort (remdups (concat (map (\<lambda>q. cf_scope (snd q)) manifests)));
         required = (if classification = Bitwise
           then scope @ map ascii [''rank_count'', ''device'', ''reduction_order'', ''reduction_strategy''] else scope) in
     bindE (mapE (\<lambda>name. bindE (assumption cx p name) (\<lambda>v. Inr (name, v))) (sort (remdups required))) (\<lambda>assumptions.
     bindE (mapE (call_evidence manifests identity_frozen) calls) (\<lambda>evidence.
     mk_determinism mint \<lparr>dg_identity = cx_identity cx, dg_class = classification, dg_scope = scope,
       dg_assumptions = assumptions, dg_evidence = fold (\<lambda>(block, row). AList.update block row) evidence [], dg_context = cx_identity cx\<rparr>))))"

subsection \<open>The plan\<close>

record build_state =
  bs_calls :: "runtime_call list"
  bs_halos :: "halo list"
  bs_collectives :: "collective list"
  bs_buffers :: "buffer_spec list"
  bs_joins :: "clock_join list"
  bs_clocks :: "pystr list"
  bs_declared :: "frozen list"
  bs_sequence :: int

definition declared_row :: "pystr \<Rightarrow> component_manifest \<Rightarrow> frozen \<Rightarrow> frozen" where
  "declared_row block_id m v =
     FMap [(ascii ''block_id'', FText block_id), (ascii ''component_id'', FText (cf_component m)), (ascii ''requirement'', v)]"

definition build_call ::
  "(plan_payload \<Rightarrow> identity result) \<Rightarrow> install_plan \<Rightarrow> (pystr \<times> pystr \<times> pystr) list \<Rightarrow> nat \<Rightarrow> pystr \<Rightarrow>
   component_manifest \<Rightarrow> runtime_call result" where
  "build_call mint ip layouts ordinal name m =
     bindE (case map_of layouts name of None \<Rightarrow> Inl (KeyError ''block'') | Some l \<Rightarrow> Inr l) (\<lambda>(block_id, layout_id).
     bindE (entry_point m) (\<lambda>entry.
     bindE (accesses read_mode (ip_spaces ip) (cf_reads m)) (\<lambda>reads.
     bindE (accesses write_mode (ip_spaces ip) (cf_writes m)) (\<lambda>writes.
     bindE (mapE plain (cf_requirements m)) (\<lambda>requirements.
     bindE (mapE plain (cf_effects m)) (\<lambda>effects.
     bindE (mapE plain (cf_clocks m)) (\<lambda>clocks.
     mk_runtime_call mint \<lparr>rc_identity = cf_digest m, rc_ordinal = int ordinal, rc_block = block_id,
       rc_component = cf_component m, rc_component_type = cf_type m, rc_manifest = cf_digest m, rc_layout = layout_id,
       rc_entry = entry, rc_reads = reads, rc_writes = writes, rc_requirements = requirements, rc_effects = effects,
       rc_clocks = clocks\<rparr>)))))))"

definition build_step ::
  "(plan_payload \<Rightarrow> identity result) \<Rightarrow> (component_manifest \<Rightarrow> unit result) \<Rightarrow> install_plan \<Rightarrow>
   (pystr \<times> pystr \<times> pystr) list \<Rightarrow> build_state \<Rightarrow> pystr \<times> component_manifest \<Rightarrow> build_state result" where
  "build_step mint target ip layouts st = (\<lambda>(name, m).
     bindE (validate_component_platform target (ip_facts ip) m) (\<lambda>_.
     bindE (build_call mint ip layouts (length (bs_calls st)) name m) (\<lambda>call.
     bindE (requirement_rows mint (ip_spaces ip) (pf_communicator (ip_facts ip)) call (bs_sequence st)) (\<lambda>(halos, collectives, buffers, sequence).
     bindE (clock_rows mint call) (\<lambda>(clocks, joins).
     Inr \<lparr>bs_calls = bs_calls st @ [call], bs_halos = bs_halos st @ halos, bs_collectives = bs_collectives st @ collectives,
       bs_buffers = bs_buffers st @ buffers, bs_joins = bs_joins st @ joins, bs_clocks = bs_clocks st @ clocks,
       bs_declared = bs_declared st @ map (declared_row (rc_block call) m) (rc_requirements call),
       bs_sequence = sequence\<rparr>)))))"

definition build_runtime_plans ::
  "(plan_payload \<Rightarrow> identity result) \<Rightarrow> (identity \<Rightarrow> frozen) \<Rightarrow> (component_manifest \<Rightarrow> unit result) \<Rightarrow> install_plan \<Rightarrow>
   (pystr \<times> component_manifest) list \<Rightarrow> runtime_plan result" where
  "build_runtime_plans mint identity_frozen target ip component_manifests =
     bindE (component_map ip component_manifests) (\<lambda>manifests.
     bindE (block_layouts ip) (\<lambda>layouts.
     bindE (foldE (build_step mint target ip layouts) manifests
       \<lparr>bs_calls = [], bs_halos = [], bs_collectives = [], bs_buffers = [], bs_joins = [], bs_clocks = [], bs_declared = [],
        bs_sequence = 0\<rparr>) (\<lambda>st.
     bindE (require_connected_clocks (bs_clocks st) (bs_joins st)) (\<lambda>_.
     bindE (mapE (mk_transfer mint) (ip_mappings ip)) (\<lambda>transfers.
     bindE (resource_uses_and_fences mint (bs_calls st)) (\<lambda>(uses, fences).
     bindE (mk_communication_plan mint \<lparr>pc_identity = ip_bind ip, pc_layout = ip_layout_plan ip,
       pc_communicator = pf_communicator (ip_facts ip), pc_halos = bs_halos st, pc_transfers = transfers,
       pc_collectives = bs_collectives st, pc_fences = fences, pc_joins = bs_joins st\<rparr>) (\<lambda>communication.
     bindE (allocations (bs_buffers st) uses) (\<lambda>buffers.
     bindE (mk_resource_plan mint \<lparr>rpl_identity = ip_bind ip, rpl_layout = ip_layout_plan ip, rpl_context = cx_identity (ip_context ip),
       rpl_spaces = ip_spaces ip, rpl_uses = uses, rpl_buffers = buffers,
       rpl_providers = sort (remdups (map tr_provider (ip_mappings ip))), rpl_fence_ids = map fe_token fences,
       rpl_declared = bs_declared st\<rparr>) (\<lambda>resources.
     bindE (determinism mint identity_frozen (bs_calls st) manifests (ip_context ip) communication) (\<lambda>guarantee.
     mk_runtime_plan mint \<lparr>rt_identity = ip_bind ip, rt_install = ip_bind ip, rt_platform = ip_platform ip,
       rt_context = cx_identity (ip_context ip), rt_layout = ip_layout_plan ip, rt_calls = bs_calls st,
       rt_communication = communication, rt_resources = resources, rt_determinism = guarantee\<rparr>))))))))))"

text \<open>\<^verbatim>\<open>require_runtime_plan_bundle\<close>: the bundle is the one derived for this install plan, before a native provider reads it.\<close>

definition require_runtime_plan_bundle ::
  "(plan_payload \<Rightarrow> identity result) \<Rightarrow> install_plan \<Rightarrow> runtime_plan \<Rightarrow> runtime_plan result" where
  "require_runtime_plan_bundle mint ip b =
     bindE (mint (bundle_payload b)) (\<lambda>i.
     bindE (raise_if (rt_identity b \<noteq> i) (ValueError ''RuntimePlanBundle identity does not authenticate its payload'')) (\<lambda>_.
     bindE (raise_if (rt_install b \<noteq> ip_bind ip) (ValueError ''RuntimePlanBundle bind identity differs from InstallPlan'')) (\<lambda>_.
     bindE (raise_if (rt_platform b \<noteq> ip_platform ip) (ValueError ''RuntimePlanBundle platform identity differs from InstallPlan'')) (\<lambda>_.
     bindE (raise_if (rt_context b \<noteq> cx_identity (ip_context ip))
       (ValueError ''RuntimePlanBundle execution context identity differs from InstallPlan'')) (\<lambda>_.
     bindE (raise_if (rt_layout b \<noteq> ip_layout_plan ip)
       (ValueError ''RuntimePlanBundle layout identity differs from compiled LayoutPlan'')) (\<lambda>_. Inr b))))))"

end
