(* ===== verification/Runtime_Plan_Laws.thy ===== *)
theory Runtime_Plan_Laws
  imports Runtime_Planning
begin

text \<open>
  What a derived runtime plan guarantees: clocks are connected, fences are exactly the hazards between consecutive
  accesses, lifetimes and buffers cover every use, every communication row is justified by a call, and the determinism
  guarantee is the weakest one a component declares.
\<close>

definition plan_identity :: "string \<Rightarrow> identity" where
  "plan_identity s = \<lparr>id_domain = ascii s, id_schema_version = 1, id_algorithm = algorithm_name, id_digest = []\<rparr>"

subsection \<open>The clocks are connected\<close>

definition joined :: "clock_join list \<Rightarrow> (pystr \<times> pystr) set" where
  "joined joins = {(cj_source j, cj_target j) | j. j \<in> set joins} \<union> {(cj_target j, cj_source j) | j. j \<in> set joins}"

lemma join_graph_lookup:
  "map_of (join_graph clocks joins) c =
     (if c \<in> set clocks then Some (map cj_target (filter (\<lambda>j. cj_source j = c) joins) @ map cj_source (filter (\<lambda>j. cj_target j = c) joins))
      else None)"
proof -
  have "map_of (map (\<lambda>c. (c, f c)) xs) c = (if c \<in> set xs then Some (f c) else None)" for f :: "pystr \<Rightarrow> pystr list" and xs
    by (induction xs) auto
  then show ?thesis by (simp add: join_graph_def)
qed

lemma join_graph_neighbours:
  "map_of (join_graph clocks joins) c = Some ns \<Longrightarrow> n \<in> set ns \<longleftrightarrow> (c, n) \<in> joined joins"
  by (auto simp: join_graph_lookup joined_def split: if_splits)

text \<open>The loop keeps: what is reached is reachable, and the neighbours of what is reached are reached or pending.\<close>

lemma connected_loop_result:
  assumes "\<And>c. c \<in> set clocks \<Longrightarrow> map_of graph c \<noteq> None"
    and "\<And>c ns n. map_of graph c = Some ns \<Longrightarrow> n \<in> set ns \<longleftrightarrow> (c, n) \<in> r"
    and "r \<subseteq> set clocks \<times> set clocks" "set pending \<subseteq> set clocks"
    and "\<forall>c \<in> set reached. \<forall>n. (c, n) \<in> r \<longrightarrow> n \<in> set reached \<union> set pending"
    and "set reached \<union> set pending \<subseteq> r\<^sup>* `` {start}" "start \<in> set reached \<union> set pending"
  shows "\<exists>reached'. connected_loop graph pending reached = Inr reached' \<and> set reached' = r\<^sup>* `` {start}"
  using assms
proof (induction graph pending reached rule: connected_loop.induct)
  case (1 graph reached)
  have "c \<in> set reached" if "(start, c) \<in> r\<^sup>*" for c
    using that by (induction rule: rtrancl_induct) (use 1 in auto)
  then show ?case using 1 by auto
next
  case (2 graph current pending reached)
  show ?case
  proof (cases "current \<in> set reached")
    case True
    have "\<exists>reached'. connected_loop graph pending reached = Inr reached' \<and> set reached' = r\<^sup>* `` {start}"
      using "2.prems" True by (intro "2.IH"(1) [OF True "2.prems"(1,2)]) auto
    then show ?thesis using True by simp
  next
    case False
    obtain ns where ns: "map_of graph current = Some ns" using "2.prems"(1,4) by fastforce
    have nb: "n \<in> set ns \<longleftrightarrow> (current, n) \<in> r" for n using "2.prems"(2) [OF ns] .
    let ?pending = "filter (\<lambda>n. n \<notin> set (current # reached)) ns @ pending"
    have cur: "(start, current) \<in> r\<^sup>*" using "2.prems"(6) by auto
    have "\<exists>reached'. connected_loop graph ?pending (current # reached) = Inr reached' \<and> set reached' = r\<^sup>* `` {start}"
    proof (rule "2.IH"(2) [OF False ns "2.prems"(1,2,3)])
      show "set ?pending \<subseteq> set clocks" using "2.prems"(3,4) nb by auto
      show "\<forall>c\<in>set (current # reached). \<forall>n. (c, n) \<in> r \<longrightarrow> n \<in> set (current # reached) \<union> set ?pending"
        using "2.prems"(5) nb by auto
      show "set (current # reached) \<union> set ?pending \<subseteq> r\<^sup>* `` {start}"
        using "2.prems"(6) nb cur by (auto intro: rtrancl_into_rtrancl)
      show "start \<in> set (current # reached) \<union> set ?pending" using "2.prems"(7) by auto
    qed
    then show ?thesis using False ns by simp
  qed
qed

text \<open>
  C5.  \<^verbatim>\<open>_require_connected_clocks\<close> accepts the clocks of a plan exactly when every clock can be reached from every
  other through the declared joins, taken in either direction; its worklist always ends.
\<close>

theorem connected_clocks_iff:
  assumes "\<forall>j \<in> set joins. cj_source j \<in> set clocks \<and> cj_target j \<in> set clocks"
  shows "is_ok (require_connected_clocks clocks joins) \<longleftrightarrow> (\<forall>a \<in> set clocks. \<forall>b \<in> set clocks. (a, b) \<in> (joined joins)\<^sup>*)"
proof (cases "card (set clocks) < 2")
  case True
  then have "a = b" if "a \<in> set clocks" "b \<in> set clocks" for a b
    using that card_le_Suc0_iff_eq [of "set clocks"] by simp
  then show ?thesis using True by (auto simp: require_connected_clocks_def)
next
  case False
  let ?r = "joined joins" and ?start = "Min (set clocks)"
  have ne: "set clocks \<noteq> {}" using False by auto
  have start: "?start \<in> set clocks" using ne by simp
  have sub: "?r \<subseteq> set clocks \<times> set clocks" using assms by (auto simp: joined_def)
  have sym: "sym (?r\<^sup>*)" by (rule sym_rtrancl) (auto simp: joined_def sym_def)
  have "\<exists>reached. connected_loop (join_graph clocks joins) [?start] [] = Inr reached \<and> set reached = ?r\<^sup>* `` {?start}"
  proof (rule connected_loop_result [where clocks = clocks])
    show "map_of (join_graph clocks joins) c \<noteq> None" if "c \<in> set clocks" for c using that by (simp add: join_graph_lookup)
    show "n \<in> set ns \<longleftrightarrow> (c, n) \<in> ?r" if "map_of (join_graph clocks joins) c = Some ns" for c ns n
      using that by (rule join_graph_neighbours)
  qed (use sub start in auto)
  then obtain reached where run: "connected_loop (join_graph clocks joins) [?start] [] = Inr reached" "set reached = ?r\<^sup>* `` {?start}"
    by blast
  have "is_ok (require_connected_clocks clocks joins) \<longleftrightarrow> set reached = set clocks"
    using False run assms by (auto simp: require_connected_clocks_def raise_if_def list_ex_iff)
  also have "\<dots> \<longleftrightarrow> (\<forall>a \<in> set clocks. \<forall>b \<in> set clocks. (a, b) \<in> ?r\<^sup>*)"
  proof
    assume eq: "set reached = set clocks"
    show "\<forall>a \<in> set clocks. \<forall>b \<in> set clocks. (a, b) \<in> ?r\<^sup>*"
    proof (intro ballI)
      fix a b assume "a \<in> set clocks" "b \<in> set clocks"
      then have "(?start, a) \<in> ?r\<^sup>*" "(?start, b) \<in> ?r\<^sup>*" using eq run(2) by auto
      then show "(a, b) \<in> ?r\<^sup>*" using sym by (meson rtrancl_trans symD)
    qed
  next
    assume all: "\<forall>a \<in> set clocks. \<forall>b \<in> set clocks. (a, b) \<in> ?r\<^sup>*"
    have "b \<in> set clocks" if "(?start, b) \<in> ?r\<^sup>*" for b
      using that start by (induction rule: rtrancl_induct) (use sub in auto)
    then show "set reached = set clocks" using all start run(2) by auto
  qed
  finally show ?thesis .
qed

text \<open>Two clocks joined once are accepted.\<close>

definition sample_join :: clock_join where
  "sample_join = \<lparr>cj_identity = plan_identity ''j'', cj_call = ascii ''c'', cj_source = ascii ''b'', cj_target = ascii ''a'', cj_policy = ascii ''p''\<rparr>"

theorem connected_clocks_iff_witness: "is_ok (require_connected_clocks [ascii ''a'', ascii ''b''] [sample_join])"
proof -
  have j: "joined [sample_join] = {(ascii ''a'', ascii ''b''), (ascii ''b'', ascii ''a'')}" by (auto simp: joined_def sample_join_def)
  have "\<forall>j \<in> set [sample_join]. cj_source j \<in> set [ascii ''a'', ascii ''b''] \<and> cj_target j \<in> set [ascii ''a'', ascii ''b'']"
    by (simp add: sample_join_def)
  from connected_clocks_iff [OF this] show ?thesis unfolding j by (auto intro: r_into_rtrancl)
qed

lemmas text_eval = check_text_def strip_text_def is_space_def ascii_def

subsection \<open>Fences\<close>

definition touches :: "pystr \<Rightarrow> runtime_call \<Rightarrow> bool" where
  "touches r c \<longleftrightarrow> r \<in> fa_resource ` set (call_accesses c)"

definition accesses_to :: "pystr \<Rightarrow> runtime_call \<Rightarrow> field_access list" where
  "accesses_to r c = filter (\<lambda>a. fa_resource a = r) (call_accesses c)"

definition touched_space :: "pystr \<Rightarrow> runtime_call \<Rightarrow> pystr" where
  "touched_space r c = hd (map fa_space (accesses_to r c))"

definition writes_to :: "pystr \<Rightarrow> runtime_call \<Rightarrow> bool" where
  "writes_to r c \<longleftrightarrow> write_mode \<in> fa_mode ` set (accesses_to r c)"

definition fence_key :: "fence \<Rightarrow> pystr \<times> pystr \<times> pystr \<times> pystr \<times> pystr" where
  "fence_key f = (fe_resource f, fe_before f, fe_after f, fe_source f, fe_target f)"

text \<open>A hazard: two accesses to a resource with no other between them, in different spaces, one of them a write.\<close>

definition hazard :: "runtime_call list \<Rightarrow> pystr \<Rightarrow> nat \<Rightarrow> nat \<Rightarrow> bool" where
  "hazard calls r i j \<longleftrightarrow> i < j \<and> j < length calls \<and> touches r (calls ! i) \<and> touches r (calls ! j)
     \<and> (\<forall>k. i < k \<longrightarrow> k < j \<longrightarrow> \<not> touches r (calls ! k))
     \<and> touched_space r (calls ! i) \<noteq> touched_space r (calls ! j) \<and> (writes_to r (calls ! i) \<or> writes_to r (calls ! j))"

definition hazard_keys :: "runtime_call list \<Rightarrow> (pystr \<times> pystr \<times> pystr \<times> pystr \<times> pystr) set" where
  "hazard_keys calls =
     {(r, rc_token (calls ! i), rc_token (calls ! j), touched_space r (calls ! i), touched_space r (calls ! j)) | r i j.
       hazard calls r i j}"

text \<open>What the loop keeps of each resource: its last access.\<close>

definition last_access :: "runtime_call list \<Rightarrow> pystr \<Rightarrow> (runtime_call \<times> pystr \<times> pystr) option" where
  "last_access calls r =
     map_option (\<lambda>c. (c, touched_space r c, access_mode (accesses_to r c))) (find (touches r) (rev calls))"

lemma last_access_snoc:
  "last_access (calls @ [c]) r =
     (if touches r c then Some (c, touched_space r c, access_mode (accesses_to r c)) else last_access calls r)"
  by (simp add: last_access_def)

lemma set_call_resources: "r \<in> set (call_resources c) \<longleftrightarrow> touches r c"
  by (auto simp: call_resources_def touches_def)

lemma distinct_call_resources: "distinct (call_resources c)"
  by (simp add: call_resources_def)

lemma mode_write_iff [simp]: "access_mode (accesses_to r c) = write_mode \<longleftrightarrow> writes_to r c"
  by (simp add: access_mode_def writes_to_def read_mode_def write_mode_def ascii_def)

definition fence_needed :: "(runtime_call \<times> pystr \<times> pystr) option \<Rightarrow> runtime_call \<Rightarrow> pystr \<Rightarrow> (pystr \<times> pystr \<times> pystr \<times> pystr \<times> pystr) list" where
  "fence_needed prior c r =
     (case prior of None \<Rightarrow> []
      | Some (p, s, m) \<Rightarrow> if s \<noteq> touched_space r c \<and> (m = write_mode \<or> writes_to r c)
          then [(r, rc_token p, rc_token c, s, touched_space r c)] else [])"

definition one_space :: "pystr \<Rightarrow> runtime_call \<Rightarrow> bool" where
  "one_space r c \<longleftrightarrow> fa_space ` set (accesses_to r c) = {touched_space r c}"

lemma fence_resource_result:
  assumes "fence_resource mint c st r = Inr st'"
  shows "map_of (fs_previous st') = (map_of (fs_previous st))(r \<mapsto> (c, touched_space r c, access_mode (accesses_to r c)))"
    and "map fence_key (fs_fences st') = map fence_key (fs_fences st) @ fence_needed (map_of (fs_previous st) r) c r"
    and "one_space r c"
proof -
  obtain s where s: "remdups (map fa_space (accesses_to r c)) = [s]"
    using assms by (simp add: fence_resource_def accesses_to_def Let_def split: list.splits)
  then have set: "fa_space ` set (accesses_to r c) = {s}" by (metis list.set(1) list.simps(15) set_map set_remdups)
  then have t: "touched_space r c = s" 
    by (cases "accesses_to r c") (auto simp: touched_space_def)
  show "one_space r c" using set t by (simp add: one_space_def)
  note def = assms [unfolded fence_resource_def Let_def, folded accesses_to_def, unfolded s]
  show "map_of (fs_previous st') = (map_of (fs_previous st))(r \<mapsto> (c, touched_space r c, access_mode (accesses_to r c)))"
    using def by (auto simp: t update_conv' split: option.splits if_splits)
  show "map fence_key (fs_fences st') = map fence_key (fs_fences st) @ fence_needed (map_of (fs_previous st) r) c r"
    using def by (auto simp: t fence_needed_def fence_key_def mk_fence_def split: option.splits if_splits)
qed

lemma fence_resources_result:
  assumes "foldE (fence_resource mint c) rs st = Inr st'" "distinct rs"
  shows "map_of (fs_previous st') r =
           (if r \<in> set rs then Some (c, touched_space r c, access_mode (accesses_to r c)) else map_of (fs_previous st) r)"
    and "set (map fence_key (fs_fences st')) =
           set (map fence_key (fs_fences st)) \<union> (\<Union>r \<in> set rs. set (fence_needed (map_of (fs_previous st) r) c r))"
    and "\<forall>r \<in> set rs. one_space r c"
  using assms
proof (induction rs arbitrary: st)
  case (Cons r0 rs)
  {
    case 1
    then show ?case using Cons.IH(1) fence_resource_result(1) by (fastforce split: if_splits)
  next
    case 2
    then obtain st1 where st1: "fence_resource mint c st r0 = Inr st1" "foldE (fence_resource mint c) rs st1 = Inr st'" by auto
    have "map_of (fs_previous st1) r = map_of (fs_previous st) r" if "r \<in> set rs" for r
      using fence_resource_result(1) [OF st1(1)] that 2(2) by auto
    then have "(\<Union>r \<in> set rs. set (fence_needed (map_of (fs_previous st1) r) c r)) = (\<Union>r \<in> set rs. set (fence_needed (map_of (fs_previous st) r) c r))"
      by simp
    then show ?case using Cons.IH(2) [OF st1(2)] 2(2) fence_resource_result(2) [OF st1(1)] by auto
  next
    case 3
    then show ?case using Cons.IH(3) fence_resource_result(3) by fastforce
  }
qed simp_all

lemma fence_needed_iff:
  "k \<in> set (fence_needed (last_access calls r) c r) \<longleftrightarrow>
     (\<exists>i < length calls. touches r (calls ! i) \<and> (\<forall>j. i < j \<longrightarrow> j < length calls \<longrightarrow> \<not> touches r (calls ! j))
       \<and> touched_space r (calls ! i) \<noteq> touched_space r c \<and> (writes_to r (calls ! i) \<or> writes_to r c)
       \<and> k = (r, rc_token (calls ! i), rc_token c, touched_space r (calls ! i), touched_space r c))"
proof (cases "find (touches r) (rev calls)")
  case None
  then have "\<not> touches r (calls ! i)" if "i < length calls" for i using that by (auto simp: find_None_iff)
  then show ?thesis using None by (auto simp: fence_needed_def last_access_def)
next
  case (Some p)
  let ?last = "\<lambda>i. i < length calls \<and> touches r (calls ! i) \<and> (\<forall>j. i < j \<longrightarrow> j < length calls \<longrightarrow> \<not> touches r (calls ! j))"
  obtain i where i: "?last i" "calls ! i = p"
    using Some unfolding find_rev_Some by blast
  have "i' = i" if "?last i'" for i'
    using that i(1) by (meson linorder_neqE_nat)
  then have "(\<exists>i'. ?last i' \<and> Q i') \<longleftrightarrow> Q i" for Q using i(1) by blast
  note this [of "\<lambda>i. touched_space r (calls ! i) \<noteq> touched_space r c \<and> (writes_to r (calls ! i) \<or> writes_to r c)
      \<and> k = (r, rc_token (calls ! i), rc_token c, touched_space r (calls ! i), touched_space r c)"]
  then have "k \<in> set (fence_needed (last_access calls r) c r) \<longleftrightarrow> (\<exists>i'. ?last i' \<and> touched_space r (calls ! i') \<noteq> touched_space r c
      \<and> (writes_to r (calls ! i') \<or> writes_to r c)
      \<and> k = (r, rc_token (calls ! i'), rc_token c, touched_space r (calls ! i'), touched_space r c))"
    using i(2) Some by (auto simp: fence_needed_def last_access_def)
  then show ?thesis by (simp only: conj_assoc)
qed

lemma hazard_snoc:
  "hazard (calls @ [c]) r i j \<longleftrightarrow> hazard calls r i j \<or>
     j = length calls \<and> i < length calls \<and> touches r c \<and> touches r (calls ! i)
     \<and> (\<forall>k. i < k \<longrightarrow> k < length calls \<longrightarrow> \<not> touches r (calls ! k))
     \<and> touched_space r (calls ! i) \<noteq> touched_space r c \<and> (writes_to r (calls ! i) \<or> writes_to r c)"
  by (cases "j = length calls") (auto simp: hazard_def nth_append)

lemma hazard_index: "hazard calls r i j \<Longrightarrow> i < length calls \<and> j < length calls"
  by (simp add: hazard_def)

lemma hazard_keys_snoc:
  "hazard_keys (calls @ [c]) =
     hazard_keys calls \<union> (\<Union>r \<in> set (call_resources c). set (fence_needed (last_access calls r) c r))" (is "?l = ?a \<union> ?b")
proof (intro set_eqI iffI)
  fix k assume "k \<in> ?l"
  then obtain r i j where k: "hazard (calls @ [c]) r i j"
    "k = (r, rc_token ((calls @ [c]) ! i), rc_token ((calls @ [c]) ! j), touched_space r ((calls @ [c]) ! i), touched_space r ((calls @ [c]) ! j))"
    by (auto simp: hazard_keys_def)
  show "k \<in> ?a \<union> ?b"
  proof (cases "hazard calls r i j")
    case True
    then show ?thesis using k(2) hazard_index [OF True] by (auto simp: hazard_keys_def nth_append)
  next
    case False
    then have "k \<in> set (fence_needed (last_access calls r) c r)" "touches r c"
      using k unfolding hazard_snoc fence_needed_iff by (auto simp: nth_append)
    then show ?thesis by (auto simp: set_call_resources)
  qed
next
  fix k assume "k \<in> ?a \<union> ?b"
  then show "k \<in> ?l"
  proof
    assume "k \<in> ?a"
    then obtain r i j where k: "hazard calls r i j"
      "k = (r, rc_token (calls ! i), rc_token (calls ! j), touched_space r (calls ! i), touched_space r (calls ! j))"
      by (auto simp: hazard_keys_def)
    then have "hazard (calls @ [c]) r i j" by (simp add: hazard_snoc)
    then show ?thesis using k(2) hazard_index [OF k(1)] unfolding hazard_keys_def mem_Collect_eq
      by (intro exI [of _ r] exI [of _ i] exI [of _ j]) (simp add: nth_append)
  next
    assume "k \<in> ?b"
    then obtain r where r: "touches r c" "k \<in> set (fence_needed (last_access calls r) c r)" by (auto simp: set_call_resources)
    from r(2) obtain i where i: "hazard (calls @ [c]) r i (length calls)" "i < length calls"
      "k = (r, rc_token (calls ! i), rc_token c, touched_space r (calls ! i), touched_space r c)"
      unfolding fence_needed_iff hazard_snoc using r(1) by blast
    then show ?thesis unfolding hazard_keys_def mem_Collect_eq
      by (intro exI [of _ r] exI [of _ i] exI [of _ "length calls"]) (simp add: nth_append)
  qed
qed

lemma fence_calls_snoc:
  assumes "foldE (fence_call mint) (calls @ [c]) st = Inr st'"
  obtains st0 where "foldE (fence_call mint) calls st = Inr st0" "foldE (fence_resource mint c) (call_resources c) st0 = Inr st'"
  using assms by (auto simp: foldE_append) (simp add: fence_call_def)

lemma fence_calls_result:
  assumes "foldE (fence_call mint) calls \<lparr>fs_previous = [], fs_fences = []\<rparr> = Inr st"
  shows "map_of (fs_previous st) r = last_access calls r" "fence_key ` set (fs_fences st) = hazard_keys calls"
    "\<forall>c \<in> set calls. \<forall>r. touches r c \<longrightarrow> one_space r c"
  using assms
proof (induction calls arbitrary: st r rule: rev_induct)
  case Nil
  { case 1 then show ?case by (auto simp: last_access_def)
  next case 2 then show ?case by (auto simp: hazard_keys_def hazard_def)
  next case 3 then show ?case by simp }
next
  case (snoc c calls)
  { case 1
    then obtain st0 where st0: "foldE (fence_call mint) calls \<lparr>fs_previous = [], fs_fences = []\<rparr> = Inr st0"
      "foldE (fence_resource mint c) (call_resources c) st0 = Inr st" by (auto elim: fence_calls_snoc)
    show ?case using fence_resources_result(1) [OF st0(2) distinct_call_resources] snoc(1) [OF st0(1)]
      by (simp add: last_access_snoc set_call_resources)
  next case 2
    then obtain st0 where st0: "foldE (fence_call mint) calls \<lparr>fs_previous = [], fs_fences = []\<rparr> = Inr st0"
      "foldE (fence_resource mint c) (call_resources c) st0 = Inr st" by (auto elim: fence_calls_snoc)
    show ?case using fence_resources_result(2) [OF st0(2) distinct_call_resources] snoc(1,2) [OF st0(1)]
      by (simp add: hazard_keys_snoc)
  next case 3
    then obtain st0 where st0: "foldE (fence_call mint) calls \<lparr>fs_previous = [], fs_fences = []\<rparr> = Inr st0"
      "foldE (fence_resource mint c) (call_resources c) st0 = Inr st" by (auto elim: fence_calls_snoc)
    show ?case using fence_resources_result(3) [OF st0(2) distinct_call_resources] snoc(3) [OF st0(1)]
      by (simp add: set_call_resources) }
qed


lemma fence_run:
  assumes "resource_uses_and_fences mint calls = Inr (uses, fences)"
  obtains st where "foldE (fence_call mint) calls \<lparr>fs_previous = [], fs_fences = []\<rparr> = Inr st" "fences = fs_fences st"
  using assms by (auto simp: resource_uses_and_fences_def)

text \<open>
  C13.  The fences of \<^verbatim>\<open>_resource_uses_and_fences\<close> are exactly the hazards: one for every pair of consecutive accesses to a
  resource in different memory spaces of which one writes.  Every call reaches each of its resources in one space.
\<close>

theorem fences_are_the_hazards:
  assumes "resource_uses_and_fences mint calls = Inr (uses, fences)"
  shows "fence_key ` set fences = hazard_keys calls \<and> (\<forall>c \<in> set calls. \<forall>r. touches r c \<longrightarrow> one_space r c)"
proof -
  obtain st where st: "foldE (fence_call mint) calls \<lparr>fs_previous = [], fs_fences = []\<rparr> = Inr st" "fences = fs_fences st"
    using assms by (rule fence_run)
  show ?thesis using fence_calls_result(2,3) [OF st(1)] st(2) by simp
qed


definition sample_call :: "nat \<Rightarrow> field_access list \<Rightarrow> field_access list \<Rightarrow> runtime_call" where
  "sample_call n reads writes =
     \<lparr>rc_identity = plan_identity (replicate n CHR ''c''), rc_ordinal = int n, rc_block = ascii ''b'', rc_component = ascii ''k'', rc_component_type = ascii ''t'',
      rc_manifest = plan_identity ''m'', rc_layout = ascii ''l'', rc_entry = ascii ''e'', rc_reads = reads, rc_writes = writes,
      rc_requirements = [], rc_effects = [], rc_clocks = []\<rparr>"

definition hazard_calls :: "runtime_call list" where
  "hazard_calls =
     [sample_call 0 [] [\<lparr>fa_resource = ascii ''u'', fa_mode = write_mode, fa_space = ascii ''A''\<rparr>],
      sample_call 1 [\<lparr>fa_resource = ascii ''u'', fa_mode = read_mode, fa_space = ascii ''B''\<rparr>] []]"

theorem fences_are_the_hazards_witness:
  "\<exists>uses fences. resource_uses_and_fences (\<lambda>_. Inr (plan_identity ''f'')) hazard_calls = Inr (uses, fences)
     \<and> fence_key ` set fences = hazard_keys hazard_calls \<and> length fences = 1"
proof -
  have "\<exists>uses fences. resource_uses_and_fences (\<lambda>_. Inr (plan_identity ''f'')) hazard_calls = Inr (uses, fences) \<and> length fences = 1"
    by (simp add: resource_uses_and_fences_def hazard_calls_def sample_call_def fence_call_def call_resources_def call_accesses_def
      fence_resource_def access_mode_def note_uses_def note_use_def mk_resource_use_def use_of_def check_index_def check_strings_def
      mk_fence_def rc_token_def token_def plan_identity_def hexdigest_def algorithm_name_def decimal.simps
      read_mode_def write_mode_def text_eval Let_def)
  then show ?thesis using fences_are_the_hazards by blast
qed

definition hidden_write_calls :: "runtime_call list" where
  "hidden_write_calls =
     [sample_call 0 [] [\<lparr>fa_resource = ascii ''u'', fa_mode = write_mode, fa_space = ascii ''A''\<rparr>],
      sample_call 1 [\<lparr>fa_resource = ascii ''u'', fa_mode = read_mode, fa_space = ascii ''A''\<rparr>] [],
      sample_call 2 [\<lparr>fa_resource = ascii ''u'', fa_mode = read_mode, fa_space = ascii ''B''\<rparr>] []]"

lemma hidden_write_uses:
  "resource_uses_and_fences mint hidden_write_calls =
     Inr ([\<lparr>ru_resource = ascii ''u'', ru_space = ascii ''A'', ru_first = 0, ru_last = 1, ru_modes = [read_mode, write_mode]\<rparr>,
           \<lparr>ru_resource = ascii ''u'', ru_space = ascii ''B'', ru_first = 2, ru_last = 2, ru_modes = [read_mode]\<rparr>], [])"
proof -
  have f: "foldE (fence_call mint) hidden_write_calls \<lparr>fs_previous = [], fs_fences = []\<rparr> =
      Inr \<lparr>fs_previous = [(ascii ''u'', hidden_write_calls ! 2, ascii ''B'', read_mode)], fs_fences = []\<rparr>"
    by (simp add: hidden_write_calls_def sample_call_def fence_call_def call_resources_def call_accesses_def fence_resource_def access_mode_def
      read_mode_def write_mode_def ascii_def Let_def)
  have u: "note_uses hidden_write_calls = [((ascii ''u'', ascii ''A''), \<lparr>us_first = 0, us_last = 1, us_modes = [write_mode, read_mode]\<rparr>),
      ((ascii ''u'', ascii ''B''), \<lparr>us_first = 2, us_last = 2, us_modes = [read_mode]\<rparr>)]"
    by (simp add: hidden_write_calls_def note_uses_def note_use_def sample_call_def call_accesses_def ascii_def)
  show ?thesis
    unfolding resource_uses_and_fences_def f u
    by (simp add: mk_resource_use_def use_of_def check_text_def strip_text_def is_space_def check_index_def check_strings_def read_mode_def write_mode_def ascii_def)
qed


subsection \<open>Lifetimes\<close>

definition users :: "runtime_call list \<Rightarrow> pystr \<Rightarrow> pystr \<Rightarrow> (int \<times> field_access) set" where
  "users calls r s = {(rc_ordinal c, a) | c a. c \<in> set calls \<and> a \<in> set (call_accesses c) \<and> fa_resource a = r \<and> fa_space a = s}"

definition access_rows :: "runtime_call list \<Rightarrow> (int \<times> field_access) list" where
  "access_rows calls = concat (map (\<lambda>c. map (Pair (rc_ordinal c)) (call_accesses c)) calls)"

definition rows_at :: "runtime_call list \<Rightarrow> pystr \<times> pystr \<Rightarrow> (int \<times> field_access) list" where
  "rows_at calls key = filter (\<lambda>(n, a). (fa_resource a, fa_space a) = key) (access_rows calls)"

lemma set_rows_at: "set (rows_at calls (r, s)) = users calls r s"
  by (auto simp: rows_at_def access_rows_def users_def)

lemma note_uses_rows: "note_uses calls = foldl (\<lambda>uses (n, a). note_use n uses a) [] (access_rows calls)"
proof -
  have "foldl (note_use n) uses as = foldl (\<lambda>uses (n, a). note_use n uses a) uses (map (Pair n) as)" for n uses as
    by (induction as arbitrary: uses) auto
  then have "foldl (\<lambda>uses c. foldl (note_use (rc_ordinal c)) uses (call_accesses c)) u calls =
      foldl (\<lambda>uses (n, a). note_use n uses a) u (access_rows calls)" for u
    by (induction calls arbitrary: u) (auto simp: access_rows_def)
  then show ?thesis by (simp add: note_uses_def)
qed

lemma note_use_rows:
  fixes rows :: "(int \<times> field_access) list" and key
  defines "es \<equiv> filter (\<lambda>(n, a). (fa_resource a, fa_space a) = key) rows"
  shows "map_of (foldl (\<lambda>uses (n, a). note_use n uses a) [] rows) key =
    (if es = [] then None
     else Some \<lparr>us_first = fst (hd es), us_last = fst (last es), us_modes = map (fa_mode \<circ> snd) es\<rparr>)"
  unfolding es_def
proof (induction rows rule: rev_induct)
  case (snoc x rows)
  then show ?case by (cases x) (auto simp: note_use_def Let_def update_conv' hd_append)
qed simp

lemma distinct_note_uses: "distinct (map fst (note_uses calls))"
proof -
  have "distinct (map fst (foldl (\<lambda>uses (n, a). note_use n uses a) u rows))" if "distinct (map fst u)" for u rows
    using that by (induction rows arbitrary: u) (auto simp: note_use_def Let_def distinct_update)
  then show ?thesis by (simp add: note_uses_rows)
qed

lemma uses_result:
  assumes "resource_uses_and_fences mint calls = Inr (uses, fences)"
  shows "uses = map use_of (sort_key fst (note_uses calls))"
proof -
  have "list_all2 (\<lambda>p u. mk_resource_use (use_of p) = Inr u) (sort_key fst (note_uses calls)) uses"
    using assms by (auto simp: resource_uses_and_fences_def mapE_eq_Inr)
  then have "list_all2 (\<lambda>p u. u = use_of p) (sort_key fst (note_uses calls)) uses"
    by (rule list_all2_mono) (auto simp: mk_resource_use_def)
  then show ?thesis by (auto simp: list_all2_conv_all_nth intro: nth_equalityI)
qed

lemma uses_distinct:
  assumes "resource_uses_and_fences mint calls = Inr (uses, fences)"
  shows "distinct (map (\<lambda>u. (ru_resource u, ru_space u)) uses)"
proof -
  have "map (\<lambda>u. (ru_resource u, ru_space u)) uses = map fst (sort_key fst (note_uses calls))"
    by (simp add: uses_result [OF assms] use_of_def split_beta comp_def)
  then show ?thesis using distinct_note_uses by simp
qed

lemma in_uses_iff:
  assumes "resource_uses_and_fences mint calls = Inr (uses, fences)"
  shows "u \<in> set uses \<longleftrightarrow> (\<exists>es. rows_at calls (ru_resource u, ru_space u) = es \<and> es \<noteq> [] \<and> ru_first u = fst (hd es) \<and> ru_last u = fst (last es)
    \<and> ru_modes u = sort (remdups (map (fa_mode \<circ> snd) es)))"
proof -
  have "u \<in> set uses \<longleftrightarrow> (\<exists>k row. map_of (note_uses calls) k = Some row \<and> u = use_of (k, row))"
    using distinct_note_uses [of calls] by (auto simp: uses_result [OF assms])
  also have "\<dots> \<longleftrightarrow> (\<exists>row. map_of (note_uses calls) (ru_resource u, ru_space u) = Some row \<and> u = use_of ((ru_resource u, ru_space u), row))"
    by (auto simp: use_of_def)
  also have "\<dots> \<longleftrightarrow> (\<exists>es. rows_at calls (ru_resource u, ru_space u) = es \<and> es \<noteq> [] \<and> ru_first u = fst (hd es) \<and> ru_last u = fst (last es)
    \<and> ru_modes u = sort (remdups (map (fa_mode \<circ> snd) es)))"
    unfolding note_uses_rows note_use_rows rows_at_def [symmetric] by (cases u) (auto simp: use_of_def)
  finally show ?thesis .
qed

lemma sorted_rows_at:
  assumes "sorted (map rc_ordinal calls)"
  shows "sorted (map fst (rows_at calls key))"
proof -
  have const: "sorted (map (\<lambda>_. n) as)" for n :: int and as :: "field_access list" by (induction as) auto
  have "sorted (map fst (access_rows calls))"
    using assms by (induction calls) (auto simp: access_rows_def sorted_append comp_def const)
  then show ?thesis unfolding rows_at_def by (rule sorted_filter)
qed

lemma sorted_hd_Min: "sorted xs \<Longrightarrow> xs \<noteq> [] \<Longrightarrow> hd xs = Min (set xs)" for xs :: "int list"
  by (cases xs) (auto intro!: Min_eqI [symmetric])

lemma sorted_last_Max: "sorted xs \<Longrightarrow> xs \<noteq> [] \<Longrightarrow> last xs = Max (set xs)" for xs :: "int list"
  by (cases xs rule: rev_cases) (auto simp: sorted_append intro!: Max_eqI [symmetric])

text \<open>
  C24.  One use row for every resource and memory space that a call accesses; it runs from the first to the last ordinal of
  these calls and lists exactly the modes they use.
\<close>

theorem uses_are_the_lifetimes:
  assumes "resource_uses_and_fences mint calls = Inr (uses, fences)" "sorted (map rc_ordinal calls)"
  shows "distinct (map (\<lambda>u. (ru_resource u, ru_space u)) uses)
    \<and> (\<forall>r s. (\<exists>u \<in> set uses. ru_resource u = r \<and> ru_space u = s) \<longleftrightarrow> users calls r s \<noteq> {})
    \<and> (\<forall>u \<in> set uses. ru_first u = Min (fst ` users calls (ru_resource u) (ru_space u))
        \<and> ru_last u = Max (fst ` users calls (ru_resource u) (ru_space u))
        \<and> set (ru_modes u) = (fa_mode \<circ> snd) ` users calls (ru_resource u) (ru_space u))"
proof (intro conjI allI ballI)
  show "distinct (map (\<lambda>u. (ru_resource u, ru_space u)) uses)" using assms(1) by (rule uses_distinct)
next
  fix r s
  let ?es = "rows_at calls (r, s)"
  let ?u = "\<lparr>ru_resource = r, ru_space = s, ru_first = fst (hd ?es), ru_last = fst (last ?es),
    ru_modes = sort (remdups (map (fa_mode \<circ> snd) ?es))\<rparr>"
  have "?es \<noteq> [] \<Longrightarrow> ?u \<in> set uses" by (simp add: in_uses_iff [OF assms(1)])
  moreover have "ru_resource ?u = r \<and> ru_space ?u = s" by simp
  moreover have "?es \<noteq> []" if "u \<in> set uses" "ru_resource u = r" "ru_space u = s" for u
    using that by (simp add: in_uses_iff [OF assms(1)])
  ultimately have "(\<exists>u \<in> set uses. ru_resource u = r \<and> ru_space u = s) \<longleftrightarrow> ?es \<noteq> []" by blast
  then show "(\<exists>u \<in> set uses. ru_resource u = r \<and> ru_space u = s) \<longleftrightarrow> users calls r s \<noteq> {}"
    by (simp flip: set_rows_at)
next
  fix u assume u: "u \<in> set uses"
  let ?es = "rows_at calls (ru_resource u, ru_space u)"
  have es: "?es \<noteq> []" "ru_first u = fst (hd ?es)" "ru_last u = fst (last ?es)" "ru_modes u = sort (remdups (map (fa_mode \<circ> snd) ?es))"
    using u by (auto simp: in_uses_iff [OF assms(1)])
  have sorted: "sorted (map fst ?es)" using assms(2) by (rule sorted_rows_at)
  show "ru_first u = Min (fst ` users calls (ru_resource u) (ru_space u))"
    using sorted_hd_Min [OF sorted] es by (simp add: hd_map set_rows_at)
  show "ru_last u = Max (fst ` users calls (ru_resource u) (ru_space u))"
    using sorted_last_Max [OF sorted] es by (simp add: last_map set_rows_at)
  show "set (ru_modes u) = (fa_mode \<circ> snd) ` users calls (ru_resource u) (ru_space u)"
    using es by (simp add: set_rows_at)
qed


theorem uses_are_the_lifetimes_witness:
  "sorted (map rc_ordinal hidden_write_calls) \<and>
   fst ` users hidden_write_calls (ascii ''u'') (ascii ''A'') = {0, 1} \<and>
   (\<exists>uses. resource_uses_and_fences (\<lambda>_. Inr (plan_identity ''f'')) hidden_write_calls = Inr (uses, [])
     \<and> (\<exists>u \<in> set uses. ru_space u = ascii ''A'' \<and> ru_first u = 0 \<and> ru_last u = 1 \<and> set (ru_modes u) = {read_mode, write_mode})
     \<and> distinct (map (\<lambda>u. (ru_resource u, ru_space u)) uses))"
proof -
  have s: "sorted (map rc_ordinal hidden_write_calls)" by (simp add: hidden_write_calls_def sample_call_def)
  have u: "users hidden_write_calls (ascii ''u'') (ascii ''A'') =
      {(0, \<lparr>fa_resource = ascii ''u'', fa_mode = write_mode, fa_space = ascii ''A''\<rparr>),
       (1, \<lparr>fa_resource = ascii ''u'', fa_mode = read_mode, fa_space = ascii ''A''\<rparr>)}"
    unfolding set_rows_at [symmetric]
    by (simp add: rows_at_def access_rows_def hidden_write_calls_def sample_call_def call_accesses_def ascii_def)
  note law = uses_are_the_lifetimes [OF hidden_write_uses [of "\<lambda>_. Inr (plan_identity ''f'')"] s]
  show ?thesis using s u hidden_write_uses [of "\<lambda>_. Inr (plan_identity ''f'')"] law by auto
qed

subsection \<open>Buffers\<close>

definition lifetime :: "resource_use list \<Rightarrow> buffer_spec \<Rightarrow> int \<times> int" where
  "lifetime uses = (\<lambda>(ordinal, r, s, amount).
     case map_of (rev (map (\<lambda>u. ((ru_resource u, ru_space u), ru_first u, ru_last u)) uses)) (r, s) of
       None \<Rightarrow> (ordinal, ordinal) | Some l \<Rightarrow> l)"

definition specs_at :: "buffer_spec list \<Rightarrow> pystr \<times> pystr \<Rightarrow> buffer_spec set" where
  "specs_at specs key = {p \<in> set specs. (fst (snd p), fst (snd (snd p))) = key}"

definition spec_size :: "buffer_spec \<Rightarrow> int" where "spec_size p = snd (snd (snd p))"

lemma add_buffer_row:
  "map_of (add_buffer uses rows (n, r, s, amount)) key =
     (if key = (r, s) then Some (let (first, last') = lifetime uses (n, r, s, amount) in
        (case map_of rows key of
           None \<Rightarrow> \<lparr>br_size = amount, br_first = first, br_last = last'\<rparr>
         | Some row \<Rightarrow> \<lparr>br_size = max (br_size row) amount, br_first = min (br_first row) first, br_last = max (br_last row) last'\<rparr>))
      else map_of rows key)"
  by (auto simp: add_buffer_def lifetime_def Let_def update_conv' split: option.split prod.split)

lemma specs_at_snoc:
  "specs_at (specs @ [p]) key = (if (fst (snd p), fst (snd (snd p))) = key then insert p (specs_at specs key) else specs_at specs key)"
  by (auto simp: specs_at_def)

lemma buffer_rows:
  "map_of (foldl (add_buffer uses) [] specs) key =
    (if specs_at specs key = {} then None
     else Some \<lparr>br_size = Max (spec_size ` specs_at specs key), br_first = Min ((fst \<circ> lifetime uses) ` specs_at specs key),
       br_last = Max ((snd \<circ> lifetime uses) ` specs_at specs key)\<rparr>)"
proof (induction specs rule: rev_induct)
  case Nil
  then show ?case by (simp add: specs_at_def)
next
  case (snoc p specs)
  have fin: "finite (specs_at specs key)" by (simp add: specs_at_def)
  show ?case
  proof (cases "(fst (snd p), fst (snd (snd p))) = key")
    case False
    then show ?thesis using snoc by (cases p) (simp add: add_buffer_row specs_at_snoc)
  next
    case True
    then show ?thesis using snoc fin
      by (cases p) (auto simp: add_buffer_row specs_at_snoc spec_size_def split_beta ac_simps)
  qed
qed

lemma distinct_buffers: "distinct (map fst (foldl (add_buffer uses) [] specs))"
proof -
  have "distinct (map fst (foldl (add_buffer uses) rows specs))" if "distinct (map fst rows)" for rows
    using that by (induction specs arbitrary: rows) (auto simp: add_buffer_def Let_def distinct_update split: prod.split)
  then show ?thesis by simp
qed

lemma allocations_result:
  assumes "allocations specs uses = Inr bs"
  shows "distinct (map (\<lambda>b. (bf_resource b, bf_space b)) bs)"
    and "b \<in> set bs \<longleftrightarrow> map_of (foldl (add_buffer uses) [] specs) (bf_resource b, bf_space b) =
      Some \<lparr>br_size = bf_size b, br_first = bf_first b, br_last = bf_last b\<rparr>"
proof -
  let ?mk = "\<lambda>((resource, space), row). \<lparr>bf_resource = resource, bf_space = space, bf_size = br_size row, bf_first = br_first row, bf_last = br_last row\<rparr>"
  let ?rows = "foldl (add_buffer uses) [] specs"
  have eq: "(\<lambda>((resource, space), row). mk_buffer
      \<lparr>bf_resource = resource, bf_space = space, bf_size = br_size row, bf_first = br_first row, bf_last = br_last row\<rparr>) = mk_buffer \<circ> ?mk"
    by (rule ext) (simp add: split_beta)
  have "mapE (mk_buffer \<circ> ?mk) (sort_key fst ?rows) = Inr bs"
    using assms unfolding allocations_def eq .
  then have "list_all2 (\<lambda>p b. b = ?mk p) (sort_key fst ?rows) bs"
    unfolding mapE_eq_Inr by (rule list_all2_mono) (auto simp: mk_buffer_def)
  then have bs: "bs = map ?mk (sort_key fst ?rows)" by (auto simp: list_all2_conv_all_nth intro: nth_equalityI)
  have "map (\<lambda>b. (bf_resource b, bf_space b)) bs = map fst (sort_key fst ?rows)" by (auto simp: bs)
  then show "distinct (map (\<lambda>b. (bf_resource b, bf_space b)) bs)" using distinct_buffers by simp
  have "b \<in> set bs \<longleftrightarrow> (\<exists>k row. map_of ?rows k = Some row \<and> b = ?mk (k, row))"
    using distinct_buffers [of uses specs] by (auto simp: bs image_iff) force+
  then show "b \<in> set bs \<longleftrightarrow> map_of ?rows (bf_resource b, bf_space b) = Some \<lparr>br_size = bf_size b, br_first = bf_first b, br_last = bf_last b\<rparr>"
    by (cases b) auto
qed

lemma lifetime_of_use:
  assumes "distinct (map (\<lambda>u. (ru_resource u, ru_space u)) uses)" "u \<in> set uses"
  shows "lifetime uses (n, ru_resource u, ru_space u, amount) = (ru_first u, ru_last u)"
proof -
  let ?rows = "rev (map (\<lambda>u. ((ru_resource u, ru_space u), ru_first u, ru_last u)) uses)"
  have "distinct (map fst ?rows)" using assms(1) by (simp add: rev_map [symmetric] comp_def)
  then have "map_of ?rows (ru_resource u, ru_space u) = Some (ru_first u, ru_last u)" using assms(2) by (auto simp: image_iff)
  then show ?thesis by (simp add: lifetime_def)
qed

lemma lifetime_unused:
  assumes "\<not> (\<exists>u \<in> set uses. ru_resource u = r \<and> ru_space u = s)"
  shows "lifetime uses (n, r, s, amount) = (n, n)"
proof -
  have "map_of (rev (map (\<lambda>u. ((ru_resource u, ru_space u), ru_first u, ru_last u)) uses)) (r, s) = None"
    using assms by (auto simp: map_of_eq_None_iff)
  then show ?thesis by (simp add: lifetime_def)
qed

text \<open>
  C29.  Every requested buffer gets one allocation per resource and space: as large as the largest request and no larger,
  alive exactly as long as the resource is used, or around the requesting calls when no call accesses it.
\<close>

theorem buffers_cover_lifetimes:
  assumes "resource_uses_and_fences mint calls = Inr (uses, fences)" "allocations specs uses = Inr bs"
  shows "distinct (map (\<lambda>b. (bf_resource b, bf_space b)) bs)
    \<and> (\<forall>(n, r, s, amount) \<in> set specs. \<exists>b \<in> set bs. bf_resource b = r \<and> bf_space b = s
        \<and> amount \<le> bf_size b \<and> (\<exists>n'. (n', r, s, bf_size b) \<in> set specs)
        \<and> (if \<exists>u \<in> set uses. ru_resource u = r \<and> ru_space u = s
           then \<exists>u \<in> set uses. ru_resource u = r \<and> ru_space u = s \<and> bf_first b = ru_first u \<and> bf_last b = ru_last u
           else bf_first b \<le> n \<and> n \<le> bf_last b))"
proof (intro conjI ballI, unfold split_beta)
  show "distinct (map (\<lambda>b. (bf_resource b, bf_space b)) bs)" using assms(2) by (rule allocations_result)
next
  fix p assume p: "p \<in> set specs"
  obtain n r s amount where pp: "p = (n, r, s, amount)" by (cases p)
  let ?S = "specs_at specs (r, s)"
  have S: "finite ?S" "p \<in> ?S" using p pp by (auto simp: specs_at_def)
  have keys: "\<exists>n' amount'. q = (n', r, s, amount')" if "q \<in> ?S" for q using that by (cases q) (auto simp: specs_at_def)
  define b where "b = \<lparr>bf_resource = r, bf_space = s, bf_size = Max (spec_size ` ?S), bf_first = Min ((fst \<circ> lifetime uses) ` ?S),
    bf_last = Max ((snd \<circ> lifetime uses) ` ?S)\<rparr>"
  have b: "b \<in> set bs" unfolding allocations_result(2) [OF assms(2)] buffer_rows using S(2) by (auto simp: b_def)
  have "spec_size p \<le> bf_size b" using S by (simp add: b_def)
  then have le: "amount \<le> bf_size b" by (simp add: pp spec_size_def)
  have "Max (spec_size ` ?S) \<in> spec_size ` ?S" using S by (intro Max_in) auto
  then obtain q where q: "q \<in> ?S" "Max (spec_size ` ?S) = spec_size q" by auto
  have "q \<in> set specs" using q(1) by (simp add: specs_at_def)
  then have att: "\<exists>n'. (n', r, s, bf_size b) \<in> set specs" using keys [OF q(1)] q(2) by (auto simp: b_def spec_size_def)
  have life: "if \<exists>u \<in> set uses. ru_resource u = r \<and> ru_space u = s
      then \<exists>u \<in> set uses. ru_resource u = r \<and> ru_space u = s \<and> bf_first b = ru_first u \<and> bf_last b = ru_last u
      else bf_first b \<le> n \<and> n \<le> bf_last b"
  proof (cases "\<exists>u \<in> set uses. ru_resource u = r \<and> ru_space u = s")
    case True
    then obtain u where u: "u \<in> set uses" "ru_resource u = r" "ru_space u = s" by blast
    have "lifetime uses q = (ru_first u, ru_last u)" if "q \<in> ?S" for q
      using keys [OF that] lifetime_of_use [OF uses_distinct [OF assms(1)] u(1)] u(2,3) by auto
    then have "(fst \<circ> lifetime uses) ` ?S = {ru_first u}" "(snd \<circ> lifetime uses) ` ?S = {ru_last u}" using S(2) by (auto simp: image_iff)
    then show ?thesis using u by (auto simp: b_def)
  next
    case False
    then have "lifetime uses p = (n, n)" unfolding pp by (rule lifetime_unused)
    then have "n \<in> (fst \<circ> lifetime uses) ` ?S" "n \<in> (snd \<circ> lifetime uses) ` ?S" using S(2) by (force simp: image_iff)+
    then show ?thesis using False S(1) by (auto simp: b_def)
  qed
  show "\<exists>b \<in> set bs. bf_resource b = fst (snd p) \<and> bf_space b = fst (snd (snd p))
        \<and> snd (snd (snd p)) \<le> bf_size b \<and> (\<exists>n'. (n', fst (snd p), fst (snd (snd p)), bf_size b) \<in> set specs)
        \<and> (if \<exists>u \<in> set uses. ru_resource u = fst (snd p) \<and> ru_space u = fst (snd (snd p))
           then \<exists>u \<in> set uses. ru_resource u = fst (snd p) \<and> ru_space u = fst (snd (snd p)) \<and> bf_first b = ru_first u \<and> bf_last b = ru_last u
           else bf_first b \<le> fst p \<and> fst p \<le> bf_last b)"
    unfolding pp fst_conv snd_conv by (intro bexI [of _ b] conjI le att life b) (simp_all add: b_def)
qed

theorem buffers_cover_lifetimes_witness:
  "\<exists>uses bs. resource_uses_and_fences (\<lambda>_. Inr (plan_identity ''f'')) hidden_write_calls = Inr (uses, [])
     \<and> allocations [(0, ascii ''u'', ascii ''A'', 8), (1, ascii ''u'', ascii ''A'', 16)] uses = Inr bs
     \<and> (\<exists>b \<in> set bs. bf_space b = ascii ''A'' \<and> 16 \<le> bf_size b \<and> bf_last b = 1)"
proof -
  let ?uses = "[\<lparr>ru_resource = ascii ''u'', ru_space = ascii ''A'', ru_first = 0, ru_last = 1, ru_modes = [read_mode, write_mode]\<rparr>,
           \<lparr>ru_resource = ascii ''u'', ru_space = ascii ''B'', ru_first = 2, ru_last = 2, ru_modes = [read_mode]\<rparr>]"
  let ?specs = "[(0, ascii ''u'', ascii ''A'', 8), (1, ascii ''u'', ascii ''A'', 16)]"
  have r: "resource_uses_and_fences (\<lambda>_. Inr (plan_identity ''f'')) hidden_write_calls = Inr (?uses, [])" by (rule hidden_write_uses)
  obtain bs where bs: "allocations ?specs ?uses = Inr bs"
    by (simp add: allocations_def add_buffer_def mk_buffer_def check_positive_def check_index_def text_eval)
  have "\<exists>b \<in> set bs. bf_space b = ascii ''A'' \<and> 16 \<le> bf_size b \<and> bf_last b = 1"
    using buffers_cover_lifetimes [OF r bs] by (auto simp: ascii_def)
  then show ?thesis using r bs by blast
qed

subsection \<open>The rows of a plan\<close>

definition reads_from :: "pystr \<Rightarrow> runtime_call \<Rightarrow> bool" where
  "reads_from r c \<longleftrightarrow> r \<in> fa_resource ` set (rc_reads c)"

definition halo_justified :: "runtime_call list \<Rightarrow> halo \<Rightarrow> bool" where
  "halo_justified calls h \<longleftrightarrow> (\<exists>c \<in> set calls. ha_call h = rc_token c \<and> ha_layout h = rc_layout c \<and> reads_from (ha_resource h) c \<and> 1 \<le> ha_depth h)"

definition collective_justified :: "runtime_call list \<Rightarrow> collective \<Rightarrow> bool" where
  "collective_justified calls k \<longleftrightarrow> (\<exists>c \<in> set calls. co_call k = rc_token c \<and> touches (co_resource k) c)"

definition buffer_justified :: "pystr list \<Rightarrow> runtime_call list \<Rightarrow> buffer_spec \<Rightarrow> bool" where
  "buffer_justified spaces calls = (\<lambda>(n, r, s, amount). (\<exists>c \<in> set calls. n = rc_ordinal c) \<and> s \<in> set spaces \<and> 1 \<le> amount)"

definition join_justified :: "pystr list \<Rightarrow> runtime_call list \<Rightarrow> clock_join \<Rightarrow> bool" where
  "join_justified clocks calls j \<longleftrightarrow> (\<exists>c \<in> set calls. cj_call j = rc_token c) \<and> cj_source j \<in> set clocks \<and> cj_target j \<in> set clocks
     \<and> cj_source j \<noteq> cj_target j"

definition rows_of_call :: "pystr list \<Rightarrow> runtime_call \<Rightarrow> int \<Rightarrow> requirement_state \<Rightarrow> bool" where
  "rows_of_call spaces c sequence st \<longleftrightarrow>
     (\<forall>(r, d) \<in> set (rq_halos st). reads_from r c \<and> 1 \<le> d)
     \<and> list_all (collective_justified [c]) (rq_collectives st)
     \<and> map co_sequence (rq_collectives st) = map (\<lambda>k. sequence + int k) [0..<length (rq_collectives st)]
     \<and> rq_sequence st = sequence + int (length (rq_collectives st))
     \<and> list_all (buffer_justified spaces [c]) (rq_buffers st)"

lemma row_positive_ge: "row_positive v = Inr d \<Longrightarrow> 1 \<le> d"
  by (auto simp: row_positive_def split: frozen.splits if_splits)

lemma memory_space_in: "memory_space row spaces = Inr s \<Longrightarrow> s \<in> set spaces"
  by (auto simp: memory_space_def)

lemma set_update_subset: "set (AList.update k v al) \<subseteq> insert (k, v) (set al)"
  by (induction al) auto

lemma halo_requirement_rows:
  assumes "rows_of_call spaces c n st" "halo_requirement c v st = Inr st'"
  shows "rows_of_call spaces c n st'"
proof -
  obtain r d d0 where st': "st' = st\<lparr>rq_halos := AList.update r (max d0 d) (rq_halos st)\<rparr>" and r: "reads_from r c" "1 \<le> d"
    using assms(2) by (auto simp: halo_requirement_def Let_def reads_from_def dest: row_positive_ge)
  have "set (AList.update r (max d0 d) (rq_halos st)) \<subseteq> insert (r, max d0 d) (set (rq_halos st))"
    by (rule set_update_subset)
  then show ?thesis using assms(1) r unfolding st' rows_of_call_def by fastforce
qed

lemma collective_requirement_rows:
  assumes "rows_of_call spaces c n st" "collective_requirement mint communicator c v st = Inr st'"
  shows "rows_of_call spaces c n st'"
proof -
  obtain k where st': "st' = st\<lparr>rq_collectives := rq_collectives st @ [k], rq_sequence := rq_sequence st + 1\<rparr>"
    and k: "collective_justified [c] k" "co_sequence k = rq_sequence st"
    using assms(2) by (auto simp: collective_requirement_def mk_collective_def collective_justified_def touches_def)
  show ?thesis using assms(1) k unfolding st' rows_of_call_def by simp
qed

lemma buffer_requirement_rows:
  assumes "rows_of_call spaces c n st" "buffer_requirement spaces c v st = Inr st'"
  shows "rows_of_call spaces c n st'"
proof -
  obtain r s amount where st': "st' = st\<lparr>rq_buffers := rq_buffers st @ [(rc_ordinal c, r, s, amount)]\<rparr>" and p: "s \<in> set spaces" "1 \<le> amount"
    using assms(2) by (auto simp: buffer_requirement_def dest: row_positive_ge memory_space_in)
  show ?thesis using assms(1) p unfolding st' rows_of_call_def by (simp add: buffer_justified_def)
qed

lemma requirement_rows_justified:
  assumes "requirement_rows mint spaces communicator c n = Inr (halos, collectives, buffers, n')"
  shows "list_all (halo_justified [c]) halos" "list_all (collective_justified [c]) collectives"
    "map co_sequence collectives = map (\<lambda>k. n + int k) [0..<length collectives]" "n' = n + int (length collectives)"
    "list_all (buffer_justified spaces [c]) buffers"
proof -
  obtain st where st: "foldE (add_requirement mint spaces communicator c) (rc_requirements c)
       \<lparr>rq_halos = [], rq_collectives = [], rq_buffers = [], rq_sequence = n\<rparr> = Inr st"
    and halos: "mapE (\<lambda>(resource, depth). mk_halo mint
         \<lparr>ha_identity = rc_identity c, ha_call = rc_token c, ha_resource = resource, ha_layout = rc_layout c,
          ha_depth = depth\<rparr>) (sort_key fst (rq_halos st)) = Inr halos"
    and rest: "collectives = rq_collectives st" "buffers = rq_buffers st" "n' = rq_sequence st"
    using assms by (auto simp: requirement_rows_def)
  have rows: "rows_of_call spaces c n st"
  proof (rule foldE_invariant [OF st])
    show "rows_of_call spaces c n \<lparr>rq_halos = [], rq_collectives = [], rq_buffers = [], rq_sequence = n\<rparr>" by (simp add: rows_of_call_def)
  next
    fix v st st' assume "rows_of_call spaces c n st" "add_requirement mint spaces communicator c st v = Inr st'"
    then show "rows_of_call spaces c n st'"
      by (auto simp: add_requirement_def intro: halo_requirement_rows collective_requirement_rows buffer_requirement_rows split: if_splits)
  qed
  show "list_all (collective_justified [c]) collectives" "n' = n + int (length collectives)"
    "map co_sequence collectives = map (\<lambda>k. n + int k) [0..<length collectives]"
    "list_all (buffer_justified spaces [c]) buffers"
    using rows rest by (auto simp: rows_of_call_def)
  have "halo_justified [c] h" if h: "h \<in> set halos" for h
  proof -
    obtain r d where "(r, d) \<in> set (rq_halos st)" "mk_halo mint \<lparr>ha_identity = rc_identity c, ha_call = rc_token c, ha_resource = r,
        ha_layout = rc_layout c, ha_depth = d\<rparr> = Inr h"
      using list_all2_in_right [OF halos [unfolded mapE_eq_Inr] h] by auto
    then show ?thesis using rows by (auto simp: halo_justified_def mk_halo_def rows_of_call_def)
  qed
  then show "list_all (halo_justified [c]) halos" by (simp add: list_all_iff)
qed

lemma mk_clock_join_fields:
  "mk_clock_join mint j = Inr j' \<Longrightarrow> cj_call j' = cj_call j \<and> cj_source j' = cj_source j \<and> cj_target j' = cj_target j \<and> cj_source j \<noteq> cj_target j"
  by (auto simp: mk_clock_join_def)

lemma add_clock_row_cases:
  assumes "add_clock_row mint c (clocks, joins) v = Inr s'"
  obtains k where "s' = (clocks @ [k], joins)"
  | k t j where "s' = (clocks @ [k, t], joins @ [j])" "cj_call j = rc_token c" "cj_source j = k" "cj_target j = t" "k \<noteq> t"
proof -
  have "(\<exists>k. s' = (clocks @ [k], joins)) \<or>
      (\<exists>k t j. s' = (clocks @ [k, t], joins @ [j]) \<and> cj_call j = rc_token c \<and> cj_source j = k \<and> cj_target j = t \<and> k \<noteq> t)"
    using assms unfolding add_clock_row_def prod.case bindE_eq_Inr
    apply (elim exE conjE)
    apply (split if_split_asm)
     apply (unfold bindE_eq_Inr)
     apply (elim exE conjE)
     apply (drule mk_clock_join_fields)
     apply (rule disjI2)
     apply simp
     apply blast
    apply (split if_split_asm, simp)+
    apply simp
    apply blast
    done
  then show thesis using that by blast
qed

lemma clock_rows_justified:
  assumes "clock_rows mint c = Inr (clocks, joins)"
  shows "list_all (join_justified clocks [c]) joins"
proof -
  have "list_all (join_justified (fst (clocks, joins)) [c]) (snd (clocks, joins))"
  proof (rule foldE_invariant [OF assms [unfolded clock_rows_def], where P = "\<lambda>p. list_all (join_justified (fst p) [c]) (snd p)"])
    fix v s s' assume inv: "list_all (join_justified (fst s) [c]) (snd s)" and step: "add_clock_row mint c s v = Inr s'"
    obtain ks js where s: "s = (ks, js)" by (rule prod.exhaust)
    have mono: "list_all (join_justified (ks @ more) [c]) js" for more
      using inv by (auto simp: s list_all_iff join_justified_def)
    show "list_all (join_justified (fst s') [c]) (snd s')"
      using step unfolding s by (cases rule: add_clock_row_cases) (use mono in \<open>auto simp: join_justified_def\<close>)
  qed simp
  then show ?thesis by simp
qed

definition plan_rows :: "pystr list \<Rightarrow> build_state \<Rightarrow> bool" where
  "plan_rows spaces st \<longleftrightarrow>
     map rc_ordinal (bs_calls st) = map int [0..<length (bs_calls st)]
     \<and> map co_sequence (bs_collectives st) = map int [0..<length (bs_collectives st)]
     \<and> bs_sequence st = int (length (bs_collectives st))
     \<and> list_all (halo_justified (bs_calls st)) (bs_halos st)
     \<and> list_all (collective_justified (bs_calls st)) (bs_collectives st)
     \<and> list_all (buffer_justified spaces (bs_calls st)) (bs_buffers st)
     \<and> list_all (join_justified (bs_clocks st) (bs_calls st)) (bs_joins st)"

lemma justified_append:
  "halo_justified xs h \<or> halo_justified ys h \<Longrightarrow> halo_justified (xs @ ys) h"
  "collective_justified xs k \<or> collective_justified ys k \<Longrightarrow> collective_justified (xs @ ys) k"
  "buffer_justified sp xs p \<or> buffer_justified sp ys p \<Longrightarrow> buffer_justified sp (xs @ ys) p"
  "join_justified cs xs j \<or> join_justified ds ys j \<Longrightarrow> join_justified (cs @ ds) (xs @ ys) j"
  by (auto simp: halo_justified_def collective_justified_def buffer_justified_def join_justified_def)

lemma upt_int_append: "map (\<lambda>k. int n + int k) [0..<m] = map int [n..<n + m]"
  by (auto intro: nth_equalityI)

lemma build_call_ordinal: "build_call mint ip layouts n name m = Inr c \<Longrightarrow> rc_ordinal c = int n"
  by (auto simp: build_call_def mk_runtime_call_def)

lemma build_step_cases:
  assumes "build_step mint target ip layouts st (name, m) = Inr st'"
  obtains c halos collectives buffers n' clocks joins
    where "build_call mint ip layouts (length (bs_calls st)) name m = Inr c"
      and "requirement_rows mint (ip_spaces ip) (pf_communicator (ip_facts ip)) c (bs_sequence st) = Inr (halos, collectives, buffers, n')"
      and "clock_rows mint c = Inr (clocks, joins)"
      and "st' = \<lparr>bs_calls = bs_calls st @ [c], bs_halos = bs_halos st @ halos, bs_collectives = bs_collectives st @ collectives,
       bs_buffers = bs_buffers st @ buffers, bs_joins = bs_joins st @ joins, bs_clocks = bs_clocks st @ clocks,
       bs_declared = bs_declared st @ map (declared_row (rc_block c) m) (rc_requirements c), bs_sequence = n'\<rparr>"
  using assms
  by (simp only: build_step_def prod.case bindE_eq_Inr split_paired_Ex sum.inject)
    (elim exE conjE, rule that, (assumption | erule sym)+)

lemma build_step_rows:
  assumes "plan_rows (ip_spaces ip) st" "build_step mint target ip layouts st (name, m) = Inr st'"
  shows "plan_rows (ip_spaces ip) st'"
proof -
  obtain c halos collectives buffers n' clocks joins
    where c: "build_call mint ip layouts (length (bs_calls st)) name m = Inr c"
      and r: "requirement_rows mint (ip_spaces ip) (pf_communicator (ip_facts ip)) c (bs_sequence st) = Inr (halos, collectives, buffers, n')"
      and k: "clock_rows mint c = Inr (clocks, joins)"
      and st': "st' = \<lparr>bs_calls = bs_calls st @ [c], bs_halos = bs_halos st @ halos, bs_collectives = bs_collectives st @ collectives,
       bs_buffers = bs_buffers st @ buffers, bs_joins = bs_joins st @ joins, bs_clocks = bs_clocks st @ clocks,
       bs_declared = bs_declared st @ map (declared_row (rc_block c) m) (rc_requirements c), bs_sequence = n'\<rparr>"
    using assms(2) by (rule build_step_cases)
  note rows = requirement_rows_justified [OF r]
  have inv: "map rc_ordinal (bs_calls st) = map int [0..<length (bs_calls st)]"
    "map co_sequence (bs_collectives st) = map int [0..<length (bs_collectives st)]"
    "bs_sequence st = int (length (bs_collectives st))" "list_all (halo_justified (bs_calls st)) (bs_halos st)"
    "list_all (collective_justified (bs_calls st)) (bs_collectives st)"
    "list_all (buffer_justified (ip_spaces ip) (bs_calls st)) (bs_buffers st)"
    "list_all (join_justified (bs_clocks st) (bs_calls st)) (bs_joins st)"
    using assms(1) by (simp_all add: plan_rows_def)
  have "map co_sequence collectives = map int [length (bs_collectives st)..<length (bs_collectives st) + length collectives]"
    using rows(3) unfolding inv(3) upt_int_append .
  then have "map co_sequence (bs_collectives st @ collectives) = map int [0..<length (bs_collectives st @ collectives)]"
    unfolding map_append inv(2) length_append upt_add_eq_append [OF le0] by simp
  moreover have "map rc_ordinal (bs_calls st @ [c]) = map int [0..<length (bs_calls st @ [c])]"
    using inv(1) build_call_ordinal [OF c] by simp
  moreover have "list_all (halo_justified (bs_calls st @ [c])) (bs_halos st @ halos)"
    using inv(4) rows(1) by (auto simp: list_all_iff intro!: justified_append(1))
  moreover have "list_all (collective_justified (bs_calls st @ [c])) (bs_collectives st @ collectives)"
    using inv(5) rows(2) by (auto simp: list_all_iff intro!: justified_append(2))
  moreover have "list_all (buffer_justified (ip_spaces ip) (bs_calls st @ [c])) (bs_buffers st @ buffers)"
    unfolding list_all_iff set_append using inv(6) rows(5) by (metis UnE justified_append(3) list_all_iff)
  moreover have "list_all (join_justified (bs_clocks st @ clocks) (bs_calls st @ [c])) (bs_joins st @ joins)"
    using inv(7) clock_rows_justified [OF k] by (auto simp: list_all_iff intro!: justified_append(4))
  moreover have "n' = int (length (bs_collectives st @ collectives))" using rows(4) inv(3) by simp
  ultimately show ?thesis unfolding plan_rows_def st' build_state.select_convs by blast
qed

abbreviation empty_build :: build_state where
  "empty_build \<equiv> \<lparr>bs_calls = [], bs_halos = [], bs_collectives = [], bs_buffers = [], bs_joins = [], bs_clocks = [], bs_declared = [],
     bs_sequence = 0\<rparr>"

lemma build_fold_rows:
  assumes "foldE (build_step mint target ip layouts) manifests empty_build = Inr st"
  shows "plan_rows (ip_spaces ip) st" "length (bs_calls st) = length manifests"
proof -
  show "plan_rows (ip_spaces ip) st"
    by (rule foldE_invariant [OF assms]) (simp add: plan_rows_def, metis build_step_rows surj_pair)
  have "length (bs_calls st) = length (bs_calls s0) + length manifests"
    if "foldE (build_step mint target ip layouts) manifests s0 = Inr st" for s0
    using that
  proof (induction manifests arbitrary: s0)
    case (Cons p ms)
    obtain name m where p: "p = (name, m)" by (rule prod.exhaust)
    obtain s1 where s1: "build_step mint target ip layouts s0 (name, m) = Inr s1"
      "foldE (build_step mint target ip layouts) ms s1 = Inr st" using Cons.prems p by auto
    have "length (bs_calls s1) = Suc (length (bs_calls s0))" using s1(1) by (rule build_step_cases) simp
    then show ?case using Cons.IH [OF s1(2)] by simp
  qed simp
  from this [OF assms] show "length (bs_calls st) = length manifests" by simp
qed

lemma build_runtime_plans_cases:
  assumes "build_runtime_plans mint identity_frozen target ip component_manifests = Inr b"
  obtains manifests layouts st transfers uses fences communication buffers resources guarantee where
    "component_map ip component_manifests = Inr manifests"
    "foldE (build_step mint target ip layouts) manifests empty_build = Inr st"
    "require_connected_clocks (bs_clocks st) (bs_joins st) = Inr ()"
    "resource_uses_and_fences mint (bs_calls st) = Inr (uses, fences)"
    "mk_communication_plan mint \<lparr>pc_identity = ip_bind ip, pc_layout = ip_layout_plan ip,
       pc_communicator = pf_communicator (ip_facts ip), pc_halos = bs_halos st, pc_transfers = transfers,
       pc_collectives = bs_collectives st, pc_fences = fences, pc_joins = bs_joins st\<rparr> = Inr communication"
    "allocations (bs_buffers st) uses = Inr buffers"
    "mk_resource_plan mint \<lparr>rpl_identity = ip_bind ip, rpl_layout = ip_layout_plan ip, rpl_context = cx_identity (ip_context ip),
       rpl_spaces = ip_spaces ip, rpl_uses = uses, rpl_buffers = buffers,
       rpl_providers = sort (remdups (map tr_provider (ip_mappings ip))), rpl_fence_ids = map fe_token fences,
       rpl_declared = bs_declared st\<rparr> = Inr resources"
    "determinism mint identity_frozen (bs_calls st) manifests (ip_context ip) communication = Inr guarantee"
    "mk_runtime_plan mint \<lparr>rt_identity = ip_bind ip, rt_install = ip_bind ip, rt_platform = ip_platform ip,
       rt_context = cx_identity (ip_context ip), rt_layout = ip_layout_plan ip, rt_calls = bs_calls st,
       rt_communication = communication, rt_resources = resources, rt_determinism = guarantee\<rparr> = Inr b"
  using assms
  by (simp only: build_runtime_plans_def prod.case bindE_eq_Inr split_paired_Ex unit_all_eq1)
    (elim exE conjE, rule that, assumption+, simp, assumption+)

lemma component_map_length: "component_map ip ms = Inr manifests \<Longrightarrow> length manifests = length (ip_blocks ip)"
  by (auto simp: component_map_def dest: mapE_Inr_length)

lemma mk_communication_fields:
  "mk_communication_plan mint p = Inr q \<Longrightarrow> pc_halos q = pc_halos p \<and> pc_collectives q = pc_collectives p
     \<and> pc_fences q = pc_fences p \<and> pc_joins q = pc_joins p"
  by (auto simp: mk_communication_plan_def)

lemma mk_runtime_plan_authentic:
  assumes "mk_runtime_plan mint p = Inr b"
  shows "b = p\<lparr>rt_identity := rt_identity b\<rparr>" "mint (bundle_payload b) = Inr (rt_identity b)"
  using assms by (auto simp: mk_runtime_plan_def bundle_payload_def)

text \<open>
  C2.  A plan that \<^verbatim>\<open>build_runtime_plans\<close> returns numbers one call per block; each halo exchange belongs to a call that reads the
  resource, with a positive depth on the layout of the call; each collective belongs to a call that accesses the
  resource, in one contiguous sequence; the fences are exactly the hazards of the calls; and
  \<^verbatim>\<open>require_runtime_plan_bundle\<close> accepts the plan for the same install plan.
\<close>

theorem built_plan_rows:
  assumes "build_runtime_plans mint identity_frozen target ip component_manifests = Inr b"
  shows "map rc_ordinal (rt_calls b) = map int [0..<length (ip_blocks ip)]
    \<and> list_all (halo_justified (rt_calls b)) (pc_halos (rt_communication b))
    \<and> list_all (collective_justified (rt_calls b)) (pc_collectives (rt_communication b))
    \<and> map co_sequence (pc_collectives (rt_communication b)) = map int [0..<length (pc_collectives (rt_communication b))]
    \<and> fence_key ` set (pc_fences (rt_communication b)) = hazard_keys (rt_calls b)
    \<and> require_runtime_plan_bundle mint ip b = Inr b"
  using assms
proof (rule build_runtime_plans_cases)
  fix manifests layouts st transfers uses fences communication buffers resources guarantee
  assume m: "component_map ip component_manifests = Inr manifests"
    and f: "foldE (build_step mint target ip layouts) manifests empty_build = Inr st"
    and u: "resource_uses_and_fences mint (bs_calls st) = Inr (uses, fences)"
    and c: "mk_communication_plan mint \<lparr>pc_identity = ip_bind ip, pc_layout = ip_layout_plan ip,
       pc_communicator = pf_communicator (ip_facts ip), pc_halos = bs_halos st, pc_transfers = transfers,
       pc_collectives = bs_collectives st, pc_fences = fences, pc_joins = bs_joins st\<rparr> = Inr communication"
    and b: "mk_runtime_plan mint \<lparr>rt_identity = ip_bind ip, rt_install = ip_bind ip, rt_platform = ip_platform ip,
       rt_context = cx_identity (ip_context ip), rt_layout = ip_layout_plan ip, rt_calls = bs_calls st,
       rt_communication = communication, rt_resources = resources, rt_determinism = guarantee\<rparr> = Inr b"
  note bf = mk_runtime_plan_authentic [OF b]
  have fields: "rt_calls b = bs_calls st" "rt_communication b = communication" "rt_install b = ip_bind ip" "rt_platform b = ip_platform ip"
    "rt_context b = cx_identity (ip_context ip)" "rt_layout b = ip_layout_plan ip"
    by (subst bf(1), simp)+
  have "require_runtime_plan_bundle mint ip b = Inr b"
    by (simp add: require_runtime_plan_bundle_def bf(2) fields)
  moreover have "length (bs_calls st) = length (ip_blocks ip)" using build_fold_rows(2) [OF f] component_map_length [OF m] by simp
  moreover have "fence_key ` set fences = hazard_keys (bs_calls st)" using fence_run [OF u] fence_calls_result(2) by metis
  ultimately show ?thesis
    using build_fold_rows(1) [OF f] mk_communication_fields [OF c] unfolding fields plan_rows_def by simp
qed

lemma max_class_result:
  assumes "max_class cs = Inr m"
  shows "m \<in> set cs \<and> (\<forall>c \<in> set cs. class_order c \<le> class_order m)"
proof -
  have "foldl (\<lambda>m x. if class_order m < class_order x then x else m) c0 xs \<in> insert c0 (set xs)
     \<and> (\<forall>c \<in> insert c0 (set xs). class_order c \<le> class_order (foldl (\<lambda>m x. if class_order m < class_order x then x else m) c0 xs))" for c0 xs
    by (induction xs arbitrary: c0) (auto, force+)
  then show ?thesis using assms by (cases cs) auto
qed

subsection \<open>Determinism\<close>

theorem guarantee_is_the_weakest:
  assumes "determinism mint identity_frozen calls manifests cx p = Inr g"
  shows "(\<exists>q \<in> set manifests. cf_class (snd q) = Some (dg_class g))
    \<and> (\<forall>q \<in> set manifests. \<exists>c. cf_class (snd q) = Some c \<and> class_order c \<le> class_order (dg_class g))
    \<and> set (dg_scope g) = (\<Union>q \<in> set manifests. set (cf_scope (snd q)))
    \<and> fst ` set (dg_assumptions g) = set (dg_scope g) \<union> (if dg_class g = Bitwise
        then set (map ascii [''rank_count'', ''device'', ''reduction_order'', ''reduction_strategy'']) else {})
    \<and> (\<forall>(name, v) \<in> set (dg_assumptions g). assumption cx p name = Inr v)"
proof -
  obtain classes classification assumptions evidence where
    cl: "mapE (\<lambda>q. case cf_class (snd q) of None \<Rightarrow> Inl (ValueError ''unspecified_component_determinism'') | Some c \<Rightarrow> Inr c) manifests = Inr classes"
    and mx: "max_class classes = Inr classification"
    and as: "mapE (\<lambda>name. bindE (assumption cx p name) (\<lambda>v. Inr (name, v)))
       (sort (remdups (if classification = Bitwise
           then sort (remdups (concat (map (\<lambda>q. cf_scope (snd q)) manifests))) @ map ascii [''rank_count'', ''device'', ''reduction_order'', ''reduction_strategy'']
           else sort (remdups (concat (map (\<lambda>q. cf_scope (snd q)) manifests)))))) = Inr assumptions"
    and g: "mk_determinism mint \<lparr>dg_identity = cx_identity cx, dg_class = classification,
       dg_scope = sort (remdups (concat (map (\<lambda>q. cf_scope (snd q)) manifests))),
       dg_assumptions = assumptions, dg_evidence = fold (\<lambda>(block, row). AList.update block row) evidence [], dg_context = cx_identity cx\<rparr> = Inr g"
    using assms by (simp only: determinism_def Let_def bindE_eq_Inr) blast
  have gf: "dg_class g = classification" "dg_scope g = sort (remdups (concat (map (\<lambda>q. cf_scope (snd q)) manifests)))" "dg_assumptions g = assumptions"
    using g by (auto simp: mk_determinism_def)
  have cl2: "list_all2 (\<lambda>q c. cf_class (snd q) = Some c) manifests classes"
    using cl unfolding mapE_eq_Inr by (rule list_all2_mono) (auto split: option.splits)
  note mx' = max_class_result [OF mx]
  have "\<exists>q \<in> set manifests. cf_class (snd q) = Some classification"
    using list_all2_in_right [OF cl2] mx' by blast
  moreover have "\<exists>c. cf_class (snd q) = Some c \<and> class_order c \<le> class_order classification" if "q \<in> set manifests" for q
    using list_all2_in_left [OF cl2 that] mx' by blast
  moreover
  {
    fix names rows assume "mapE (\<lambda>name. bindE (assumption cx p name) (\<lambda>v. Inr (name, v))) names = Inr rows"
    then have "fst ` set rows = set names \<and> (\<forall>(name, v) \<in> set rows. assumption cx p name = Inr v)"
      unfolding mapE_eq_Inr by (induction rule: list_all2_induct) auto
  }
  note rows = this [OF as]
  ultimately show ?thesis unfolding gf using rows by auto
qed

subsection \<open>A plan that is built\<close>

definition plan_manifest :: component_manifest where
  "plan_manifest =
     \<lparr>cf_component = ascii ''k'', cf_type = ascii ''t'', cf_digest = plan_identity ''component-semantics'', cf_entry_points = [(ascii ''e'', ascii ''p'')],
      cf_reads = [VMap [(KText (ascii ''resource''), VText (ascii ''u''))]], cf_writes = [],
      cf_requirements = [VMap [(KText (ascii ''capability''), VText (ascii ''halo'')), (KText (ascii ''depth''), VInt 2)]],
      cf_effects = [], cf_clocks = [VMap [(KText (ascii ''clock''), VText (ascii ''c'')), (KText (ascii ''access''), VText (ascii ''read''))]],
      cf_class = Some Bitwise, cf_scope = [ascii ''device''], cf_inputs = [ascii ''f''], cf_outputs = [], cf_accumulation = ascii ''f''\<rparr>"

definition plan_install :: install_plan where
  "plan_install =
     \<lparr>ip_blocks = [ascii ''b''],
      ip_assignments = [\<lparr>la_kind = ascii ''block'', la_local = ascii ''b'', la_subject = ascii ''s'', la_layout = ascii ''l''\<rparr>],
      ip_layout_plan = ascii ''l'', ip_mappings = [], ip_bind = plan_identity ''bind'', ip_platform = plan_identity ''platform-manifest'',
      ip_context = \<lparr>cx_identity = plan_identity ''execution-context'', cx_device = ascii ''d'', cx_communicator = ascii ''serial'', cx_world = Inr 1, cx_capabilities = []\<rparr>,
      ip_spaces = [ascii ''h''], ip_facts = \<lparr>pf_compute = ascii ''f'', pf_storage = ascii ''f'', pf_accumulation = ascii ''f'', pf_communicator = ascii ''serial''\<rparr>\<rparr>"

definition sample_mint :: "plan_payload \<Rightarrow> identity result" where
  "sample_mint p = Inr (plan_identity ''m'')"

lemma sample_map: "component_map plan_install [(ascii ''b'', plan_manifest)] = Inr [(ascii ''b'', plan_manifest)]"
  by (simp add: component_map_def plan_install_def)

lemma sample_layouts: "block_layouts plan_install = Inr [(ascii ''b'', ascii ''s'', ascii ''l'')]"
  by (simp add: block_layouts_def add_block_layout_def plan_install_def)

definition sample_runtime_call :: runtime_call where
  "sample_runtime_call =
     \<lparr>rc_identity = plan_identity ''m'', rc_ordinal = 0, rc_block = ascii ''s'', rc_component = ascii ''k'', rc_component_type = ascii ''t'',
      rc_manifest = plan_identity ''component-semantics'', rc_layout = ascii ''l'', rc_entry = ascii ''p'',
      rc_reads = [\<lparr>fa_resource = ascii ''u'', fa_mode = read_mode, fa_space = ascii ''h''\<rparr>], rc_writes = [],
      rc_requirements = [FMap [(ascii ''capability'', FText (ascii ''halo'')), (ascii ''depth'', FInt 2)]],
      rc_effects = [], rc_clocks = [FMap [(ascii ''clock'', FText (ascii ''c'')), (ascii ''access'', FText (ascii ''read''))]]\<rparr>"

lemma sample_call_built:
  "build_call sample_mint plan_install [(ascii ''b'', ascii ''s'', ascii ''l'')] 0 (ascii ''b'') plan_manifest = Inr sample_runtime_call"
  by (simp add: build_call_def plan_install_def plan_manifest_def entry_point_def accesses_def access_of_def plain_key_def exact_row_def
    row_get_def row_text_def memory_space_def mk_field_access_def mk_runtime_call_def check_index_def check_identity_def plan_identity_def sample_mint_def
    sample_runtime_call_def read_mode_def write_mode_def text_eval)

lemma plan_token: "rc_token sample_runtime_call = ascii ''pops.m.v1:sha256:''"
  by (simp add: rc_token_def sample_runtime_call_def token_def plan_identity_def hexdigest_def algorithm_name_def ascii_def decimal.simps)

lemma sample_requirements:
  "requirement_rows sample_mint [ascii ''h''] (ascii ''serial'') sample_runtime_call 0 =
     Inr ([\<lparr>ha_identity = plan_identity ''m'', ha_call = rc_token sample_runtime_call, ha_resource = ascii ''u'', ha_layout = ascii ''l'', ha_depth = 2\<rparr>], [], [], 0)"
  unfolding requirement_rows_def plan_token
  by (simp add: sample_runtime_call_def add_requirement_def exact_row_def row_get_def row_text_def halo_requirement_def
    row_positive_def mk_halo_def check_positive_def sample_mint_def text_eval)

lemma sample_clocks: "clock_rows sample_mint sample_runtime_call = Inr ([ascii ''c''], [])"
  by (simp add: clock_rows_def sample_runtime_call_def add_clock_row_def exact_row_def row_get_def row_text_def text_eval)

lemma sample_platform: "validate_component_platform (\<lambda>_. Inr ()) (ip_facts plan_install) plan_manifest = Inr ()"
  by (simp add: validate_component_platform_def plan_install_def plan_manifest_def)

lemma sample_fences:
  "resource_uses_and_fences sample_mint [sample_runtime_call] =
     Inr ([\<lparr>ru_resource = ascii ''u'', ru_space = ascii ''h'', ru_first = 0, ru_last = 0, ru_modes = [read_mode]\<rparr>], [])"
  by (simp add: resource_uses_and_fences_def sample_runtime_call_def fence_call_def call_resources_def call_accesses_def fence_resource_def
    note_uses_def note_use_def mk_resource_use_def use_of_def check_index_def check_strings_def read_mode_def write_mode_def text_eval Let_def)

lemma sample_fold:
  "\<exists>st. foldE (build_step sample_mint (\<lambda>_. Inr ()) plan_install [(ascii ''b'', ascii ''s'', ascii ''l'')]) [(ascii ''b'', plan_manifest)] empty_build = Inr st
     \<and> bs_calls st = [sample_runtime_call] \<and> bs_collectives st = [] \<and> bs_clocks st = [ascii ''c''] \<and> bs_joins st = [] \<and> bs_buffers st = []"
proof -
  have "ip_spaces plan_install = [ascii ''h'']" "pf_communicator (ip_facts plan_install) = ascii ''serial''" by (simp_all add: plan_install_def)
  then show ?thesis by (simp add: build_step_def sample_platform sample_call_built sample_requirements sample_clocks)
qed

lemma sample_determinism:
  assumes "pc_collectives p = []"
  shows "\<exists>g. determinism sample_mint (\<lambda>_. FNone) [sample_runtime_call] [(ascii ''b'', plan_manifest)] (ip_context plan_install) p = Inr g
     \<and> dg_context g = plan_identity ''execution-context'' \<and> dg_class g = Bitwise"
  using assms
  by (simp add: determinism_def sample_runtime_call_def plan_manifest_def plan_install_def assumption_def call_evidence_def
    mk_determinism_def check_strings_def check_identity_def plan_identity_def sample_mint_def text_eval)

lemma sample_built:
  "is_ok (build_runtime_plans sample_mint (\<lambda>_. FNone) (\<lambda>_. Inr ()) plan_install [(ascii ''b'', plan_manifest)])"
proof -
  obtain st where st: "foldE (build_step sample_mint (\<lambda>_. Inr ()) plan_install [(ascii ''b'', ascii ''s'', ascii ''l'')]) [(ascii ''b'', plan_manifest)] empty_build = Inr st"
    "bs_calls st = [sample_runtime_call]" "bs_collectives st = []" "bs_clocks st = [ascii ''c'']" "bs_joins st = []" "bs_buffers st = []"
    using sample_fold by blast
  note rows = build_fold_rows(1) [OF st(1)]
  have halos: "set (map ha_call (bs_halos st)) \<subseteq> {rc_token sample_runtime_call}"
    using rows st(2) by (auto simp: plan_rows_def list_all_iff halo_justified_def)
  define comm where "comm = \<lparr>pc_identity = plan_identity ''m'', pc_layout = ip_layout_plan plan_install,
       pc_communicator = pf_communicator (ip_facts plan_install), pc_halos = bs_halos st, pc_transfers = [],
       pc_collectives = bs_collectives st, pc_fences = [], pc_joins = bs_joins st\<rparr>"
  obtain g where g: "determinism sample_mint (\<lambda>_. FNone) [sample_runtime_call] [(ascii ''b'', plan_manifest)] (ip_context plan_install) comm = Inr g"
    "dg_context g = plan_identity ''execution-context''"
    using sample_determinism [of comm] st(3) by (auto simp: comm_def)
  have conn: "require_connected_clocks [ascii ''c''] [] = Inr ()" by (simp add: require_connected_clocks_def)
  have tr: "mapE (mk_transfer sample_mint) (ip_mappings plan_install) = Inr []" by (simp add: plan_install_def)
  have al: "allocations [] uses = Inr []" for uses by (simp add: allocations_def)
  have cm: "mk_communication_plan sample_mint \<lparr>pc_identity = ip_bind plan_install, pc_layout = ip_layout_plan plan_install,
       pc_communicator = pf_communicator (ip_facts plan_install), pc_halos = bs_halos st, pc_transfers = [],
       pc_collectives = bs_collectives st, pc_fences = [], pc_joins = bs_joins st\<rparr> = Inr comm"
    by (simp add: mk_communication_plan_def check_collective_sequence_def st(3) sample_mint_def comm_def plan_install_def text_eval)
  show ?thesis
    unfolding build_runtime_plans_def sample_map sample_layouts bindE_simps st(1) tr cm [unfolded st] st(2-6) conn sample_fences prod.case al
    using halos g
    by (simp add: mk_resource_plan_def mk_runtime_plan_def plan_install_def check_identity_def check_strings_def sample_mint_def
      plan_identity_def text_eval comm_def referenced_calls_def st sample_runtime_call_def)
qed

theorem built_plan_rows_witness:
  "\<exists>b. build_runtime_plans sample_mint (\<lambda>_. FNone) (\<lambda>_. Inr ()) plan_install [(ascii ''b'', plan_manifest)] = Inr b
     \<and> require_runtime_plan_bundle sample_mint plan_install b = Inr b
     \<and> map rc_ordinal (rt_calls b) = [0]"
proof -
  obtain b where b: "build_runtime_plans sample_mint (\<lambda>_. FNone) (\<lambda>_. Inr ()) plan_install [(ascii ''b'', plan_manifest)] = Inr b"
    using sample_built by (auto simp: is_ok_iff)
  moreover have "length (ip_blocks plan_install) = 1" by (simp add: plan_install_def)
  ultimately show ?thesis using built_plan_rows [OF b] by auto
qed

end
