(* ===== verification/Step_Attempts.thy ===== *)
theory Step_Attempts
  imports Consumer_Effects
begin

text \<open>
  The attempts of one macro step: \<^verbatim>\<open>pops/runtime/_step_strategy.py\<close> with \<^verbatim>\<open>StepTransactionReport\<close> of
  \<^verbatim>\<open>pops/time/_step/transaction.py\<close>.  Rank-local results become one collective decision, a detached cursor retries a rejected
  attempt within its budget, and every outcome is reported.

  \<^item> An exception is the record of what the module reads of it.  An attribute may be missing, raise when it is read or
    called, be text, or be another object with its \<^verbatim>\<open>str()\<close> and \<^verbatim>\<open>.value\<close>.  \<open>er_reason\<close> is the integer the
    reason code converts to, if it does.
  \<^item> The engine, the native system and the controller are the world \<open>'w\<close>; the callables a cursor is constructed with
    are functions on it.
\<close>

subsection \<open>Exceptions\<close>

datatype attribute = Missing | Raises | TextValue pystr | Opaque "pystr option" "pystr option"

record step_error =
  er_rejected :: bool
  er_type :: pystr
  er_message :: "pystr option"
  er_phase :: attribute
  er_status :: attribute
  er_detail :: attribute
  er_disposition :: attribute
  er_reason :: "int option"
  er_failed_rank :: "nat option"
  er_notes :: "pystr list"

definition plain_error :: "string \<Rightarrow> pystr \<Rightarrow> step_error" where
  "plain_error ty msg =
     \<lparr>er_rejected = False, er_type = ascii ty, er_message = Some msg, er_phase = Missing, er_status = Missing, er_detail = Missing,
      er_disposition = Missing, er_reason = None, er_failed_rank = None, er_notes = []\<rparr>"

definition runtime_error :: "pystr \<Rightarrow> step_error" where "runtime_error = plain_error ''RuntimeError''"

definition attribute_failed :: step_error where "attribute_failed = plain_error ''BaseException'' []"

definition report_phases :: "pystr list" where
  "report_phases = map ascii [''prepare'', ''stage'', ''solve'', ''synchronize'', ''guard'', ''effect'', ''commit'']"

definition occurs :: "pystr \<Rightarrow> pystr \<Rightarrow> bool" where
  "occurs part whole \<longleftrightarrow> list_ex (\<lambda>n. take (length part) (List.drop n whole) = part) [0..<Suc (length whole)]"

definition phase_of :: "step_error \<Rightarrow> step_error + pystr" where
  "phase_of e =
     (case er_phase e of
        Raises \<Rightarrow> Inl attribute_failed
      | TextValue s \<Rightarrow>
          Inr (if s \<in> set report_phases then s else if s = ascii ''native_evaluation'' then ascii ''stage'' else ascii ''solve'')
      | Opaque _ _ \<Rightarrow> Inr (ascii ''solve'')
      | Missing \<Rightarrow>
          (case er_message e of
             None \<Rightarrow> Inl attribute_failed
           | Some m \<Rightarrow>
               (case find (\<lambda>p. occurs (ascii '' during '' @ p @ ascii '':'') m) report_phases of
                  None \<Rightarrow> Inr (ascii ''solve'')
                | Some p \<Rightarrow> Inr p)))"

definition attribute_text :: "attribute \<Rightarrow> pystr \<Rightarrow> pystr" where
  "attribute_text a fallback = (case a of TextValue s \<Rightarrow> s | Opaque (Some s) _ \<Rightarrow> s | _ \<Rightarrow> fallback)"

record error_row =
  ew_kind :: pystr
  ew_type :: pystr
  ew_message :: pystr
  ew_status :: "pystr option"
  ew_phase :: pystr
  ew_detail :: "pystr option"
  ew_disposition :: "pystr option"
  ew_reason :: "int option"

definition attempt_error_record :: "step_error \<Rightarrow> error_row" where
  "attempt_error_record e =
     (let message = (case er_message e of None \<Rightarrow> ascii ''<unprintable rank-local exception>'' | Some m \<Rightarrow> m) in
      \<lparr>ew_kind = ascii (if er_rejected e then ''reject'' else ''fail''), ew_type = er_type e, ew_message = message,
       ew_status = (if er_rejected e then Some (attribute_text (er_status e) (ascii ''invalid_evaluation'')) else None),
       ew_phase = (case phase_of e of Inl _ \<Rightarrow> ascii ''solve'' | Inr p \<Rightarrow> p),
       ew_detail = (if er_rejected e then Some (attribute_text (er_detail e) message) else None),
       ew_disposition = (if er_rejected e then Some (attribute_text (er_disposition e) (ascii ''reject'')) else None),
       ew_reason = (if er_rejected e then Some (case er_reason e of None \<Rightarrow> 0 | Some n \<Rightarrow> n) else None)\<rparr>)"

subsection \<open>The collective decision\<close>

datatype error_envelope = NoError | BadError | ErrorEnvelope error_row

datatype rank_envelope = BadEnvelope | RankEnvelope int error_envelope

definition solve_statuses :: "pystr list" where
  "solve_statuses = map ascii
     [''singular'', ''breakdown'', ''iteration_limit'', ''invalid_evaluation'', ''capability_failure'', ''invalid_input'',
      ''incompatible_rhs'', ''inadmissible_candidate'', ''safeguard_failure'']"

fun read_envelopes :: "nat \<Rightarrow> rank_envelope list \<Rightarrow> step_error + (nat \<times> error_row) list" where
  "read_envelopes r [] = Inr []"
| "read_envelopes r (BadEnvelope # rows) =
     Inl (runtime_error (ascii ''collective step attempt returned an invalid rank envelope''))"
| "read_envelopes r (RankEnvelope k e # rows) =
     (if k \<noteq> int r then Inl (runtime_error (ascii ''collective step attempt returned an invalid rank envelope''))
      else case e of
          NoError \<Rightarrow> read_envelopes (Suc r) rows
        | BadError \<Rightarrow> Inl (runtime_error (ascii ''collective step attempt returned an invalid error envelope on rank '' @ decimal r))
        | ErrorEnvelope row \<Rightarrow> bindE (read_envelopes (Suc r) rows) (\<lambda>failures. Inr ((r, row) # failures)))"

fun join_text :: "pystr \<Rightarrow> pystr list \<Rightarrow> pystr" where
  "join_text sep [] = []"
| "join_text sep [x] = x"
| "join_text sep (x # xs) = x @ sep @ join_text sep xs"

definition failure_text :: "(nat \<times> error_row) list \<Rightarrow> pystr" where
  "failure_text failures = join_text (ascii ''; '')
     (map (\<lambda>(r, e). ascii ''rank '' @ decimal r @ ascii '' '' @ ew_type e @ ascii '': '' @ ew_message e) failures)"

definition row_control :: "error_row \<Rightarrow> pystr option \<times> pystr \<times> pystr option \<times> int option" where
  "row_control e = (ew_status e, ew_phase e, ew_disposition e, ew_reason e)"

definition collective_decision :: "rank_envelope list \<Rightarrow> step_error + step_error option" where
  "collective_decision rows =
     (case read_envelopes 0 rows of
        Inl e \<Rightarrow> Inr (Some e)
      | Inr failures \<Rightarrow>
        if failures = [] then Inr None
        else
          (let fatal = filter (\<lambda>(r, e). ew_kind e = ascii ''fail'') failures;
               controls = remdups (map (\<lambda>(r, e). row_control e) (filter (\<lambda>(r, e). ew_kind e = ascii ''reject'') failures));
               (selected_rank, selected) = hd (if fatal \<noteq> [] then fatal else failures);
               diagnostics = failure_text failures;
               p = ew_phase selected in
           if fatal \<noteq> [] \<or> length failures \<noteq> length rows \<or> 1 < length controls then
             Inr (Some (runtime_error (ascii ''collective step attempt failed during '' @ p @ ascii '': '' @ diagnostics)))
           else case ew_status selected of
               None \<Rightarrow> Inr (Some (runtime_error (ascii ''collective step attempt returned an invalid rejection status on rank '' @ decimal selected_rank)))
             | Some status \<Rightarrow>
               if status \<notin> set solve_statuses then
                 Inr (Some (runtime_error (ascii ''collective step attempt returned an invalid rejection status on rank '' @ decimal selected_rank)))
               else case ew_disposition selected of
                   None \<Rightarrow> Inr (Some (runtime_error (ascii ''collective step attempt returned an invalid rejection disposition on rank '' @ decimal selected_rank)))
                 | Some d \<Rightarrow>
                   if d \<notin> {ascii ''retry'', ascii ''reject''} then
                     Inr (Some (runtime_error (ascii ''collective step attempt returned an invalid rejection disposition on rank '' @ decimal selected_rank)))
                   else case ew_reason selected of
                       None \<Rightarrow> Inl (plain_error ''TypeError'' (ascii ''int() argument''))
                     | Some n \<Rightarrow>
                       Inr (Some \<lparr>er_rejected = True, er_type = ascii ''StepAttemptRejected'',
                         er_message = Some (ascii ''collective step attempt rejected during '' @ p @ ascii '': '' @ diagnostics),
                         er_phase = TextValue p, er_status = TextValue status, er_detail = TextValue diagnostics,
                         er_disposition = TextValue d, er_reason = Some n, er_failed_rank = Some selected_rank, er_notes = []\<rparr>)))"

record engine_context =
  ec_envelope :: bool
  ec_identity :: "pystr option"
  ec_handle :: bool
  ec_world :: "step_error + nat \<times> nat"

definition attempt_world :: "engine_context \<Rightarrow> step_error + (nat \<times> nat) option" where
  "attempt_world ec =
     (if \<not> ec_envelope ec then Inr None
      else case ec_identity ec of
          None \<Rightarrow> Inr None
        | Some i \<Rightarrow>
          if i = ascii ''serial'' then
            (if ec_handle ec then Inl (plain_error ''ValueError'' (ascii ''serial step execution hides a communicator handle'')) else Inr None)
          else if i \<noteq> ascii ''MPI_COMM_WORLD'' then
            Inl (plain_error ''ValueError'' (ascii ''distributed step execution requires the authenticated MPI_COMM_WORLD resource''))
          else bindE (ec_world ec) (\<lambda>w. Inr (Some w)))"

text \<open>\<open>allgather\<close> is \<^verbatim>\<open>allgather_value\<close> on the world of the engine.\<close>

definition collective_attempt_error ::
  "engine_context \<Rightarrow> (nat \<times> error_row option \<Rightarrow> step_error + rank_envelope list) \<Rightarrow> step_error option \<Rightarrow> step_error + step_error option" where
  "collective_attempt_error ec allgather local_error =
     bindE (attempt_world ec) (\<lambda>w.
     case w of
       None \<Rightarrow> Inr local_error
     | Some (rank, world_size) \<Rightarrow>
         if world_size = 1 then Inr local_error
         else bindE (allgather (rank, map_option attempt_error_record local_error)) collective_decision)"

subsection \<open>Reports\<close>

record step_report =
  sr_status :: pystr
  sr_phase :: pystr
  sr_action :: pystr
  sr_attempts :: nat
  sr_staged :: "pystr list"
  sr_committed :: "pystr list"
  sr_rolled_back :: "pystr list"
  sr_diagnostics :: "pystr list"
  sr_projections :: "pystr list"

definition value_error :: "string \<Rightarrow> step_error" where "value_error msg = plain_error ''ValueError'' (ascii msg)"

definition mk_step_report :: "step_report \<Rightarrow> step_error + step_report" where
  "mk_step_report r =
     (let accepted = (sr_status r = ascii ''accepted'') in
      bindE (raise_if (sr_status r \<notin> set (map ascii [''accepted'', ''rejected'', ''failed''])) (value_error ''StepTransactionReport.status'')) (\<lambda>_.
      bindE (raise_if (sr_phase r \<notin> set report_phases) (value_error ''StepTransactionReport.phase'')) (\<lambda>_.
      bindE (raise_if (sr_attempts r = 0) (value_error ''StepTransactionReport.attempts must be a positive integer'')) (\<lambda>_.
      bindE (raise_if (accepted \<and> sr_rolled_back r \<noteq> []) (value_error ''accepted transaction reports cannot include rolled_back_effects'')) (\<lambda>_.
      bindE (raise_if (\<not> accepted \<and> sr_committed r \<noteq> []) (value_error ''rejected/failed transaction reports cannot include committed_effects'')) (\<lambda>_.
      bindE (mapE (\<lambda>effects.
          bindE (raise_if ([] \<in> set effects) (value_error ''must contain non-empty effect names'')) (\<lambda>_.
          raise_if (\<not> distinct effects) (value_error ''cannot contain duplicates'')))
        [sr_staged r, sr_committed r, sr_rolled_back r]) (\<lambda>_.
      bindE (raise_if (accepted \<and> set (sr_committed r) \<noteq> set (sr_staged r)) (value_error ''accepted transaction reports must commit every staged_effect'')) (\<lambda>_.
      bindE (raise_if (\<not> accepted \<and> set (sr_rolled_back r) \<noteq> set (sr_staged r)) (value_error ''rejected/failed transaction reports must roll back every staged_effect'')) (\<lambda>_.
      bindE (raise_if ([] \<in> set (sr_projections r)) (value_error ''StepTransactionReport.projections must contain non-empty guard names'')) (\<lambda>_.
      bindE (raise_if (\<not> distinct (sr_projections r)) (value_error ''StepTransactionReport.projections cannot contain duplicates'')) (\<lambda>_.
      Inr r)))))))))))"

subsection \<open>The retry cursor\<close>

datatype reported = NoCount | Count int | BadCount

text \<open>
  What a cursor is constructed with, and what the module reads of the engine: the stores and the projecting guards of the
  installed transaction plan, and the projection report of the native system (\<open>None\<close> when it is not a sequence of
  strings).
\<close>

record 'w provider =
  pv_attempt :: "'w \<Rightarrow> (step_error + reported) \<times> 'w"
  pv_retry :: "(step_error \<Rightarrow> nat \<Rightarrow> 'w \<Rightarrow> (step_error + bool) \<times> 'w) option"
  pv_budget :: "int option"
  pv_accept :: "(nat \<Rightarrow> 'w \<Rightarrow> (step_error + unit) \<times> 'w) option"
  pv_stores :: "'w \<Rightarrow> pystr list"
  pv_declared :: "'w \<Rightarrow> pystr list"
  pv_consume :: "('w \<Rightarrow> (step_error + pystr list option) \<times> 'w) option"
  pv_plan_live :: "'w \<Rightarrow> bool"

record 'w attempt_state =
  at_world :: 'w
  at_attempts :: nat
  at_accepted :: bool
  at_report :: "step_report option"
  at_controller :: nat

type_synonym ('w, 'a) run = "'w attempt_state \<Rightarrow> (step_error + 'a) \<times> 'w attempt_state"

definition throwS :: "step_error \<Rightarrow> ('w, 'a) run" where "throwS e st = (Inl e, st)"

definition returnS :: "'a \<Rightarrow> ('w, 'a) run" where "returnS x st = (Inr x, st)"

definition bindS :: "('w, 'a) run \<Rightarrow> ('a \<Rightarrow> ('w, 'b) run) \<Rightarrow> ('w, 'b) run" where
  "bindS m f st = (case m st of (Inl e, st') \<Rightarrow> (Inl e, st') | (Inr x, st') \<Rightarrow> f x st')"

definition worldS :: "('w \<Rightarrow> (step_error + 'a) \<times> 'w) \<Rightarrow> ('w, 'a) run" where
  "worldS f st = (let (r, w) = f (at_world st) in (r, st\<lparr>at_world := w\<rparr>))"

definition liftS :: "step_error + 'a \<Rightarrow> ('w, 'a) run" where "liftS r st = (r, st)"

definition new_attempts :: "'w provider \<Rightarrow> 'w \<Rightarrow> nat \<Rightarrow> step_error + 'w attempt_state" where
  "new_attempts p w controller =
     bindE (raise_if (pv_retry p \<noteq> None \<and> (case pv_budget p of None \<Rightarrow> True | Some b \<Rightarrow> b < 0))
       (value_error ''retrying step attempts require an explicit finite retry_budget'')) (\<lambda>_.
     Inr \<lparr>at_world = w, at_attempts = 0, at_accepted = False, at_report = None, at_controller = controller\<rparr>)"

definition projections :: "'w provider \<Rightarrow> ('w, pystr list) run" where
  "projections p st =
     (let declared = pv_declared p (at_world st) in
      case pv_consume p of
        None \<Rightarrow> if declared \<noteq> []
          then throwS (plain_error ''TypeError'' (ascii ''native ProjectAndRecheck execution lacks the step-projection report protocol'')) st
          else returnS [] st
      | Some consume \<Rightarrow>
          bindS (worldS consume) (\<lambda>executed.
          case executed of
            None \<Rightarrow> throwS (plain_error ''TypeError'' (ascii ''native step-projection report must be a sequence of non-empty strings''))
          | Some names \<Rightarrow>
              if [] \<in> set names then throwS (plain_error ''TypeError'' (ascii ''native step-projection report must be a sequence of non-empty strings''))
              else if \<not> distinct names then throwS (value_error ''native step-projection report cannot contain duplicates'')
              else if \<not> set names \<subseteq> set declared then
                throwS (runtime_error (ascii ''native step-projection report contains undeclared identities: ''
                  @ join_text (ascii '', '') (filter (\<lambda>n. n \<notin> set declared) names)))
              else returnS (filter (\<lambda>n. n \<in> set names) declared)) st)"

definition set_report :: "step_report \<Rightarrow> ('w, unit) run" where
  "set_report r st = (Inr (), st\<lparr>at_report := Some r\<rparr>)"

definition record_failure :: "'w provider \<Rightarrow> step_error \<Rightarrow> ('w, unit) run" where
  "record_failure p e st =
     (let stores = pv_stores p (at_world st) in
      bindS (liftS (phase_of e)) (\<lambda>ph.
      bindS (projections p) (\<lambda>names.
      bindS (liftS (case er_message e of None \<Rightarrow> Inl attribute_failed | Some m \<Rightarrow> Inr m)) (\<lambda>message.
      bindS (liftS (mk_step_report
        \<lparr>sr_status = ascii (if er_rejected e then ''rejected'' else ''failed''), sr_phase = ph,
         sr_action = ascii (if er_rejected e then ''reject_attempt'' else ''fail_run''), sr_attempts = at_attempts st,
         sr_staged = stores, sr_committed = [], sr_rolled_back = stores, sr_diagnostics = message # er_notes e,
         sr_projections = names\<rparr>)) set_report))) st)"

definition execute :: "'w provider \<Rightarrow> ('w, unit) run" where
  "execute p st =
     (if at_accepted st then throwS (runtime_error (ascii ''prepared step-attempt sequence is already accepted'')) st
      else bindS (worldS (pv_attempt p)) (\<lambda>count.
        case count of
          NoCount \<Rightarrow> returnS ()
        | BadCount \<Rightarrow> throwS (runtime_error (ascii ''step controller returned an invalid native-attempt count''))
        | Count n \<Rightarrow>
            if n \<le> 0 then throwS (runtime_error (ascii ''step controller returned an invalid native-attempt count''))
            else if n \<noteq> 1 then throwS (runtime_error (ascii ''a retrying step-controller extension must override prepare_attempts()''))
            else returnS ()) (st\<lparr>at_attempts := Suc (at_attempts st)\<rparr>))"

definition status_value :: "step_error \<Rightarrow> step_error + pystr option" where
  "status_value e =
     (case er_status e of
        Missing \<Rightarrow> Inr None | Raises \<Rightarrow> Inl attribute_failed | TextValue s \<Rightarrow> Inr (Some s) | Opaque _ v \<Rightarrow> Inr v)"

definition terminal_statuses :: "pystr list" where
  "terminal_statuses = map ascii [''capability_failure'', ''invalid_input'', ''incompatible_rhs'']"

text \<open>\<^verbatim>\<open>_stop_retry\<close> notes the reason on the exception and reports; the exception is returned as it is now.\<close>

definition stop_retry :: "'w provider \<Rightarrow> step_error \<Rightarrow> pystr \<Rightarrow> ('w, bool \<times> step_error) run" where
  "stop_retry p e reason =
     (let e' = e\<lparr>er_notes := er_notes e @ [ascii ''retry stopped: '' @ reason]\<rparr> in
      bindS (record_failure p e') (\<lambda>_. returnS (False, e')))"

definition retry_within ::
  "'w provider \<Rightarrow> step_error \<Rightarrow> (step_error \<Rightarrow> nat \<Rightarrow> 'w \<Rightarrow> (step_error + bool) \<times> 'w) \<Rightarrow> ('w, bool \<times> step_error) run" where
  "retry_within p e propose st =
     (if (case pv_budget p of None \<Rightarrow> True | Some b \<Rightarrow> b < int (at_attempts st)) then
        stop_retry p e (ascii ''finite retry budget exhausted after '' @ decimal (at_attempts st) @ ascii '' attempt(s), budget=''
          @ (case pv_budget p of None \<Rightarrow> ascii ''None'' | Some b \<Rightarrow> decimal (nat b))) st
      else
        bindS (worldS (propose e (at_attempts st))) (\<lambda>go.
        if go then returnS (True, e) else stop_retry p e (ascii ''controller cannot make a permitted retry proposal'')) st)"

definition retry_attempt :: "'w provider \<Rightarrow> step_error \<Rightarrow> ('w, bool \<times> step_error) run" where
  "retry_attempt p e st =
     (case pv_retry p of
        None \<Rightarrow> returnS (False, e) st
      | Some propose \<Rightarrow>
        if at_accepted st \<or> \<not> er_rejected e then returnS (False, e) st
        else
          bindS (liftS (status_value e)) (\<lambda>status.
          case status of
            Some s \<Rightarrow>
              if s \<in> set terminal_statuses then
                stop_retry p e (ascii ''failure category '' @ s @ ascii '' is not repaired by shrinking dt'')
              else retry_within p e propose
          | None \<Rightarrow> retry_within p e propose) st)"

definition accept_attempt :: "'w provider \<Rightarrow> ('w, unit) run" where
  "accept_attempt p st =
     (if at_accepted st then throwS (runtime_error (ascii ''prepared step-attempt sequence was accepted more than once'')) st
      else bindS (case pv_accept p of None \<Rightarrow> returnS () | Some f \<Rightarrow> worldS (f (at_attempts st)))
        (\<lambda>_ st'. (Inr (), st'\<lparr>at_accepted := True\<rparr>)) st)"

definition note_controller :: "'w attempt_state \<Rightarrow> 'w attempt_state" where
  "note_controller st = st\<lparr>at_controller := at_attempts st\<rparr>"

text \<open>Reporting and retrying change neither the count of attempts nor the acceptance.\<close>

definition kept :: "'w attempt_state \<Rightarrow> (step_error + 'a) \<times> 'w attempt_state \<Rightarrow> bool" where
  "kept st out \<longleftrightarrow> at_attempts (snd out) = at_attempts st \<and> at_accepted (snd out) = at_accepted st"

named_theorems kept_rules

lemma kept_throw [kept_rules]: "kept st (throwS e st)" by (simp add: kept_def throwS_def)

lemma kept_return [kept_rules]: "kept st (returnS x st)" by (simp add: kept_def returnS_def)

lemma kept_lift [kept_rules]: "kept st (liftS r st)" by (simp add: kept_def liftS_def)

lemma kept_world [kept_rules]: "kept st (worldS f st)" by (simp add: kept_def worldS_def split_beta)

lemma kept_set_report [kept_rules]: "kept st (set_report r st)" by (simp add: kept_def set_report_def)

lemma kept_bind [kept_rules]:
  assumes "kept st (m st)" "\<And>x st'. kept st' (f x st')"
  shows "kept st (bindS m f st)"
proof -
  obtain r st1 where m: "m st = (r, st1)" by (rule prod.exhaust)
  show ?thesis using assms(1) assms(2) [of st1] m by (cases r) (auto simp: kept_def bindS_def)
qed

lemma kept_projections [kept_rules]: "kept st (projections p st)"
  unfolding projections_def Let_def by (auto intro!: kept_rules split: option.split)

lemma kept_record_failure [kept_rules]: "kept st (record_failure p e st)"
  unfolding record_failure_def Let_def by (intro kept_rules)

lemma kept_stop_retry [kept_rules]: "kept st (stop_retry p e reason st)"
  unfolding stop_retry_def Let_def by (intro kept_rules)

lemma kept_retry_within [kept_rules]: "kept st (retry_within p e propose st)"
  unfolding retry_within_def by (auto intro!: kept_rules)

lemma kept_retry [kept_rules]: "kept st (retry_attempt p e st)"
  unfolding retry_attempt_def by (auto intro!: kept_rules split: option.split)

lemma stop_retry_never_goes: "stop_retry p e reason st \<noteq> (Inr (True, e'), st')"
  by (auto simp: stop_retry_def Let_def bindS_def returnS_def split: prod.splits sum.splits)

lemma retry_goes_within_budget:
  assumes "retry_attempt p e st = (Inr (True, e'), st')"
  shows "\<not> at_accepted st" "pv_retry p \<noteq> None" "\<exists>b. pv_budget p = Some b \<and> int (at_attempts st) \<le> b"
proof -
  have w: "\<exists>b. pv_budget p = Some b \<and> int (at_attempts st) \<le> b" if "retry_within p e f st = (Inr (True, e'), st')" for f
    using that by (auto simp: retry_within_def stop_retry_never_goes split: if_splits option.splits)
  show "\<not> at_accepted st" "pv_retry p \<noteq> None"
    using assms by (auto simp: retry_attempt_def returnS_def split: if_splits option.splits)
  show "\<exists>b. pv_budget p = Some b \<and> int (at_attempts st) \<le> b"
    using assms by (auto simp: retry_attempt_def returnS_def liftS_def bindS_def stop_retry_never_goes intro: w
      split: if_splits option.splits prod.splits sum.splits)
qed

lemma execute_result:
  assumes "execute p st = (r, st')"
  shows "at_accepted st' = at_accepted st"
    and "at_accepted st \<Longrightarrow> \<exists>e. r = Inl e \<and> \<not> er_rejected e"
    and "\<not> at_accepted st \<Longrightarrow> at_attempts st' = Suc (at_attempts st)"
proof -
  show "at_accepted st \<Longrightarrow> \<exists>e. r = Inl e \<and> \<not> er_rejected e"
    using assms by (auto simp: execute_def throwS_def runtime_error_def plain_error_def)
  let ?st = "st\<lparr>at_attempts := Suc (at_attempts st)\<rparr>"
  have "kept ?st (execute p st)" if "\<not> at_accepted st"
    using that by (auto simp: execute_def intro!: kept_rules split: reported.split)
  then have "at_attempts st' = Suc (at_attempts st) \<and> \<not> at_accepted st'" if "\<not> at_accepted st" using that assms by (simp add: kept_def)
  moreover have "at_accepted st'" if "at_accepted st" using that assms by (auto simp: execute_def throwS_def)
  ultimately show "at_accepted st' = at_accepted st" "\<not> at_accepted st \<Longrightarrow> at_attempts st' = Suc (at_attempts st)" by blast+
qed

lemma accept_result:
  assumes "accept_attempt p st = (r, st')"
  shows "at_attempts st' = at_attempts st" "at_accepted st' \<longleftrightarrow> at_accepted st \<or> (\<exists>x. r = Inr x)"
  using assms by (auto simp: accept_attempt_def throwS_def bindS_def worldS_def returnS_def split: if_splits option.splits prod.splits sum.splits)

subsection \<open>The loops\<close>

definition retries_left :: "'w provider \<Rightarrow> 'w attempt_state \<Rightarrow> nat" where
  "retries_left p st = nat ((case pv_budget p of None \<Rightarrow> 0 | Some b \<Rightarrow> b) + 1 - int (at_attempts st))"

lemma retries_left_less:
  assumes "at_attempts st1 = Suc (at_attempts st)" "retry_attempt p e st1 = (Inr (True, e'), st2)"
  shows "retries_left p st2 < retries_left p st"
proof -
  have "at_attempts st2 = at_attempts st1" using kept_retry [of st1 p e] assms(2) by (simp add: kept_def)
  then show ?thesis using assms(1) retry_goes_within_budget(3) [OF assms(2)] by (auto simp: retries_left_def)
qed

lemma retry_uses_attempt:
  assumes "execute p st = (Inl e, st1)" "retry_attempt p e st1 = (Inr (True, e'), st2)"
  shows "retries_left p st2 < retries_left p st"
proof -
  have "\<not> at_accepted st" using execute_result(1) [OF assms(1)] retry_goes_within_budget(1) [OF assms(2)] by simp
  then show ?thesis using retries_left_less [OF execute_result(3) [OF assms(1)] assms(2)] by simp
qed

text \<open>\<^verbatim>\<open>_execute_prepared_attempts\<close>: each further turn uses up one attempt of the budget.\<close>

function execute_prepared_attempts :: "'w provider \<Rightarrow> ('w, nat) run" where
  "execute_prepared_attempts p st =
     (case execute p st of
        (Inr _, st1) \<Rightarrow>
          (case accept_attempt p st1 of
             (Inl e, st2) \<Rightarrow> (Inl e, st2)
           | (Inr _, st2) \<Rightarrow> (Inr (at_attempts st2), note_controller st2))
      | (Inl e, st1) \<Rightarrow>
          if \<not> er_rejected e then (Inl e, st1)
          else (case retry_attempt p e st1 of
             (Inl e', st2) \<Rightarrow> (Inl e', st2)
           | (Inr (go, e'), st2) \<Rightarrow> if go then execute_prepared_attempts p st2 else (Inl e', note_controller st2)))"
  by pat_completeness auto
termination by (relation "measure (\<lambda>(p, st). retries_left p st)") (auto intro: retry_uses_attempt [OF sym sym])

declare execute_prepared_attempts.simps [simp del]

definition accepted_report :: "'w provider \<Rightarrow> ('w, step_report) run" where
  "accepted_report p st =
     (let stores = pv_stores p (at_world st) in
      bindS (projections p) (\<lambda>names.
      bindS (liftS (mk_step_report
        \<lparr>sr_status = ascii ''accepted'', sr_phase = ascii ''commit'', sr_action = ascii ''commit'', sr_attempts = at_attempts st,
         sr_staged = stores, sr_committed = stores, sr_rolled_back = [], sr_diagnostics = [], sr_projections = names\<rparr>)) (\<lambda>r.
      bindS (set_report r) (\<lambda>_. returnS r))) st)"

definition run_prepared_step_attempt :: "'w provider \<Rightarrow> ('w, step_report) run" where
  "run_prepared_step_attempt p st =
     (case bindS (execute p) (\<lambda>_. accept_attempt p) st of
        (Inl e, st1) \<Rightarrow> bindS (record_failure p e) (\<lambda>_. throwS e) st1
      | (Inr _, st1) \<Rightarrow> accepted_report p (note_controller st1))"

definition run_prepared_attempt :: "'w provider \<Rightarrow> ('w, step_report) run" where
  "run_prepared_attempt p st =
     (if \<not> pv_plan_live p (at_world st)
      then throwS (runtime_error (ascii ''prepared run transaction plan changed before attempt preparation'')) st
      else run_prepared_step_attempt p st)"

lemma kept_accepted_report [kept_rules]: "kept st (accepted_report p st)"
  unfolding accepted_report_def Let_def by (intro kept_rules)

lemma run_prepared_step_attempt_count:
  assumes "run_prepared_step_attempt p st = (r, st1)"
  shows "at_accepted st \<Longrightarrow> at_accepted st1" "\<not> at_accepted st \<Longrightarrow> at_attempts st1 = Suc (at_attempts st)"
proof -
  obtain r0 st0 where b: "bindS (execute p) (\<lambda>_. accept_attempt p) st = (r0, st0)" by (rule prod.exhaust)
  obtain r1 s1 where x: "execute p st = (r1, s1)" by (rule prod.exhaust)
  have st0: "at_attempts st0 = at_attempts s1" "at_accepted s1 \<Longrightarrow> at_accepted st0"
    using b x by (auto simp: bindS_def dest: accept_result split: sum.splits)
  have "at_attempts st1 = at_attempts st0 \<and> at_accepted st1 = at_accepted st0"
  proof (cases r0)
    case (Inl e)
    have "kept st0 (bindS (record_failure p e) (\<lambda>_. throwS e) st0 :: (step_error + step_report) \<times> 'a attempt_state)" by (intro kept_rules)
    then show ?thesis using assms b Inl by (simp add: run_prepared_step_attempt_def kept_def)
  next
    case (Inr u)
    then show ?thesis using assms b kept_accepted_report [of "note_controller st0" p]
      by (simp add: run_prepared_step_attempt_def kept_def note_controller_def)
  qed
  then show "at_accepted st \<Longrightarrow> at_accepted st1" "\<not> at_accepted st \<Longrightarrow> at_attempts st1 = Suc (at_attempts st)"
    using st0 execute_result [OF x] by auto
qed

lemma run_retry_uses_attempt:
  assumes "run_prepared_attempt p st = (Inl e, st1)" "er_rejected e" "retry_attempt p e st1 = (Inr (True, e'), st2)"
  shows "\<not> at_accepted st" "at_attempts st1 = Suc (at_attempts st)" "retries_left p st2 < retries_left p st"
proof -
  have run: "run_prepared_step_attempt p st = (Inl e, st1)"
    using assms(1,2) by (auto simp: run_prepared_attempt_def throwS_def runtime_error_def plain_error_def split: if_splits)
  show na: "\<not> at_accepted st" using run_prepared_step_attempt_count(1) [OF run] retry_goes_within_budget(1) [OF assms(3)] by blast
  show c: "at_attempts st1 = Suc (at_attempts st)" using run_prepared_step_attempt_count(2) [OF run na] .
  show "retries_left p st2 < retries_left p st" using c assms(3) by (rule retries_left_less)
qed

text \<open>\<^verbatim>\<open>PreparedProgramRun.run_step\<close>.\<close>

function run_step :: "'w provider \<Rightarrow> ('w, step_report) run" where
  "run_step p st =
     (case run_prepared_attempt p st of
        (Inr r, st1) \<Rightarrow> (Inr r, st1)
      | (Inl e, st1) \<Rightarrow>
          if \<not> er_rejected e then (Inl e, st1)
          else (case retry_attempt p e st1 of
             (Inl e', st2) \<Rightarrow> (Inl e', st2)
           | (Inr (go, e'), st2) \<Rightarrow> if go then run_step p st2 else (Inl e', st2)))"
  by pat_completeness auto
termination by (relation "measure (\<lambda>(p, st). retries_left p st)") (auto intro: run_retry_uses_attempt(3) [OF sym _ sym])

declare run_step.simps [simp del]

definition budget_bound :: "'w provider \<Rightarrow> nat" where
  "budget_bound p = (case pv_retry p of None \<Rightarrow> 0 | Some _ \<Rightarrow> (case pv_budget p of None \<Rightarrow> 0 | Some b \<Rightarrow> nat b))"

lemma retry_goes_bound:
  assumes "retry_attempt p e st = (Inr (True, e'), st')"
  shows "\<not> at_accepted st'" "at_attempts st' \<le> budget_bound p"
proof -
  have k: "at_attempts st' = at_attempts st" "at_accepted st' = at_accepted st" using kept_retry [of st p e] assms by (simp_all add: kept_def)
  note g = retry_goes_within_budget [OF assms]
  show "\<not> at_accepted st'" using k(2) g(1) by simp
  show "at_attempts st' \<le> budget_bound p" using k(1) g(2,3) by (auto simp: budget_bound_def nat_le_eq_zle split: option.split)
qed

lemma execute_prepared_attempts_bound:
  assumes "execute_prepared_attempts p st = (r, st')" "\<not> at_accepted st" "at_attempts st \<le> budget_bound p"
  shows "at_attempts st < at_attempts st' \<and> at_attempts st' \<le> Suc (budget_bound p)
    \<and> (case r of Inr n \<Rightarrow> n = at_attempts st' \<and> at_accepted st' \<and> at_controller st' = n | Inl e \<Rightarrow> \<not> at_accepted st')"
  using assms
proof (induction p st rule: execute_prepared_attempts.induct)
  case (1 p st)
  obtain r1 st1 where x: "execute p st = (r1, st1)" by (rule prod.exhaust)
  have st1: "at_attempts st1 = Suc (at_attempts st)" "\<not> at_accepted st1"
    using execute_result [OF x] 1(3) by auto
  show ?case
  proof (cases r1)
    case (Inr u)
    obtain r2 st2 where y: "accept_attempt p st1 = (r2, st2)" by (rule prod.exhaust)
    show ?thesis using 1(2,4) x Inr y st1 accept_result [OF y]
      by (cases r2) (auto simp: execute_prepared_attempts.simps [of p st] note_controller_def)
  next
    case (Inl e)
    show ?thesis
    proof (cases "er_rejected e")
      case False
      then show ?thesis using 1(2,4) x Inl st1 by (auto simp: execute_prepared_attempts.simps [of p st])
    next
      case True
      obtain r2 st2 where y: "retry_attempt p e st1 = (r2, st2)" by (rule prod.exhaust)
      have st2: "at_attempts st2 = at_attempts st1" "\<not> at_accepted st2" using kept_retry [of st1 p e] y st1 by (simp_all add: kept_def)
      show ?thesis
      proof (cases "\<exists>e'. r2 = Inr (True, e')")
        case go: True
        then obtain e' where r2: "r2 = Inr (True, e')" ..
        have run: "execute_prepared_attempts p st2 = (r, st')"
          using 1(2) x Inl True y r2 by (simp add: execute_prepared_attempts.simps [of p st])
        note b = retry_goes_bound [OF y [unfolded r2]]
        have "at_attempts st2 < at_attempts st' \<and> at_attempts st' \<le> Suc (budget_bound p)
          \<and> (case r of Inr n \<Rightarrow> n = at_attempts st' \<and> at_accepted st' \<and> at_controller st' = n | Inl e \<Rightarrow> \<not> at_accepted st')"
          using "1.IH" [OF x [symmetric] Inl] True y r2 run b by auto
        then show ?thesis using st1 st2 by auto
      next
        case False
        then show ?thesis using 1(2,4) x Inl True y st1 st2
          by (auto simp: execute_prepared_attempts.simps [of p st] note_controller_def split: prod.splits sum.splits if_splits)
      qed
    qed
  qed
qed

lemma accepted_report_result:
  assumes "accepted_report p st = (Inr rep, st')"
  shows "at_report st' = Some rep \<and> sr_status rep = ascii ''accepted'' \<and> sr_attempts rep = at_attempts st \<and> sr_committed rep = sr_staged rep
    \<and> sr_rolled_back rep = []"
  using assms by (auto simp: accepted_report_def Let_def bindS_def liftS_def set_report_def returnS_def mk_step_report_def split: prod.splits sum.splits)

lemma run_prepared_attempt_accepts:
  assumes "run_prepared_attempt p st = (Inr rep, st')"
  shows "at_accepted st'" "at_report st' = Some rep" "sr_status rep = ascii ''accepted''" "sr_attempts rep = at_attempts st'"
    "sr_committed rep = sr_staged rep" "sr_rolled_back rep = []"
proof -
  have "run_prepared_step_attempt p st = (Inr rep, st')" using assms by (auto simp: run_prepared_attempt_def throwS_def split: if_splits)
  then obtain u st1 where st1: "bindS (execute p) (\<lambda>_. accept_attempt p) st = (Inr u, st1)" "accepted_report p (note_controller st1) = (Inr rep, st')"
    by (auto simp: run_prepared_step_attempt_def bindS_def throwS_def split: prod.splits sum.splits)
  have "at_accepted st1" using st1(1) by (auto simp: bindS_def dest: accept_result(2) split: prod.splits sum.splits)
  moreover have "kept (note_controller st1) (Inr rep :: step_error + step_report, st')" using kept_accepted_report st1(2) by metis
  ultimately show "at_accepted st'" "at_report st' = Some rep" "sr_status rep = ascii ''accepted''" "sr_attempts rep = at_attempts st'"
    "sr_committed rep = sr_staged rep" "sr_rolled_back rep = []"
    using accepted_report_result [OF st1(2)] by (auto simp: kept_def note_controller_def)
qed

lemma run_prepared_attempt_count:
  assumes "run_prepared_attempt p st = (r, st1)" "\<not> at_accepted st"
  shows "at_attempts st1 \<le> Suc (at_attempts st)"
  using assms run_prepared_step_attempt_count(2) [of p st r st1] by (auto simp: run_prepared_attempt_def throwS_def split: if_splits)

lemma run_step_bound:
  assumes "run_step p st = (r, st')" "\<not> at_accepted st" "at_attempts st \<le> budget_bound p"
  shows "at_attempts st' \<le> Suc (budget_bound p) \<and> (\<forall>rep. r = Inr rep \<longrightarrow> (\<exists>st1. run_prepared_attempt p st1 = (Inr rep, st')))"
  using assms
proof (induction p st rule: run_step.induct)
  case (1 p st)
  obtain r1 st1 where x: "run_prepared_attempt p st = (r1, st1)" by (rule prod.exhaust)
  note le = run_prepared_attempt_count [OF x 1(3)]
  show ?case
  proof (cases r1)
    case (Inr rep)
    then show ?thesis using 1(2,4) x le by (auto simp: run_step.simps [of p st])
  next
    case (Inl e)
    obtain r2 st2 where y: "retry_attempt p e st1 = (r2, st2)" by (rule prod.exhaust)
    have k: "at_attempts st2 = at_attempts st1" using kept_retry [of st1 p e] y by (simp add: kept_def)
    show ?thesis
    proof (cases "er_rejected e \<and> (\<exists>e'. r2 = Inr (True, e'))")
      case True
      then obtain e' where r2: "r2 = Inr (True, e')" "er_rejected e" by blast
      have run: "run_step p st2 = (r, st')" using 1(2) x Inl r2 y by (simp add: run_step.simps [of p st])
      note b = retry_goes_bound [OF y [unfolded r2(1)]]
      show ?thesis using "1.IH" [OF x [symmetric] Inl] r2 y run b by auto
    next
      case False
      then show ?thesis using 1(2,4) x Inl y k le
        by (auto simp: run_step.simps [of p st] split: if_splits sum.splits prod.splits)
    qed
  qed
qed

subsection \<open>Ranks agree\<close>

text \<open>What \<^verbatim>\<open>allgather_value\<close> returns when rank \<open>k\<close> contributes its own result, for each rank.\<close>

fun rank_rows :: "nat \<Rightarrow> step_error option list \<Rightarrow> rank_envelope list" where
  "rank_rows k [] = []"
| "rank_rows k (x # xs) =
     RankEnvelope (int k) (case x of None \<Rightarrow> NoError | Some e \<Rightarrow> ErrorEnvelope (attempt_error_record e)) # rank_rows (Suc k) xs"

fun rank_failures :: "nat \<Rightarrow> step_error option list \<Rightarrow> (nat \<times> error_row) list" where
  "rank_failures k [] = []"
| "rank_failures k (None # xs) = rank_failures (Suc k) xs"
| "rank_failures k (Some e # xs) = (k, attempt_error_record e) # rank_failures (Suc k) xs"

definition ranks_agree :: "step_error option list \<Rightarrow> bool" where
  "ranks_agree errs \<longleftrightarrow>
     (\<exists>status p d n. status \<in> set solve_statuses \<and> d \<in> {ascii ''retry'', ascii ''reject''}
       \<and> (\<forall>x \<in> set errs. \<exists>e. x = Some e \<and> er_rejected e \<and> row_control (attempt_error_record e) = (Some status, p, Some d, Some n)))"

lemma read_rank_rows: "read_envelopes k (rank_rows k errs) = Inr (rank_failures k errs)"
  by (induction k errs rule: rank_failures.induct) auto

lemma length_rank_rows [simp]: "length (rank_rows k errs) = length errs"
  by (induction errs arbitrary: k) auto

lemma rank_failures_length: "length (rank_failures k errs) \<le> length errs"
  "length (rank_failures k errs) = length errs \<Longrightarrow> \<forall>x \<in> set errs. x \<noteq> None"
proof -
  show le: "length (rank_failures k errs) \<le> length errs" for k errs
    by (induction k errs rule: rank_failures.induct) auto
  show "length (rank_failures k errs) = length errs \<Longrightarrow> \<forall>x \<in> set errs. x \<noteq> None"
  proof (induction k errs rule: rank_failures.induct)
    case (2 k xs)
    then show ?case using le [of "Suc k" xs] by simp
  qed auto
qed

lemma set_rank_failures: "snd ` set (rank_failures k errs) = attempt_error_record ` {e. Some e \<in> set errs}"
  by (induction k errs rule: rank_failures.induct) auto

lemma rank_failures_Nil: "rank_failures k errs = [] \<longleftrightarrow> (\<forall>x \<in> set errs. x = None)"
  by (induction k errs rule: rank_failures.induct) auto

lemma record_kind [simp]:
  "ew_kind (attempt_error_record e) = ascii ''fail'' \<longleftrightarrow> \<not> er_rejected e"
  "ew_kind (attempt_error_record e) = ascii ''reject'' \<longleftrightarrow> er_rejected e"
  by (simp_all add: attempt_error_record_def Let_def ascii_def)

lemma record_phase: "ew_phase (attempt_error_record e) \<in> set report_phases"
proof -
  have std: "ascii ''solve'' \<in> set report_phases" "ascii ''stage'' \<in> set report_phases" by (simp_all add: report_phases_def)
  have "p \<in> set report_phases" if "phase_of e = Inr p" for p
    using that std by (auto simp: phase_of_def find_Some_iff split: attribute.splits option.splits if_splits)
  then show ?thesis using std by (auto simp: attempt_error_record_def Let_def split: sum.split)
qed

lemma record_rejected:
  assumes "er_rejected e"
  obtains status d n where "ew_status (attempt_error_record e) = Some status" "ew_disposition (attempt_error_record e) = Some d"
    "ew_reason (attempt_error_record e) = Some n"
  using assms by (simp add: attempt_error_record_def Let_def)

lemma one_control:
  assumes "\<not> 1 < length (remdups xs)" "x \<in> set xs" "y \<in> set xs"
  shows "x = y"
proof -
  have "card (set xs) \<le> Suc 0" using assms(1) by (simp add: length_remdups_card_conv)
  then show ?thesis using assms(2,3) card_le_Suc0_iff_eq [of "set xs"] by simp
qed

lemma rank_failure_record:
  assumes "(r, row) \<in> set (rank_failures k errs)"
  obtains e where "row = attempt_error_record e" "Some e \<in> set errs"
proof -
  have "row \<in> snd ` set (rank_failures k errs)" using assms by (rule rev_image_eqI) simp
  then show thesis using that unfolding set_rank_failures by blast
qed

lemma rank_failures_all: "\<forall>x \<in> set errs. x \<noteq> None \<Longrightarrow> length (rank_failures k errs) = length errs"
  by (induction k errs rule: rank_failures.induct) auto

lemma rejections_only:
  assumes "\<forall>x \<in> set errs. \<exists>e. x = Some e \<and> er_rejected e"
  shows "filter (\<lambda>(r, e). ew_kind e = ascii ''fail'') (rank_failures k errs) = []"
    and "filter (\<lambda>(r, e). ew_kind e = ascii ''reject'') (rank_failures k errs) = rank_failures k errs"
  using assms by (induction k errs rule: rank_failures.induct) auto

lemma controls_equal:
  assumes "\<And>x y. Some x \<in> set errs \<Longrightarrow> Some y \<in> set errs \<Longrightarrow> row_control (attempt_error_record x) = row_control (attempt_error_record y)"
  shows "\<not> 1 < length (remdups (map (\<lambda>(r, e). row_control e) (rank_failures k errs)))"
proof -
  let ?cs = "map (\<lambda>(r, e). row_control e) (rank_failures k errs)"
  have "\<exists>e. c = row_control (attempt_error_record e) \<and> Some e \<in> set errs" if "c \<in> set ?cs" for c
    using that by (auto elim!: rank_failure_record)
  then have "c = c'" if "c \<in> set ?cs" "c' \<in> set ?cs" for c c' using that assms by metis
  then have "card (set ?cs) \<le> Suc 0" using card_le_Suc0_iff_eq [of "set ?cs"] by blast
  then show ?thesis by (simp add: length_remdups_card_conv)
qed

lemma decision_all_rejected:
  assumes "errs \<noteq> []" "\<forall>x \<in> set errs. \<exists>e. x = Some e \<and> er_rejected e"
    and eq: "\<And>x y. Some x \<in> set errs \<Longrightarrow> Some y \<in> set errs \<Longrightarrow> row_control (attempt_error_record x) = row_control (attempt_error_record y)"
  shows "\<exists>res. collective_decision (rank_rows 0 errs) = Inr (Some res) \<and> (er_rejected res \<longleftrightarrow> ranks_agree errs)
    \<and> (er_rejected res \<longrightarrow> (\<forall>y. Some y \<in> set errs \<longrightarrow> row_control (attempt_error_record res) = row_control (attempt_error_record y)))"
proof -
  let ?fs = "rank_failures 0 errs"
  have some: "\<forall>x \<in> set errs. x \<noteq> None" using assms(2) by auto
  have ne: "?fs \<noteq> []" using assms(1) some unfolding rank_failures_Nil by (cases errs) auto
  obtain k row rest where fs: "?fs = (k, row) # rest" using ne by (metis list.exhaust surj_pair)
  then have first: "hd ?fs = (k, row)" by simp
  obtain e where e: "row = attempt_error_record e" "Some e \<in> set errs"
    using rank_failure_record [of k row 0 errs] fs by auto
  have rej: "er_rejected e" using e(2) assms(2) by auto
  obtain status d n where c: "ew_status row = Some status" "ew_disposition row = Some d" "ew_reason row = Some n"
    using record_rejected [OF rej] e(1) by metis
  have control: "row_control (attempt_error_record y) = (Some status, ew_phase row, Some d, Some n)" if "Some y \<in> set errs" for y
    using eq [OF that e(2)] c e(1) by (simp add: row_control_def)
  have agree: "ranks_agree errs \<longleftrightarrow> status \<in> set solve_statuses \<and> d \<in> {ascii ''retry'', ascii ''reject''}"
  proof
    assume "ranks_agree errs"
    then show "status \<in> set solve_statuses \<and> d \<in> {ascii ''retry'', ascii ''reject''}"
      using e(2) control [OF e(2)] unfolding ranks_agree_def by fastforce
  next
    assume ok: "status \<in> set solve_statuses \<and> d \<in> {ascii ''retry'', ascii ''reject''}"
    have "\<exists>e. x = Some e \<and> er_rejected e \<and> row_control (attempt_error_record e) = (Some status, ew_phase row, Some d, Some n)"
      if x: "x \<in> set errs" for x
      using bspec [OF assms(2) x] control x by blast
    then show "ranks_agree errs" unfolding ranks_agree_def using ok by blast
  qed
  have dec: "collective_decision (rank_rows 0 errs) =
      (if status \<notin> set solve_statuses then
         Inr (Some (runtime_error (ascii ''collective step attempt returned an invalid rejection status on rank '' @ decimal k)))
       else if d \<notin> {ascii ''retry'', ascii ''reject''} then
         Inr (Some (runtime_error (ascii ''collective step attempt returned an invalid rejection disposition on rank '' @ decimal k)))
       else Inr (Some \<lparr>er_rejected = True, er_type = ascii ''StepAttemptRejected'',
         er_message = Some (ascii ''collective step attempt rejected during '' @ ew_phase row @ ascii '': '' @ failure_text ?fs),
         er_phase = TextValue (ew_phase row), er_status = TextValue status, er_detail = TextValue (failure_text ?fs),
         er_disposition = TextValue d, er_reason = Some n, er_failed_rank = Some k, er_notes = []\<rparr>))"
    using ne controls_equal [where errs = errs and k = 0, OF eq] rank_failures_all [OF some, of 0]
    by (simp add: collective_decision_def read_rank_rows rejections_only [OF assms(2)] Let_def first c del: One_nat_def)
  have phase: "ew_phase row \<in> set report_phases" using e(1) record_phase by simp
  show ?thesis
  proof (cases "status \<in> set solve_statuses \<and> d \<in> {ascii ''retry'', ascii ''reject''}")
    case False
    then show ?thesis using agree dec by (auto simp: runtime_error_def plain_error_def)
  next
    case True
    then show ?thesis using agree dec phase control
      by (auto simp: row_control_def attempt_error_record_def phase_of_def attribute_text_def Let_def)
  qed
qed

lemma decision_not_all_rejected:
  assumes "\<not> (\<forall>x \<in> set errs. x = None)"
    and "\<not> (\<forall>x \<in> set errs. \<exists>e. x = Some e \<and> er_rejected e) \<or>
      (\<exists>x y. Some x \<in> set errs \<and> Some y \<in> set errs \<and> row_control (attempt_error_record x) \<noteq> row_control (attempt_error_record y))"
  shows "\<exists>res. collective_decision (rank_rows 0 errs) = Inr (Some res) \<and> \<not> er_rejected res"
proof -
  let ?fs = "rank_failures 0 errs"
  have ne: "?fs \<noteq> []" using assms(1) by (simp add: rank_failures_Nil)
  let ?fatal = "filter (\<lambda>(r, e). ew_kind e = ascii ''fail'') ?fs"
  let ?cs = "remdups (map (\<lambda>(r, e). row_control e) (filter (\<lambda>(r, e). ew_kind e = ascii ''reject'') ?fs))"
  have "?fatal \<noteq> [] \<or> length ?fs \<noteq> length errs \<or> 1 < length ?cs"
  proof (rule ccontr)
    assume "\<not> ?thesis"
    then have h: "?fatal = []" "length ?fs = length errs" "\<not> 1 < length ?cs" by auto
    have rej: "er_rejected e" if "Some e \<in> set errs" for e
    proof -
      have "attempt_error_record e \<in> snd ` set ?fs" using that by (auto simp: set_rank_failures)
      then obtain r where "(r, attempt_error_record e) \<in> set ?fs" by auto
      then show ?thesis using h(1) by (auto simp: filter_empty_conv)
    qed
    have all: "\<forall>x \<in> set errs. \<exists>e. x = Some e \<and> er_rejected e"
      using rank_failures_length(2) [OF h(2)] rej by (metis not_None_eq)
    have "row_control (attempt_error_record x) \<in> set (map (\<lambda>(r, e). row_control e) ?fs)" if "Some x \<in> set errs" for x
    proof -
      have "attempt_error_record x \<in> snd ` set ?fs" using that by (auto simp: set_rank_failures)
      then show ?thesis by force
    qed
    then have "row_control (attempt_error_record x) = row_control (attempt_error_record y)" if "Some x \<in> set errs" "Some y \<in> set errs" for x y
      using one_control [OF h(3) [unfolded rejections_only(2) [OF all]]] that by blast
    then show False using assms(2) all by blast
  qed
  then show ?thesis
    using ne by (auto simp: collective_decision_def read_rank_rows Let_def split_beta runtime_error_def plain_error_def)
qed

text \<open>
  C31.  The decision every rank takes from the gathered results: success exactly when no rank failed; a rejection, which
  the controller may retry, exactly when every rank rejected with the same status, phase, disposition and reason code and
  these are valid; a fatal error otherwise.  A rejection carries the control values of every rank.
\<close>

theorem collective_attempt_decision:
  "\<exists>res. collective_decision (rank_rows 0 errs) = Inr res
     \<and> (res = None \<longleftrightarrow> (\<forall>x \<in> set errs. x = None))
     \<and> (\<forall>e. res = Some e \<longrightarrow> (er_rejected e \<longleftrightarrow> ranks_agree errs))
     \<and> (\<forall>e y. res = Some e \<longrightarrow> er_rejected e \<longrightarrow> Some y \<in> set errs \<longrightarrow>
          row_control (attempt_error_record e) = row_control (attempt_error_record y))"
proof -
  let ?all = "\<forall>x \<in> set errs. \<exists>e. x = Some e \<and> er_rejected e"
  let ?eq = "\<forall>x y. Some x \<in> set errs \<longrightarrow> Some y \<in> set errs \<longrightarrow> row_control (attempt_error_record x) = row_control (attempt_error_record y)"
  consider (none) "\<forall>x \<in> set errs. x = None" | (all) "\<not> (\<forall>x \<in> set errs. x = None)" ?all ?eq
    | (mixed) "\<not> (\<forall>x \<in> set errs. x = None)" "\<not> ?all \<or> \<not> ?eq" by blast
  then show ?thesis
  proof cases
    case none
    then have "rank_failures 0 errs = []" by (simp add: rank_failures_Nil)
    then have "collective_decision (rank_rows 0 errs) = Inr None" by (simp add: collective_decision_def read_rank_rows)
    then show ?thesis using none by auto
  next
    case all
    then have "errs \<noteq> []" by auto
    then have "\<exists>res. collective_decision (rank_rows 0 errs) = Inr (Some res) \<and> (er_rejected res \<longleftrightarrow> ranks_agree errs)
      \<and> (er_rejected res \<longrightarrow> (\<forall>y. Some y \<in> set errs \<longrightarrow> row_control (attempt_error_record res) = row_control (attempt_error_record y)))"
      by (rule decision_all_rejected [OF _ all(2)]) (rule all(3) [rule_format])
    then obtain res where
      res: "collective_decision (rank_rows 0 errs) = Inr (Some res)" "er_rejected res \<longleftrightarrow> ranks_agree errs"
        "er_rejected res \<longrightarrow> (\<forall>y. Some y \<in> set errs \<longrightarrow> row_control (attempt_error_record res) = row_control (attempt_error_record y))"
      by blast
    then show ?thesis using all(1) by (intro exI [of _ "Some res"]) simp
  next
    case mixed
    have "\<not> ?all \<or> (\<exists>x y. Some x \<in> set errs \<and> Some y \<in> set errs \<and> row_control (attempt_error_record x) \<noteq> row_control (attempt_error_record y))"
      using mixed(2) by blast
    from decision_not_all_rejected [OF mixed(1) this] obtain res where
      res: "collective_decision (rank_rows 0 errs) = Inr (Some res)" "\<not> er_rejected res" by blast
    have "\<not> ranks_agree errs"
    proof
      assume "ranks_agree errs"
      then obtain c where c: "\<forall>x \<in> set errs. \<exists>e. x = Some e \<and> er_rejected e \<and> row_control (attempt_error_record e) = c"
        unfolding ranks_agree_def by blast
      have "row_control (attempt_error_record x) = c" if "Some x \<in> set errs" for x using bspec [OF c that] by simp
      then have ?eq by simp
      moreover have ?all using c by blast
      ultimately show False using mixed(2) by blast
    qed
    then show ?thesis using res mixed(1) by (intro exI [of _ "Some res"]) simp
  qed
qed

definition sample_rejection :: "string \<Rightarrow> step_error" where
  "sample_rejection s = (plain_error ''StepAttemptRejected'' (ascii ''x''))\<lparr>er_rejected := True, er_status := TextValue (ascii s)\<rparr>"

theorem collective_attempt_decision_witness:
  "(\<exists>e. collective_decision (rank_rows 0 [Some (sample_rejection ''singular''), Some (sample_rejection ''singular'')]) = Inr (Some e) \<and> er_rejected e)
   \<and> (\<exists>e. collective_decision (rank_rows 0 [Some (sample_rejection ''singular''), None]) = Inr (Some e) \<and> \<not> er_rejected e)"
proof
  let ?errs = "[Some (sample_rejection ''singular''), Some (sample_rejection ''singular'')]"
  have "ranks_agree ?errs"
    unfolding ranks_agree_def
    by (rule exI [of _ "ascii ''singular''"], rule exI [of _ "ew_phase (attempt_error_record (sample_rejection ''singular''))"],
      rule exI [of _ "ascii ''reject''"], rule exI [of _ 0])
      (simp add: sample_rejection_def plain_error_def row_control_def attempt_error_record_def attribute_text_def solve_statuses_def Let_def)
  moreover have "\<not> (\<forall>x \<in> set ?errs. x = None)" by simp
  ultimately show "\<exists>e. collective_decision (rank_rows 0 ?errs) = Inr (Some e) \<and> er_rejected e"
    using collective_attempt_decision [of ?errs] by (metis not_None_eq)
  let ?mixed = "[Some (sample_rejection ''singular''), None]"
  have "\<not> ranks_agree ?mixed" by (simp add: ranks_agree_def)
  moreover have "\<not> (\<forall>x \<in> set ?mixed. x = None)" by simp
  ultimately show "\<exists>e. collective_decision (rank_rows 0 ?mixed) = Inr (Some e) \<and> \<not> er_rejected e"
    using collective_attempt_decision [of ?mixed] by (metis not_None_eq)
qed

text \<open>
  C26.  Both retry loops end.  A prepared cursor makes at most one attempt more than its retry budget, and exactly one
  when its controller does not retry.  \<^verbatim>\<open>_execute_prepared_attempts\<close> returns the number of attempts of an accepted
  sequence or raises with the sequence not accepted; a report that \<^verbatim>\<open>run_step\<close> returns is the recorded one, of an
  accepted sequence, with the attempts made and every staged effect committed.
\<close>

theorem attempts_within_budget:
  assumes "new_attempts p w k = Inr st"
  shows "(case execute_prepared_attempts p st of
      (r, st') \<Rightarrow> 1 \<le> at_attempts st' \<and> at_attempts st' \<le> Suc (budget_bound p)
        \<and> (case r of Inr n \<Rightarrow> n = at_attempts st' \<and> at_accepted st' \<and> at_controller st' = n | Inl e \<Rightarrow> \<not> at_accepted st'))
    \<and> (case run_step p st of
      (r, st') \<Rightarrow> at_attempts st' \<le> Suc (budget_bound p)
        \<and> (\<forall>rep. r = Inr rep \<longrightarrow> at_accepted st' \<and> at_report st' = Some rep \<and> sr_status rep = ascii ''accepted''
             \<and> sr_attempts rep = at_attempts st' \<and> sr_committed rep = sr_staged rep))"
proof -
  have st: "\<not> at_accepted st" "at_attempts st = 0" using assms by (auto simp: new_attempts_def)
  obtain r st' where x: "execute_prepared_attempts p st = (r, st')" by (rule prod.exhaust)
  obtain r2 st2 where y: "run_step p st = (r2, st2)" by (rule prod.exhaust)
  have a: "at_attempts st < at_attempts st' \<and> at_attempts st' \<le> Suc (budget_bound p)
    \<and> (case r of Inr n \<Rightarrow> n = at_attempts st' \<and> at_accepted st' \<and> at_controller st' = n | Inl e \<Rightarrow> \<not> at_accepted st')"
    using execute_prepared_attempts_bound [OF x st(1)] st(2) by simp
  have b: "at_attempts st2 \<le> Suc (budget_bound p)" "\<And>rep. r2 = Inr rep \<Longrightarrow> \<exists>st1. run_prepared_attempt p st1 = (Inr rep, st2)"
    using run_step_bound [OF y st(1)] st(2) by simp_all
  have "at_accepted st2 \<and> at_report st2 = Some rep \<and> sr_status rep = ascii ''accepted''
      \<and> sr_attempts rep = at_attempts st2 \<and> sr_committed rep = sr_staged rep" if rep: "r2 = Inr rep" for rep
    using b(2) [OF rep] run_prepared_attempt_accepts by blast
  then show ?thesis using a b(1) by (simp add: x y st(2))
qed

text \<open>A controller with budget two whose first two attempts are rejected.\<close>

definition sample_provider :: "nat provider" where
  "sample_provider =
     \<lparr>pv_attempt = (\<lambda>w. (if w < 2 then Inl (sample_rejection ''singular'') else Inr NoCount, Suc w)),
      pv_retry = Some (\<lambda>_ _ w. (Inr True, w)), pv_budget = Some 2, pv_accept = None, pv_stores = (\<lambda>_. [ascii ''states'']),
      pv_declared = (\<lambda>_. []), pv_consume = None, pv_plan_live = (\<lambda>_. True)\<rparr>"

theorem attempts_within_budget_witness:
  "\<exists>st. new_attempts sample_provider 0 0 = Inr st \<and> at_attempts (snd (run_step sample_provider st)) \<le> 3
     \<and> fst (execute_prepared_attempts sample_provider st) = Inr 3"
proof -
  obtain st where st: "new_attempts sample_provider 0 0 = Inr st"
    "st = \<lparr>at_world = 0, at_attempts = 0, at_accepted = False, at_report = None, at_controller = 0\<rparr>"
    by (simp add: new_attempts_def sample_provider_def)
  have "budget_bound sample_provider = 2" by (simp add: budget_bound_def sample_provider_def)
  then have "at_attempts (snd (run_step sample_provider st)) \<le> 3" using attempts_within_budget [OF st(1)] by (auto simp: split_beta)
  moreover have "fst (execute_prepared_attempts sample_provider st) = Inr 3"
    by (simp add: st(2) execute_prepared_attempts.simps execute_def accept_attempt_def retry_attempt_def retry_within_def bindS_def worldS_def
      returnS_def liftS_def status_value_def terminal_statuses_def sample_provider_def sample_rejection_def plain_error_def ascii_def)
  ultimately show ?thesis using st(1) by blast
qed

end
