(* ===== verification/Value_Transport.thy ===== *)
theory Value_Transport
  imports Consumer_Effects
begin

text \<open>
  The control values that ranks exchange: the node form of \<^verbatim>\<open>pops/_native_collectives.py\<close> (\<^verbatim>\<open>_encode_node\<close>,
  \<^verbatim>\<open>_decode_node\<close>), between Python values and the strict JSON tree that is written to bytes.

  \<^item> A finite float is its \<^verbatim>\<open>float.hex\<close> text, which determines it; \<open>is_hex_float\<close> describes these texts, so that
    \<^verbatim>\<open>float.fromhex\<close> followed by the comparison with \<^verbatim>\<open>hex\<close> accepts exactly them.  In the same way \<^verbatim>\<open>int(text, 10)\<close> followed by
    the comparison with \<^verbatim>\<open>str\<close> accepts exactly the decimal texts.
  \<^item> A mapping is an association list in iteration order, with distinct keys.
\<close>

subsection \<open>Values and nodes\<close>

datatype transport_key = TKey pystr | TKeyOther

datatype transport_value =
    TNone | TBool bool | TInt int | TFloat pystr | TNonFinite | TStr pystr | TBytes
  | TTuple "transport_value list" | TList "transport_value list"
  | TMap "(transport_key \<times> transport_value) list" | TOther

datatype json_node = JNull | JBool bool | JNumber | JStr pystr | JList "json_node list"

definition int_digits :: "int \<Rightarrow> pystr" where
  "int_digits n = (if n < 0 then 45 # decimal (nat (- n)) else decimal (nat n))"

definition parse_int :: "pystr \<Rightarrow> int" where
  "parse_int s = (case s of c # ds \<Rightarrow> if c = 45 then - int (parse_decimal ds) else int (parse_decimal s) | [] \<Rightarrow> 0)"

definition is_hex_digit :: "nat \<Rightarrow> bool" where
  "is_hex_digit c \<longleftrightarrow> 48 \<le> c \<and> c \<le> 57 \<or> 97 \<le> c \<and> c \<le> 102"

text \<open>\<^verbatim>\<open>float.hex\<close>: zero, a normal number, or a subnormal one; 13 digits after the point.\<close>

definition is_hex_float :: "pystr \<Rightarrow> bool" where
  "is_hex_float s =
     (let t = (if take 1 s = [45] then List.drop 1 s else s); lead = take 4 t; digits = take 13 (List.drop 4 t); tail = List.drop 17 t in
      t = ascii ''0x0.0p+0''
      \<or> length digits = 13 \<and> list_all is_hex_digit digits \<and>
        (lead = ascii ''0x1.'' \<and> list_ex (\<lambda>n. tail = ascii ''p+'' @ decimal n) [0..<1024]
         \<or> lead = ascii ''0x1.'' \<and> list_ex (\<lambda>n. tail = ascii ''p-'' @ decimal n) [1..<1023]
         \<or> lead = ascii ''0x0.'' \<and> tail = ascii ''p-1022'' \<and> list_ex (\<lambda>c. c \<noteq> 48) digits))"

subsection \<open>Encoding\<close>

definition key_text :: "transport_key \<Rightarrow> pystr" where
  "key_text k = (case k of TKey s \<Rightarrow> s | TKeyOther \<Rightarrow> [])"

definition tagged :: "string \<Rightarrow> json_node list \<Rightarrow> json_node" where
  "tagged tag xs = JList (JStr (ascii tag) # xs)"

text \<open>An unordered or empty key sorts before any item is encoded.\<close>

function (sequential) encode_node :: "transport_value \<Rightarrow> json_node result" where
  "encode_node TNone = Inr (tagged ''none'' [])"
| "encode_node (TBool b) = Inr (tagged ''bool'' [JBool b])"
| "encode_node (TInt n) = Inr (tagged ''int'' [JStr (int_digits n)])"
| "encode_node (TFloat s) = Inr (tagged ''float'' [JStr s])"
| "encode_node TNonFinite = Inl (ValueError ''non-finite float'')"
| "encode_node (TStr s) = Inr (tagged ''str'' [JStr s])"
| "encode_node TBytes = Inl (TypeError ''native structured collectives refuse bytes'')"
| "encode_node (TTuple xs) = bindE (mapE encode_node xs) (\<lambda>ns. Inr (tagged ''tuple'' [JList ns]))"
| "encode_node (TList xs) = bindE (mapE encode_node xs) (\<lambda>ns. Inr (tagged ''list'' [JList ns]))"
| "encode_node (TMap kvs) =
     bindE (raise_if ([] \<in> key_text ` fst ` set kvs) (TypeError ''requires non-empty string keys'')) (\<lambda>_.
     bindE (mapE (\<lambda>p. bindE (encode_node (snd p)) (\<lambda>n. Inr (JList [JStr (key_text (fst p)), n])))
       (sort_key (\<lambda>p. key_text (fst p)) kvs)) (\<lambda>rows.
     Inr (tagged ''map'' [JList rows])))"
| "encode_node TOther = Inl (TypeError ''cannot encode'')"
  by pat_completeness auto
termination
  by (relation "measure size") (auto simp: less_Suc_eq_le intro: size_list_estimation' elim: size_list_estimation')

subsection \<open>Decoding\<close>

definition bad_node :: "'a result" where "bad_node = Inl (ValueError ''native collective payload has an unknown node'')"

function (sequential) decode_node :: "json_node \<Rightarrow> transport_value result"
  and decode_rows :: "pystr option \<Rightarrow> json_node list \<Rightarrow> (transport_key \<times> transport_value) list result" where
  "decode_node (JList (JStr tag # rest)) =
     (if tag = ascii ''none'' then (case rest of [] \<Rightarrow> Inr TNone | _ \<Rightarrow> bad_node)
      else if tag = ascii ''bool'' then (case rest of [JBool b] \<Rightarrow> Inr (TBool b) | _ \<Rightarrow> bad_node)
      else if tag = ascii ''int'' then
        (case rest of
           [JStr s] \<Rightarrow> if int_digits (parse_int s) = s then Inr (TInt (parse_int s)) else Inl (ValueError ''integer is not canonical'')
         | _ \<Rightarrow> bad_node)
      else if tag = ascii ''float'' then
        (case rest of
           [JStr s] \<Rightarrow> if is_hex_float s then Inr (TFloat s) else Inl (ValueError ''float is not canonical'')
         | _ \<Rightarrow> bad_node)
      else if tag = ascii ''str'' then (case rest of [JStr s] \<Rightarrow> Inr (TStr s) | _ \<Rightarrow> bad_node)
      else if tag = ascii ''tuple'' then
        (case rest of [JList ns] \<Rightarrow> bindE (mapE decode_node ns) (\<lambda>vs. Inr (TTuple vs)) | _ \<Rightarrow> bad_node)
      else if tag = ascii ''list'' then
        (case rest of [JList ns] \<Rightarrow> bindE (mapE decode_node ns) (\<lambda>vs. Inr (TList vs)) | _ \<Rightarrow> bad_node)
      else if tag = ascii ''map'' then
        (case rest of [JList ns] \<Rightarrow> bindE (decode_rows None ns) (\<lambda>kvs. Inr (TMap kvs)) | _ \<Rightarrow> bad_node)
      else bad_node)"
| "decode_node _ = Inl (ValueError ''invalid node'')"
| "decode_rows previous [] = Inr []"
| "decode_rows previous (JList [JStr key, n] # rows) =
     bindE (raise_if (key = []) (ValueError ''native collective mapping row is invalid'')) (\<lambda>_.
     bindE (raise_if (case previous of None \<Rightarrow> False | Some p \<Rightarrow> key \<le> p) (ValueError ''mapping is not canonical'')) (\<lambda>_.
     bindE (decode_node n) (\<lambda>v.
     bindE (decode_rows (Some key) rows) (\<lambda>kvs. Inr ((TKey key, v) # kvs)))))"
| "decode_rows previous (_ # rows) = Inl (ValueError ''native collective mapping row is invalid'')"
  by pat_completeness auto
termination
  by (relation "measure (\<lambda>x. case x of Inl n \<Rightarrow> size n | Inr (p, ns) \<Rightarrow> size_list size ns)")
    (auto simp: less_Suc_eq_le intro!: le_SucI size_list_estimation' [OF _ order_refl])

subsection \<open>Round trips\<close>

fun wf_value :: "transport_value \<Rightarrow> bool" where
  "wf_value (TFloat s) = is_hex_float s"
| "wf_value (TTuple xs) = list_all wf_value xs"
| "wf_value (TList xs) = list_all wf_value xs"
| "wf_value (TMap kvs) = (distinct (filter (\<lambda>k. k \<noteq> TKeyOther) (map fst kvs)) \<and> list_all (\<lambda>p. wf_value (snd p)) kvs)"
| "wf_value _ = True"

text \<open>The value up to the iteration order of its mappings.\<close>

fun canonical_order :: "transport_value \<Rightarrow> transport_value" where
  "canonical_order (TTuple xs) = TTuple (map canonical_order xs)"
| "canonical_order (TList xs) = TList (map canonical_order xs)"
| "canonical_order (TMap kvs) = TMap (sort_key (\<lambda>p. key_text (fst p)) (map (\<lambda>p. (fst p, canonical_order (snd p))) kvs))"
| "canonical_order v = v"

lemma parse_int_text: "parse_int (int_digits n) = n"
proof (cases "n < 0")
  case True
  then show ?thesis by (simp add: int_digits_def parse_int_def parse_decimal_decimal)
next
  case False
  obtain c ds where cs: "decimal (nat n) = c # ds" using decimal_nonempty [of "nat n"] by (cases "decimal (nat n)") auto
  have "is_digit c" using decimal_digits [of "nat n"] cs by simp
  then have "c \<noteq> 45" by (auto simp: is_digit_def)
  then show ?thesis using False cs parse_decimal_decimal [of "nat n"] by (simp add: int_digits_def parse_int_def)
qed

lemma sort_key_map: "(\<And>x. f (g x) = f x) \<Longrightarrow> sort_key f (map g xs) = map g (sort_key f xs)"
proof (induction xs)
  case (Cons x xs)
  have "insort_key f (g x) (map g ys) = map g (insort_key f x ys)" for ys using Cons.prems by (induction ys) auto
  then show ?case using Cons by simp
qed simp

definition encode_row :: "transport_key \<times> transport_value \<Rightarrow> json_node result" where
  "encode_row p = bindE (encode_node (snd p)) (\<lambda>n. Inr (JList [JStr (key_text (fst p)), n]))"

lemma decode_sorted_rows:
  assumes "list_all2 (\<lambda>p row. encode_row p = Inr row) ps rows"
    and "\<forall>p \<in> set ps. \<forall>n. encode_node (snd p) = Inr n \<longrightarrow> decode_node n = Inr (canonical_order (snd p))"
    and "sorted_wrt (<) (map (\<lambda>p. key_text (fst p)) ps)" "\<forall>p \<in> set ps. key_text (fst p) \<noteq> []"
    and "\<forall>k. previous = Some k \<longrightarrow> (\<forall>p \<in> set ps. k < key_text (fst p))"
  shows "decode_rows previous rows = Inr (map (\<lambda>p. (fst p, canonical_order (snd p))) ps)"
  using assms
proof (induction ps rows arbitrary: previous rule: list_all2_induct)
  case (Cons p ps row rows)
  obtain n where n: "encode_node (snd p) = Inr n" "row = JList [JStr (key_text (fst p)), n]" using Cons.hyps(1) by (auto simp: encode_row_def)
  have "TKey (key_text (fst p)) = fst p" using Cons.prems(3) by (cases "fst p") (auto simp: key_text_def)
  moreover have "decode_rows (Some (key_text (fst p))) rows = Inr (map (\<lambda>p. (fst p, canonical_order (snd p))) ps)"
    using Cons.prems by (intro Cons.IH) auto
  moreover have "decode_node n = Inr (canonical_order (snd p))" using Cons.prems(1) n(1) by simp
  moreover have "\<not> (case previous of None \<Rightarrow> False | Some k \<Rightarrow> key_text (fst p) \<le> k)"
    using Cons.prems(4) by (auto simp: not_le split: option.split)
  ultimately show ?case using n(2) Cons.prems(3) by (cases "key_text (fst p) = []") simp_all
qed simp

lemma ascii_eq_iff: "ascii s = ascii t \<longleftrightarrow> s = t"
proof -
  have "inj (of_char :: char \<Rightarrow> nat)" by (rule inj_of_char)
  then show ?thesis by (simp add: ascii_def inj_map_eq_map)
qed

lemma decode_items:
  assumes "\<And>x n. x \<in> set xs \<Longrightarrow> encode_node x = Inr n \<Longrightarrow> decode_node n = Inr (canonical_order x)" "mapE encode_node xs = Inr ns"
  shows "mapE decode_node ns = Inr (map canonical_order xs)"
proof -
  have "list_all2 (\<lambda>x n. encode_node x = Inr n) xs ns" using assms(2) by (simp add: mapE_eq_Inr)
  then have "list_all2 (\<lambda>n x. decode_node n = Inr (canonical_order x)) ns xs"
    using assms(1) by (auto simp: list_all2_conv_all_nth)
  then show ?thesis by (auto simp: mapE_eq_Inr list_all2_conv_all_nth)
qed

lemma distinct_key_text:
  assumes "[] \<notin> set (map (\<lambda>p. key_text (fst p)) kvs)" "distinct (filter (\<lambda>k. k \<noteq> TKeyOther) (map fst kvs))"
  shows "distinct (map (\<lambda>p. key_text (fst p)) kvs)"
proof -
  have k: "fst p = TKey (key_text (fst p))" if "p \<in> set kvs" for p
  proof -
    have "key_text (fst p) \<noteq> []" using assms(1) that by force
    then show ?thesis by (cases "fst p") (simp_all add: key_text_def)
  qed
  then have "filter (\<lambda>k. k \<noteq> TKeyOther) (map fst kvs) = map fst kvs" by (auto simp: filter_id_conv) (metis transport_key.distinct(1))
  then have d: "distinct (map fst kvs)" using assms(2) by simp
  have "inj_on key_text (set (map fst kvs))" using k by (auto intro!: inj_onI) metis
  then show ?thesis using d by (metis (mono_tags, lifting) comp_apply distinct_map list.map_comp map_eq_conv)
qed

lemma decode_encode:
  "wf_value v \<Longrightarrow> encode_node v = Inr n \<Longrightarrow> decode_node n = Inr (canonical_order v)"
proof (induction v arbitrary: n rule: encode_node.induct)
  case (3 m)
  then show ?case using parse_int_text [of m] by (auto simp: tagged_def ascii_eq_iff)
next
  case (8 xs)
  then obtain ns where ns: "mapE encode_node xs = Inr ns" "n = tagged ''tuple'' [JList ns]" by auto
  have "mapE decode_node ns = Inr (map canonical_order xs)" using 8 ns(1) by (intro decode_items) (auto simp: list_all_iff)
  then show ?case using ns(2) by (simp add: tagged_def ascii_eq_iff)
next
  case (9 xs)
  then obtain ns where ns: "mapE encode_node xs = Inr ns" "n = tagged ''list'' [JList ns]" by auto
  have "mapE decode_node ns = Inr (map canonical_order xs)" using 9 ns(1) by (intro decode_items) (auto simp: list_all_iff)
  then show ?case using ns(2) by (simp add: tagged_def ascii_eq_iff)
next
  case (10 kvs)
  let ?key = "\<lambda>p. key_text (fst p)" and ?ps = "sort_key (\<lambda>p. key_text (fst p)) kvs"
  obtain rows where ne: "[] \<notin> set (map ?key kvs)" and rows: "mapE encode_row ?ps = Inr rows" and n: "n = tagged ''map'' [JList rows]"
    using "10.prems"(2) by (auto simp: encode_row_def [abs_def] image_image)
  have "decode_rows None rows = Inr (map (\<lambda>p. (fst p, canonical_order (snd p))) ?ps)"
  proof (rule decode_sorted_rows)
    show "list_all2 (\<lambda>p row. encode_row p = Inr row) ?ps rows" using rows by (simp add: mapE_eq_Inr)
    show "\<forall>p \<in> set ?ps. \<forall>n. encode_node (snd p) = Inr n \<longrightarrow> decode_node n = Inr (canonical_order (snd p))"
      using "10.IH" "10.prems"(1) ne by (auto simp: list_all_iff)
    have "distinct (map ?key ?ps)" using distinct_key_text [OF ne] "10.prems"(1) by simp
    moreover have "sorted (map ?key ?ps)" by simp
    ultimately show "sorted_wrt (<) (map ?key ?ps)" by (simp only: strict_sorted_iff)
    show "\<forall>p \<in> set ?ps. ?key p \<noteq> []" using ne by force
  qed simp
  then show ?case using n by (simp add: tagged_def ascii_eq_iff sort_key_map)
qed (auto simp: tagged_def ascii_eq_iff)

definition good_item :: "transport_value \<Rightarrow> json_node \<Rightarrow> bool" where
  "good_item v n \<longleftrightarrow> encode_node v = Inr n \<and> wf_value v \<and> canonical_order v = v"

definition good_rows :: "pystr option \<Rightarrow> (transport_key \<times> transport_value) list \<Rightarrow> json_node list \<Rightarrow> bool" where
  "good_rows previous kvs rows \<longleftrightarrow>
     list_all2 (\<lambda>p row. \<exists>n. row = JList [JStr (key_text (fst p)), n] \<and> good_item (snd p) n) kvs rows
     \<and> (\<forall>p \<in> set kvs. key_text (fst p) \<noteq> [] \<and> (\<forall>k. previous = Some k \<longrightarrow> k < key_text (fst p)))
     \<and> sorted_wrt (<) (map (\<lambda>p. key_text (fst p)) kvs)"

lemma good_items:
  assumes "\<And>n v. n \<in> set ns \<Longrightarrow> decode_node n = Inr v \<Longrightarrow> good_item v n" "mapE decode_node ns = Inr vs"
  shows "mapE encode_node vs = Inr ns \<and> list_all wf_value vs \<and> map canonical_order vs = vs"
proof -
  have "list_all2 (\<lambda>v n. good_item v n) vs ns"
    using assms by (auto simp: mapE_eq_Inr list_all2_conv_all_nth)
  then show ?thesis
    by (auto simp: mapE_eq_Inr list_all2_conv_all_nth good_item_def list_all_length intro!: nth_equalityI)
qed

lemma sort_key_sorted: "sorted (map f xs) \<Longrightarrow> sort_key f xs = xs"
  by (induction xs) (auto simp: insort_is_Cons)

lemma good_map:
  assumes "good_rows previous kvs rows"
  shows "good_item (TMap kvs) (tagged ''map'' [JList rows])"
proof -
  let ?key = "\<lambda>p. key_text (fst p)"
  have ss: "sorted_wrt (<) (map ?key kvs)" and ne: "\<forall>p \<in> set kvs. ?key p \<noteq> []"
    and l: "list_all2 (\<lambda>p row. \<exists>n. row = JList [JStr (?key p), n] \<and> good_item (snd p) n) kvs rows"
    using assms by (auto simp: good_rows_def)
  have sd: "sorted (map ?key kvs)" "distinct (map ?key kvs)" using ss by (simp_all add: strict_sorted_iff)
  have sk: "sort_key ?key kvs = kvs" using sd(1) by (rule sort_key_sorted)
  have item: "\<exists>n. good_item (snd p) n" if "p \<in> set kvs" for p using list_all2_in_left [OF l that] by blast
  have norm: "map (\<lambda>p. (fst p, canonical_order (snd p))) kvs = kvs"
    using item by (intro map_idI) (auto simp: good_item_def)
  have "list_all2 (\<lambda>p row. encode_row p = Inr row) kvs rows"
    using l by (rule list_all2_mono) (auto simp: encode_row_def good_item_def)
  then have rows: "mapE encode_row (sort_key ?key kvs) = Inr rows" by (simp add: sk mapE_eq_Inr)
  have "[] \<notin> ?key ` set kvs"
  proof
    assume "[] \<in> ?key ` set kvs"
    then obtain p where "p \<in> set kvs" "?key p = []" by (metis imageE)
    then show False using ne by blast
  qed
  then have "encode_node (TMap kvs) = Inr (tagged ''map'' [JList rows])"
    using rows by (simp add: encode_row_def [abs_def] image_image)
  moreover have "distinct (map key_text (map fst kvs))" using sd(2) by (simp add: comp_def)
  then have "distinct (filter (\<lambda>k. k \<noteq> TKeyOther) (map fst kvs))" by (simp only: distinct_map distinct_filter)
  moreover have "list_all (\<lambda>p. wf_value (snd p)) kvs"
    using item by (auto simp: list_all_iff good_item_def)
  ultimately show ?thesis using sk norm by (simp add: good_item_def)
qed

lemma decode_node_cases:
  assumes "decode_node n = Inr v"
  obtains (none) "n = tagged ''none'' []" "v = TNone"
  | (bool) b where "n = tagged ''bool'' [JBool b]" "v = TBool b"
  | (int) s where "n = tagged ''int'' [JStr s]" "int_digits (parse_int s) = s" "v = TInt (parse_int s)"
  | (float) s where "n = tagged ''float'' [JStr s]" "is_hex_float s" "v = TFloat s"
  | (str) s where "n = tagged ''str'' [JStr s]" "v = TStr s"
  | (tuple) ns vs where "n = tagged ''tuple'' [JList ns]" "mapE decode_node ns = Inr vs" "v = TTuple vs"
  | (list) ns vs where "n = tagged ''list'' [JList ns]" "mapE decode_node ns = Inr vs" "v = TList vs"
  | (map) ns kvs where "n = tagged ''map'' [JList ns]" "decode_rows None ns = Inr kvs" "v = TMap kvs"
proof (cases n)
  case (JList xs)
  then obtain tag rest where n: "n = JList (JStr tag # rest)"
    using assms by (cases xs; cases "hd xs") auto
  note d = assms [unfolded n decode_node.simps(1) bad_node_def]
  show thesis using d that unfolding n tagged_def
    by (simp split: if_split_asm list.split_asm json_node.split_asm) blast+
qed (use assms in auto)

lemma good_rows_Nil: "good_rows previous [] []"
  by (simp add: good_rows_def)

lemma good_rows_Cons:
  assumes "good_item v n" "good_rows (Some key) kvs rows" "key \<noteq> []" "\<not> (case previous of None \<Rightarrow> False | Some p \<Rightarrow> key \<le> p)"
  shows "good_rows previous ((TKey key, v) # kvs) (JList [JStr key, n] # rows)"
proof -
  have p: "k < key" if "previous = Some k" for k using assms(4) that by simp
  have "\<forall>p \<in> set kvs. key < key_text (fst p)" using assms(2) by (simp add: good_rows_def)
  then show ?thesis using assms(1-3) p by (auto simp: good_rows_def key_text_def)
qed

lemma encode_decode:
  "decode_node n = Inr v \<Longrightarrow> good_item v n"
  "decode_rows previous rows = Inr kvs \<Longrightarrow> good_rows previous kvs rows"
proof (induction n and previous rows arbitrary: v and kvs rule: decode_node_decode_rows.induct)
  case (1 tag rest)
  from "1.prems" show ?case
  proof (cases rule: decode_node_cases)
    case (tuple ns vs)
    have "good_item x n" if "n \<in> set ns" "decode_node n = Inr x" for n x
      using "1.IH"(1) that tuple(1) by (simp add: tagged_def ascii_eq_iff)
    from good_items [OF this tuple(2)] show ?thesis using tuple by (simp add: good_item_def)
  next
    case (list ns vs)
    have "good_item x n" if "n \<in> set ns" "decode_node n = Inr x" for n x
      using "1.IH"(2) that list(1) by (simp add: tagged_def ascii_eq_iff)
    from good_items [OF this list(2)] show ?thesis using list by (simp add: good_item_def)
  next
    case (map ns kvs)
    have "good_rows None kvs ns" using "1.IH"(3) map by (simp add: tagged_def ascii_eq_iff)
    then show ?thesis using map good_map by simp
  qed (simp_all add: good_item_def)
qed (auto intro!: good_rows_Nil good_rows_Cons)

text \<open>
  C16.  The transport of control values is exact.  The encoding of a value decodes to that value with its mappings in key
  order; and a node decodes to a value exactly when it is the encoding of that value and the value is in this order, so
  every accepted node was written by the encoder and no two nodes stand for one value.
\<close>

theorem value_transport_exact:
  "(wf_value v \<and> encode_node v = Inr n \<longrightarrow> decode_node n = Inr (canonical_order v))
   \<and> (decode_node n = Inr v \<longleftrightarrow> encode_node v = Inr n \<and> wf_value v \<and> canonical_order v = v)"
proof (intro conjI impI)
  show "decode_node n = Inr (canonical_order v)" if "wf_value v \<and> encode_node v = Inr n"
    using decode_encode [of v n] that by simp
  show "decode_node n = Inr v \<longleftrightarrow> encode_node v = Inr n \<and> wf_value v \<and> canonical_order v = v"
  proof
    assume "decode_node n = Inr v"
    then show "encode_node v = Inr n \<and> wf_value v \<and> canonical_order v = v" using encode_decode(1) [of n v] by (simp add: good_item_def)
  next
    assume "encode_node v = Inr n \<and> wf_value v \<and> canonical_order v = v"
    then show "decode_node n = Inr v" using decode_encode [of v n] by simp
  qed
qed

text \<open>A rank envelope, with the keys of its mapping out of order.\<close>

definition sample_envelope :: transport_value where
  "sample_envelope = TMap [(TKey (ascii ''rank''), TInt (- 3)), (TKey (ascii ''error''), TTuple [TNone, TFloat (ascii ''0x0.0p+0'')])]"

theorem value_transport_exact_witness:
  "\<exists>n. encode_node sample_envelope = Inr n \<and> decode_node n = Inr (canonical_order sample_envelope)
     \<and> canonical_order sample_envelope \<noteq> sample_envelope"
proof -
  have w: "wf_value sample_envelope" by (simp add: sample_envelope_def is_hex_float_def ascii_def)
  obtain n where n: "encode_node sample_envelope = Inr n"
    by (simp add: sample_envelope_def key_text_def ascii_def)
  have "decode_node n = Inr (canonical_order sample_envelope)" using value_transport_exact [of sample_envelope n] w n by simp
  moreover have "canonical_order sample_envelope \<noteq> sample_envelope" by (simp add: sample_envelope_def key_text_def ascii_def)
  ultimately show ?thesis using n by blast
qed

end
