(* ===== verification/Spec2Isabelle.thy ===== *)
theory Spec2Isabelle
  imports Prelude Canonical_Bytes Typed_Identity Exact_Scalar Diagnostic_Publisher Program_Passes Scratch_Plan Program_Certificate
    Consumer_Planning Schedule_Lowering Consumer_Delivery Runtime_Plan_Laws Step_Attempts Value_Transport
begin

text \<open>
  A verification library for PoPS, a Python front end that authors, compiles and runs block-structured
  simulations.  The library follows the parts of the program that decide what is identified, what is computed
  and what is published; the sources are under \<^verbatim>\<open>src/python/pops/\<close>.

  \<^bold>\<open>The program and its parts.\<close>  A user builds a time \<^verbatim>\<open>Program\<close>, an SSA graph of operations, from typed values and
  temporal methods (\<^verbatim>\<open>time/\<close>).  Coefficients are exact scalars (\<^verbatim>\<open>identity/scalar.py\<close>); a method is certified from
  its tableau or from the graph (\<^verbatim>\<open>time/_methods/\<close>); the graph is optimized, renumbered and planned onto scratch
  buffers (\<^verbatim>\<open>time/_program/\<close>, \<^verbatim>\<open>codegen/scratch_plan.py\<close>) before C++ is emitted.  Every immutable value has an
  identity, a hash of its canonical bytes (\<^verbatim>\<open>identity/\<close>).  From the install plan and the component manifests the runtime
  derives calls, communication, resources and a determinism guarantee (\<^verbatim>\<open>runtime/_runtime_planning.py\<close>).  A macro step is
  attempted on all ranks, decided collectively and retried within a budget (\<^verbatim>\<open>runtime/_step_strategy.py\<close>).  After an
  accepted step the runtime asks the resolved
  \<^verbatim>\<open>ConsumerGraph\<close> which diagnostics, outputs, checkpoints and monitors are due (\<^verbatim>\<open>runtime/_consumer_planning.py\<close>),
  resolves the fields they read (\<^verbatim>\<open>fields/context.py\<close>), and runs the planned effects in a transaction that either
  publishes all of them and advances their cursors or restores the state before
  (\<^verbatim>\<open>runtime/_consumer_transaction.py\<close>).

  \<^bold>\<open>Theories and what they model.\<close>
  \<^item> \<open>Prelude\<close>: exceptions as values (\<open>result\<close>, \<open>bindE\<close>, \<open>mapE\<close>, \<open>foldE\<close>), permutations, text as code points.
  \<^item> \<open>Canonical_Bytes\<close> (\<^verbatim>\<open>identity/encoding.py\<close>): the CBOR encoder over an object store.  It accepts exactly the acyclic
    values of the identity language, its bytes determine the value up to iteration order, and they are prefix
    free.  The locale \<open>identity_code\<close> states this contract for the users of an encoding; \<open>cbor\<close> interprets it.
  \<^item> \<open>Typed_Identity\<close> (\<^verbatim>\<open>identity/digest.py\<close>): \<^verbatim>\<open>Identity\<close>, its token and data forms and their parsers, \<^verbatim>\<open>make_identity\<close>.
    Round trips, and equality of identities as equality of payloads up to hash collisions.
  \<^item> \<open>Exact_Scalar\<close> (\<^verbatim>\<open>identity/scalar.py\<close>): number domains, \<^verbatim>\<open>Decimal\<close> algebra, literals and their C++ text, with binary64
    rounding.
  \<^item> \<open>Runge_Kutta\<close>, \<open>Program_Certificate\<close> (\<^verbatim>\<open>time/_methods/\<close>, \<^verbatim>\<open>time/_graph/nodes.py\<close>, \<^verbatim>\<open>time/points.py\<close>): tableaux and
    certificates.  The certified order is Butcher's, the stability polynomial is the step on the test equation,
    an SSP certificate keeps convex sets, and executing a certified graph is one step of its tableau.
  \<^item> \<open>Program_IR\<close>, \<open>Program_Passes\<close> (\<^verbatim>\<open>time/_program/passes.py\<close>, \<^verbatim>\<open>rebuild.py\<close>): the graph, liveness, dead-node and
    common-subexpression elimination, redundant field solves, rebuilding.  Liveness is reachability, and the
    passes preserve the run of straight-line Programs under the stated conditions.
  \<^item> \<open>Scratch_Plan\<close> (\<^verbatim>\<open>time/_program/inspection.py\<close>, \<^verbatim>\<open>codegen/scratch_plan.py\<close>): live ranges, greedy buffer reuse and the
    plan that explains it.  Reuse is sound for the reported ranges and uses the least number of buffers.
  \<^item> \<open>Field_Context\<close> (\<^verbatim>\<open>fields/context.py\<close>, \<^verbatim>\<open>fields/policies.py\<close>): materialized fields and read policies; what a read may
    return.
  \<^item> \<open>Consumer_Graph\<close> (\<^verbatim>\<open>output/_consumer_contracts.py\<close>, \<^verbatim>\<open>time/_schedule/domains.py\<close>, \<^verbatim>\<open>api.py\<close>): moments, schedules,
    quantities, manifests and the graph with its topological order.
  \<^item> \<open>Schedule_Lowering\<close> (\<^verbatim>\<open>time/_schedule/ir.py\<close>): the native lowering of schedules; a constructed schedule lowers exactly
    on the native domains.
  \<^item> \<open>Consumer_Effects\<close> (\<^verbatim>\<open>runtime/_consumer_effects.py\<close> and the cursors of \<^verbatim>\<open>_consumer_contracts.py\<close>): cursors, payloads,
    effects, plans, receipts.  The locale \<open>cursor_store\<close> is what planner and transaction rely on; \<open>cursors\<close>
    interprets it on the cursor set.
  \<^item> \<open>Runtime_Plan\<close>, \<open>Runtime_Planning\<close>, \<open>Runtime_Plan_Laws\<close> (\<^verbatim>\<open>runtime/_runtime_plan_contracts.py\<close>, \<^verbatim>\<open>_runtime_planning.py\<close>,
    parts of \<^verbatim>\<open>_runtime_plan_io.py\<close>): the contracts of a plan, its derivation, and what it guarantees.  Clocks are accepted
    exactly when the joins connect them, fences are exactly the hazards between consecutive accesses, uses and
    buffers cover the lifetimes, every row is justified by a call, and the guarantee is the weakest declared class.
  \<^item> \<open>Step_Attempts\<close> (\<^verbatim>\<open>runtime/_step_strategy.py\<close>, the report of \<^verbatim>\<open>time/_step/transaction.py\<close>): rank-local results, the
    collective decision, the retry cursor and both loops over an abstract world.  A retry needs the same rejection on
    every rank, and the loops end within the budget.
  \<^item> \<open>Value_Transport\<close> (\<^verbatim>\<open>_native_collectives.py\<close>): the node form of the control values that ranks exchange.  Decoding is
    exactly the inverse of encoding, up to the order of mappings.
  \<^item> \<open>Consumer_Planning\<close> (\<^verbatim>\<open>runtime/_consumer_planning.py\<close>, \<^verbatim>\<open>_consumer_ownership.py\<close>): due consumers, occurrences,
    resources, fields, ownership of collectives and the effect plan.  Each due sample is planned exactly once, and
    the plan can open a transaction.
  \<^item> \<open>Consumer_Transaction\<close> (\<^verbatim>\<open>runtime/_consumer_transaction.py\<close>): prepare, accept, reject, roll back, seal and abort over
    an abstract publisher.  The locale \<open>compensating_publisher\<close> is the contract of the docstrings,
    \<open>reporting_publisher\<close> adds that exceptions have a message; the step relation \<open>tx_step\<close> orders the operations.
  \<^item> \<open>Diagnostic_Publisher\<close> (\<^verbatim>\<open>runtime/_runtime_consumers.py\<close>, the diagnostic path): the provider.  The locale
    \<open>diagnostic_native\<close> holds what is assumed of the native reductions, and a sublocale discharges the publisher
    contract for the code's definitions.  Acceptance is all or nothing, reachable states are consistent, sealing
    is final.
  \<^item> \<open>Consumer_Delivery\<close>: planning composed with the transaction; no sample is published twice and none is lost.
  \<^item> This theory: properties that span components.

  \<^bold>\<open>Conventions.\<close>  A dataclass is a record and its \<^verbatim>\<open>__post_init__\<close> a function \<open>mk_...\<close> that returns the record or the
  exception; a method that raises returns \<open>Inl\<close>; a \<^verbatim>\<open>refuse(code, ...)\<close> is the \<open>ValueError\<close> of its code.  Fields have
  their annotated type, so \<^verbatim>\<open>isinstance\<close> tests on them are not repeated.  SHA-256, the identities minted from a
  payload (\<open>mint\<close>), native reductions, the publisher's world, what an SSA operation computes (\<open>machine\<close>), and
  third-party triggers and policies are arguments, as are the platform proof, \<^verbatim>\<open>allgather_value\<close> and the callables of a
  retry cursor.

  \<^bold>\<open>Bounds and termination.\<close>  The encoder ends on every store because the active path has no repetition; the
  worklists end by the measures given at their definitions (the topology loop by the ready nodes and the sum of
  the degrees, the clock worklist by the clocks not reached, the retry loops by the attempts left in the budget).  Cloning in \<open>rebuild\<close> is bounded by a depth, the interpreter's recursion limit, and returns
  \<open>recursion_error\<close> beyond it; a depth of two is enough for a straight-line Program.  Integers are unbounded as in
  Python; signed 64-bit and binary64 limits are written out where the C++ text meets them.

  \<^bold>\<open>Findings.\<close>  The theorems show behaviours the code does not intend: \<^verbatim>\<open>exact_decimal_divide\<close> swaps the powers of
  two and five; a large \<^verbatim>\<open>Decimal\<close> is printed as an out-of-range integer token; an exception without message under
  \<^verbatim>\<open>SkipSampleReported\<close> strands a publication; common-subexpression elimination and liveness do not see in-place
  writes; a rebuild that drops nothing may renumber; the scratch plan confuses equal names; binary64 literals of
  a graph are never certified; a read in the space of a write hides the write from a later read in another memory
  space, which then gets no fence.

  \<^bold>\<open>Not modelled.\<close>  Output writers and readers, checkpoints, observers and visualization (file formats, MPI and
  threads); the runtime executors and bindings (native code); meshes, layouts, AMR, discretizations, solvers and
  physics libraries (numerical kernels and their descriptors); code emission (text of C++); parameter, problem and
  model authoring; scripts and release tooling.  Of the modelled files: the authoring phase and provider data of
  consumers, the diagnostic execution schema, the physical-time lattice of \<^verbatim>\<open>EveryDt\<close> and deadlines, the coverage
  reports, provenance, the decoder of stored runtime plans, the JSON text and the native byte
  collectives under the exchanged values, the controllers that choose binary64 time steps, and the
  canonical projections \<^verbatim>\<open>to_data\<close> other than those of identities.
\<close>

section \<open>Properties that span components\<close>

text \<open>
  C32. Liveness does not see in-place aliases.  \<^verbatim>\<open>project\<close> returns the buffer of its input, but only the reads of
  the input count for the live range of that buffer.  In the Program below the projected stage is read
  by the last node together with the rate \<^verbatim>\<open>k\<close>; in the run the projected value lives in the buffer of the
  stage \<^verbatim>\<open>U1\<close>, and the reuse report puts \<^verbatim>\<open>k\<close> on that buffer.
\<close>

theorem liveness_misses_in_place_aliases:
  "\<exists>p. straight_line p \<and> validate_order p = Inr ()
     \<and> map pv_name (pr_values p) = [''U'', ''U1'', ''V'', ''k'', ''W'']
     \<and> direct_reads (pr_values p ! 4) = [2, 3]
     \<and> rs_env (run_values sample_machine (take 4 (pr_values p))
          \<lparr>rs_env = (\<lambda>i. i), rs_heap = (\<lambda>l. 0), rs_world = 5\<rparr>) 2 = 1
     \<and> map_of (rr_assignment (buffer_reuse_report p)) ''U1'' = Some 0
     \<and> map_of (rr_assignment (buffer_reuse_report p)) ''k'' = Some 0"
proof -
  let ?p = "plan_program [plan_node 0 ''state'' [] ''U'', plan_node 1 ''linear_combine'' [0] ''U1'',
      plan_node 2 ''project'' [1] ''V'', plan_node 3 ''rhs'' [0] ''k'', plan_node 4 ''linear_combine'' [2, 3] ''W'']"
  have "straight_line ?p" by (simp add: straight_line_def plan_program_def plan_node_def all_refs_def)
  moreover have "validate_order ?p = Inr ()" by code_simp
  moreover have "map pv_name (pr_values ?p) = [''U'', ''U1'', ''V'', ''k'', ''W'']" "direct_reads (pr_values ?p ! 4) = [2, 3]"
    by code_simp+
  moreover have "rs_env (run_values sample_machine (take 4 (pr_values ?p))
      \<lparr>rs_env = (\<lambda>i. i), rs_heap = (\<lambda>l. 0), rs_world = 5\<rparr>) 2 = 1"
    by (simp add: plan_program_def plan_node_def sample_simps)
  moreover have "map_of (rr_assignment (buffer_reuse_report ?p)) ''U1'' = Some 0"
      "map_of (rr_assignment (buffer_reuse_report ?p)) ''k'' = Some 0"
    by code_simp+
  ultimately show ?thesis by (intro exI conjI)
qed

end
